(* ===== verification/Prelude.thy ===== *)
theory Prelude
  imports Main "HOL-Library.Word" "HOL-Library.Sublist" "HOL-Library.Multiset"
begin

unbundle bit_operations_syntax

text \<open>
  The vocabulary every component shares. A byte of a buffer is an \<^typ>\<open>8 word\<close>, so that
  C++'s \<^verbatim>\<open>unsigned char\<close> arithmetic keeps its width; \<^verbatim>\<open>uint32_t\<close> and \<^verbatim>\<open>uint64_t\<close> are words
  of 32 and 64 bits, whose additions wrap as the machine's do. A \<^verbatim>\<open>std::string\<close>, the bytes of a
  file and the range a \<^verbatim>\<open>Slice\<close> or a pair of pointers \<^verbatim>\<open>[p, limit)\<close> refers to are lists of
  bytes: the code never writes through a slice, so a slice is the value it shows. Lengths and
  offsets of buffers (\<^verbatim>\<open>size_t\<close>, pointer differences) are natural numbers.

  The lemmas are the ones several components need: how the shifts and masks of the code act on
  the numbers the words stand for, and facts about lists, lookups and sorted sequences.
\<close>

type_synonym byte = "8 word"
type_synonym bytes = "8 word list"
type_synonym u32 = "32 word"
type_synonym u64 = "64 word"

named_theorems word_nat \<open>machine words read as natural numbers\<close>
named_theorems codec \<open>a decoder run on what its encoder wrote\<close>
named_theorems codec_length \<open>the number of bytes an encoder writes\<close>

section \<open>Machine words as numbers\<close>

lemma unat_ucast_byte [word_nat]: "unat (ucast (v :: 'a::len word) :: byte) = unat v mod 256"
  by (simp add: unsigned_ucast_eq take_bit_eq_mod)

lemma unat_drop_bit [word_nat]: "unat (drop_bit n (v :: 'a::len word)) = unat v div 2 ^ n"
  by (subst unat_drop_bit_eq) (simp add: drop_bit_eq_div)

lemma unat_and_mask [word_nat]: "unat (v AND mask n :: 'a::len word) = unat v mod 2 ^ n"
  by (subst take_bit_eq_mask [symmetric], subst unsigned_take_bit_eq) (simp add: take_bit_eq_mod)

lemma unat_push_bit [word_nat]:
  "unat (push_bit n (v :: 'a::len word)) = unat v * 2 ^ n mod 2 ^ LENGTH('a)"
  by (subst unsigned_push_bit_eq) (simp add: push_bit_eq_mult take_bit_eq_mod)

lemma or_disjoint_nat:
  fixes a :: nat
  assumes "a < 2 ^ n"
  shows "a OR b * 2 ^ n = a + b * 2 ^ n"
proof -
  have "a AND b * 2 ^ n = 0"
  proof (rule bit_eqI)
    fix k
    have "bit a k \<Longrightarrow> k < n"
      using assms by (metis bit_take_bit_iff take_bit_nat_eq_self)
    then show "bit (a AND b * 2 ^ n) k = bit 0 k"
      by (auto simp add: bit_and_iff push_bit_eq_mult [symmetric] bit_push_bit_iff_nat)
  qed
  then show ?thesis
    by (simp add: disjunctive_add_eq_or)
qed

lemma unat_or_push_bit:
  fixes r b :: "'a::len word"
  assumes "unat r < 2 ^ n" and "unat b * 2 ^ n < 2 ^ LENGTH('a)"
  shows "unat (r OR push_bit n b) = unat r + unat b * 2 ^ n"
  using assms by (simp add: unsigned_or_eq unat_push_bit or_disjoint_nat)

section \<open>Decimal numbers\<close>

text \<open>What \<^verbatim>\<open>printf\<close> writes for an unsigned number.\<close>

fun decimal :: "nat \<Rightarrow> string" where
  "decimal n = (if n < 10 then [char_of (48 + n)] else decimal (n div 10) @ [char_of (48 + n mod 10)])"

declare decimal.simps [simp del]

section \<open>Ordered maps\<close>

text \<open>\<^verbatim>\<open>std::map\<close> is the list of its entries in the order of the keys.\<close>

primrec smap_set :: "'k::linorder \<Rightarrow> 'v \<Rightarrow> ('k \<times> 'v) list \<Rightarrow> ('k \<times> 'v) list" where
  "smap_set k v [] = [(k, v)]"
| "smap_set k v (e # es) =
     (if k < fst e then (k, v) # e # es
      else if k = fst e then (k, v) # es
      else e # smap_set k v es)"

definition smap_erase :: "'k \<Rightarrow> ('k \<times> 'v) list \<Rightarrow> ('k \<times> 'v) list" where
  "smap_erase k es = filter (\<lambda>e. fst e \<noteq> k) es"

definition smap_inv :: "('k::linorder \<times> 'v) list \<Rightarrow> bool" where
  "smap_inv es = sorted_wrt (<) (map fst es)"

lemma map_of_smap_set [simp]: "map_of (smap_set k v es) = (map_of es)(k \<mapsto> v)"
  by (induction es) (auto simp add: fun_eq_iff)

lemma map_of_smap_erase [simp]: "map_of (smap_erase k es) = (map_of es)(k := None)"
  by (induction es) (auto simp add: smap_erase_def fun_eq_iff)

lemma set_smap_set: "smap_inv es \<Longrightarrow> set (smap_set k v es) = insert (k, v) {e \<in> set es. fst e \<noteq> k}"
  by (induction es) (auto simp add: smap_inv_def)

lemma smap_inv_set [simp]: "smap_inv es \<Longrightarrow> smap_inv (smap_set k v es)"
proof (induction es)
  case (Cons e es)
  then have "fst ` set (smap_set k v es) \<subseteq> insert k (fst ` set es)"
    using set_smap_set [of es k v] by (auto simp add: smap_inv_def)
  then show ?case
    using Cons by (fastforce simp add: smap_inv_def)
qed (simp add: smap_inv_def)

lemma smap_inv_erase [simp]: "smap_inv es \<Longrightarrow> smap_inv (smap_erase k es)"
  by (induction es) (auto simp add: smap_inv_def smap_erase_def)

lemma smap_inv_Nil [simp]: "smap_inv []"
  by (simp add: smap_inv_def)

lemma smap_erase_simps [simp]:
  "smap_erase k [] = []" "smap_erase k (e # es) = (if fst e = k then smap_erase k es else e # smap_erase k es)"
  by (simp_all add: smap_erase_def)

lemma smap_erase_absent: "smap_inv (e # es) \<Longrightarrow> k \<le> fst e \<Longrightarrow> smap_erase k es = es \<and> map_of es k = None"
  by (force simp add: smap_erase_def smap_inv_def filter_id_conv map_of_eq_None_iff)

lemma smap_inv_tl: "smap_inv (e # es) \<Longrightarrow> smap_inv es"
  by (simp add: smap_inv_def)

lemma smap_erase_set: "smap_erase k (smap_set k v es) = smap_erase k es"
  by (induction es) simp_all

lemma smap_erase_id: "map_of es k = None \<Longrightarrow> smap_erase k es = es"
  by (induction es) (auto split: if_splits)

lemma smap_set_id: "smap_inv es \<Longrightarrow> map_of es k = Some v \<Longrightarrow> smap_set k v es = es"
  by (induction es) (auto dest: smap_inv_tl smap_erase_absent [where k = k] simp add: less_imp_le)

lemma smap_set_front: "\<forall>e\<in>set es. k < fst e \<Longrightarrow> smap_set k v es = (k, v) # es"
  by (cases es) auto

lemma smap_erase_set_commute:
  "smap_inv es \<Longrightarrow> k \<noteq> k' \<Longrightarrow> smap_erase k (smap_set k' v es) = smap_set k' v (smap_erase k es)"
proof (induction es)
  case (Cons e es)
  have "k' < fst e \<Longrightarrow> \<forall>x\<in>set (smap_erase k es). k' < fst x"
    using Cons.prems(1) by (force simp add: smap_inv_def smap_erase_def)
  then show ?case
    using Cons smap_inv_tl [OF Cons.prems(1)] by (auto simp add: smap_set_front)
qed simp

lemma dropWhile_first:
  assumes "j < length xs" "\<And>k. k < j \<Longrightarrow> P (xs ! k)" "\<not> P (xs ! j)"
  shows "dropWhile P xs = xs ! j # drop (Suc j) xs"
  using takeWhile_eq_take_P_nth [of j xs P] assms by (simp add: dropWhile_eq_drop Cons_nth_drop_Suc)

lemma set_nth_concat: "i < length xss \<Longrightarrow> set (xss ! i) \<subseteq> set (concat xss)"
  using nth_mem by fastforce

lemma sorted_nth_concat: "i < length xss \<Longrightarrow> sorted_wrt R (map f (concat xss)) \<Longrightarrow> sorted_wrt R (map f (xss ! i))"
  by (metis (no_types, lifting) concat.simps(2) concat_append id_take_nth_drop map_append sorted_wrt_append)

lemma sorted_lasts:
  assumes "sorted_wrt R (map f (concat xss))" "[] \<notin> set xss"
  shows "sorted_wrt R (map (\<lambda>xs. f (last xs)) xss)"
  using assms
proof (induction xss)
  case (Cons xs xss)
  have "R (f (last xs)) (f (last ys))" if "ys \<in> set xss" for ys
  proof -
    have "xs \<noteq> []" "ys \<noteq> []"
      using Cons.prems(2) that by auto
    then have "last xs \<in> set xs" "last ys \<in> set (concat xss)"
      using that last_in_set by fastforce+
    then show ?thesis
      using Cons.prems(1) by (auto simp add: sorted_wrt_append)
  qed
  then show ?case
    using Cons by (simp add: sorted_wrt_append)
qed simp

lemma sorted_wrt_concat:
  "\<forall>xs\<in>set xss. sorted_wrt R xs \<Longrightarrow> sorted_wrt (\<lambda>xs ys. \<forall>x\<in>set xs. \<forall>y\<in>set ys. R x y) xss \<Longrightarrow> sorted_wrt R (concat xss)"
  by (induction xss) (auto simp add: sorted_wrt_append)

lemma find_unique:
  assumes "i < length xs" "\<And>j. j < length xs \<Longrightarrow> P (xs ! j) \<longleftrightarrow> j = i"
  shows "find P xs = Some (xs ! i)"
  unfolding find_Some_iff using assms by (metis less_trans less_irrefl)

end
