(* ===== verification/Coding.thy ===== *)
theory Coding
  imports Prelude
begin

text \<open>
  The byte encodings of \<^verbatim>\<open>util/coding.cc\<close> and \<^verbatim>\<open>util/coding.h\<close>: fixed-width integers in
  little- and big-endian order, varints of 32 and 64 bits, and length-prefixed strings. A
  routine that appends to a string takes the string and returns the longer one; a routine that
  parses from a pointer or a slice takes the bytes from that position on and returns the value
  with the bytes that are left, or \<^const>\<open>None\<close> where the code returns a null pointer or false.
  Every encoder is followed by the law that its decoder gives the value back and leaves exactly
  what followed it.
\<close>

section \<open>Fixed-width integers\<close>

text \<open>How the host stores an integer in memory, which is what \<^verbatim>\<open>memcpy\<close> copies.\<close>

definition kLittleEndian :: bool where
  "kLittleEndian = True"

definition object_bytes32 :: "bool \<Rightarrow> u32 \<Rightarrow> bytes" where
  "object_bytes32 le v =
     (let bs = [ucast v, ucast (drop_bit 8 v), ucast (drop_bit 16 v), ucast (drop_bit 24 v)]
      in if le then bs else rev bs)"

definition object_bytes64 :: "bool \<Rightarrow> u64 \<Rightarrow> bytes" where
  "object_bytes64 le v =
     (let bs = [ucast v, ucast (drop_bit 8 v), ucast (drop_bit 16 v), ucast (drop_bit 24 v),
                ucast (drop_bit 32 v), ucast (drop_bit 40 v), ucast (drop_bit 48 v),
                ucast (drop_bit 56 v)]
      in if le then bs else rev bs)"

definition object_value32 :: "bool \<Rightarrow> bytes \<Rightarrow> u32" where
  "object_value32 le p =
     (let b = (\<lambda>i. ucast (p ! (if le then i else 3 - i)) :: u32)
      in b 0 OR push_bit 8 (b 1) OR push_bit 16 (b 2) OR push_bit 24 (b 3))"

definition object_value64 :: "bool \<Rightarrow> bytes \<Rightarrow> u64" where
  "object_value64 le p =
     (let b = (\<lambda>i. ucast (p ! (if le then i else 7 - i)) :: u64)
      in b 0 OR push_bit 8 (b 1) OR push_bit 16 (b 2) OR push_bit 24 (b 3) OR
         push_bit 32 (b 4) OR push_bit 40 (b 5) OR push_bit 48 (b 6) OR push_bit 56 (b 7))"

definition EncodeFixed32 :: "bool \<Rightarrow> u32 \<Rightarrow> bytes" where
  "EncodeFixed32 le value =
     (if le then object_bytes32 le value
      else [ucast (value AND 0xff),
            ucast (drop_bit 8 value AND 0xff),
            ucast (drop_bit 16 value AND 0xff),
            ucast (drop_bit 24 value AND 0xff)])"

definition EncodeBigEndianFixed32 :: "u32 \<Rightarrow> bytes" where
  "EncodeBigEndianFixed32 value =
     [ucast (drop_bit 24 value AND 0xFF),
      ucast (drop_bit 16 value AND 0xFF),
      ucast (drop_bit 8 value AND 0xFF),
      ucast (value AND 0xFF)]"

definition EncodeFixed64 :: "bool \<Rightarrow> u64 \<Rightarrow> bytes" where
  "EncodeFixed64 le value =
     (if le then object_bytes64 le value
      else [ucast (value AND 0xff),
            ucast (drop_bit 8 value AND 0xff),
            ucast (drop_bit 16 value AND 0xff),
            ucast (drop_bit 24 value AND 0xff),
            ucast (drop_bit 32 value AND 0xff),
            ucast (drop_bit 40 value AND 0xff),
            ucast (drop_bit 48 value AND 0xff),
            ucast (drop_bit 56 value AND 0xff)])"

definition EncodeBigEndianFixed64 :: "u64 \<Rightarrow> bytes" where
  "EncodeBigEndianFixed64 value =
     [ucast (drop_bit 56 value AND 0xFF),
      ucast (drop_bit 48 value AND 0xFF),
      ucast (drop_bit 40 value AND 0xFF),
      ucast (drop_bit 32 value AND 0xFF),
      ucast (drop_bit 24 value AND 0xFF),
      ucast (drop_bit 16 value AND 0xFF),
      ucast (drop_bit 8 value AND 0xFF),
      ucast (value AND 0xFF)]"

definition PutFixed32 :: "bytes \<Rightarrow> u32 \<Rightarrow> bytes" where
  "PutFixed32 dst value = dst @ EncodeFixed32 kLittleEndian value"

definition PutBigEndianFixed32 :: "bytes \<Rightarrow> u32 \<Rightarrow> bytes" where
  "PutBigEndianFixed32 dst value = dst @ EncodeBigEndianFixed32 value"

definition PutFixed64 :: "bytes \<Rightarrow> u64 \<Rightarrow> bytes" where
  "PutFixed64 dst value = dst @ EncodeFixed64 kLittleEndian value"

text \<open>
  The decoders read a fixed number of bytes at a pointer without a bounds check. Reading
  past the end is undefined in C++, and the value of the model there is not determined either.
\<close>

definition DecodeFixed32 :: "bool \<Rightarrow> bytes \<Rightarrow> u32" where
  "DecodeFixed32 le p =
     (if le then object_value32 le p
      else ucast (p ! 0) OR push_bit 8 (ucast (p ! 1)) OR
           push_bit 16 (ucast (p ! 2)) OR push_bit 24 (ucast (p ! 3)))"

definition DecodeBigEndianFixed32 :: "bytes \<Rightarrow> u32" where
  "DecodeBigEndianFixed32 p =
     push_bit 24 (ucast (p ! 0)) OR push_bit 16 (ucast (p ! 1)) OR
     push_bit 8 (ucast (p ! 2)) OR ucast (p ! 3)"

definition DecodeFixed64 :: "bool \<Rightarrow> bytes \<Rightarrow> u64" where
  "DecodeFixed64 le p =
     (if le then object_value64 le p
      else (let lo = ucast (DecodeFixed32 le p) :: u64;
                hi = ucast (DecodeFixed32 le (drop 4 p)) :: u64
            in push_bit 32 hi OR lo))"

definition DecodeBigEndianFixed64 :: "bytes \<Rightarrow> u64" where
  "DecodeBigEndianFixed64 p =
     push_bit 56 (ucast (p ! 0)) OR push_bit 48 (ucast (p ! 1)) OR
     push_bit 40 (ucast (p ! 2)) OR push_bit 32 (ucast (p ! 3)) OR
     push_bit 24 (ucast (p ! 4)) OR push_bit 16 (ucast (p ! 5)) OR
     push_bit 8 (ucast (p ! 6)) OR ucast (p ! 7)"

abbreviation Fixed32 :: "u32 \<Rightarrow> bytes" where
  "Fixed32 \<equiv> EncodeFixed32 kLittleEndian"

abbreviation Fixed64 :: "u64 \<Rightarrow> bytes" where
  "Fixed64 \<equiv> EncodeFixed64 kLittleEndian"

abbreviation GetFixed32 :: "bytes \<Rightarrow> u32" where
  "GetFixed32 \<equiv> DecodeFixed32 kLittleEndian"

abbreviation GetFixed64 :: "bytes \<Rightarrow> u64" where
  "GetFixed64 \<equiv> DecodeFixed64 kLittleEndian"

lemma length_EncodeFixed32 [simp, codec_length]: "length (EncodeFixed32 le v) = 4"
  by (simp add: EncodeFixed32_def object_bytes32_def)

lemma length_EncodeFixed64 [simp, codec_length]: "length (EncodeFixed64 le v) = 8"
  by (simp add: EncodeFixed64_def object_bytes64_def)

lemma ucast_and_0xff: "(ucast (v AND 0xff :: 'a::len word) :: byte) = ucast v"
proof -
  have m: "(0xff :: 'a word) = mask 8"
    by (simp add: mask_eq_exp_minus_1)
  show ?thesis
    unfolding m by (rule bit_word_eqI) (auto simp add: bit_simps dest: bit_imp_le_length)
qed

lemma EncodeFixed32_endian: "EncodeFixed32 le v = object_bytes32 True v"
  by (simp add: EncodeFixed32_def object_bytes32_def ucast_and_0xff)

lemma EncodeFixed64_endian: "EncodeFixed64 le v = object_bytes64 True v"
  by (simp add: EncodeFixed64_def object_bytes64_def ucast_and_0xff)

lemma DecodeFixed32_endian: "DecodeFixed32 le p = object_value32 True p"
  by (simp add: DecodeFixed32_def object_value32_def Let_def)

lemma ucast_push_byte:
  assumes "n + 8 \<le> 32"
  shows "(ucast (push_bit n (ucast (b :: byte) :: u32)) :: u64) = push_bit n (ucast b)"
  by (rule bit_word_eqI) (use assms in \<open>auto simp add: bit_simps dest: bit_imp_le_length\<close>)

lemma DecodeFixed64_endian:
  assumes "8 \<le> length p"
  shows "DecodeFixed64 le p = object_value64 True p"
proof -
  have "ucast (ucast b :: u32) = (ucast b :: u64)" for b :: byte
    by (rule bit_word_eqI) (auto simp add: bit_simps dest: bit_imp_le_length)
  with assms show ?thesis
    by (simp add: DecodeFixed64_def DecodeFixed32_endian object_value32_def object_value64_def
        Let_def unsigned_or_eq ucast_push_byte push_bit_or ac_simps)
qed

lemma byte_of_word:
  "(ucast (ucast (v :: 'a::len word) :: byte) :: 'a word) = take_bit 8 v"
  by (rule bit_word_eqI) (auto simp add: bit_simps)

lemma take_bit_next_byte:
  fixes v :: "'a::len word"
  shows "take_bit n v OR push_bit n (take_bit 8 (drop_bit n v)) = take_bit (n + 8) v"
  by (rule bit_word_eqI) (auto simp add: bit_simps)

lemmas join_bytes =
  take_bit_next_byte [of 8, simplified] take_bit_next_byte [of 16, simplified]
  take_bit_next_byte [of 24, simplified] take_bit_next_byte [of 32, simplified]
  take_bit_next_byte [of 40, simplified] take_bit_next_byte [of 48, simplified]
  take_bit_next_byte [of 56, simplified]

lemma object_value32_bytes: "object_value32 True (object_bytes32 True v @ rest) = v"
  unfolding object_value32_def object_bytes32_def Let_def
  by (simp add: byte_of_word or.assoc [symmetric] join_bytes take_bit_word_eq_self)

lemma object_value64_bytes: "object_value64 True (object_bytes64 True v @ rest) = v"
  unfolding object_value64_def object_bytes64_def Let_def
  by (simp add: byte_of_word or.assoc [symmetric] join_bytes take_bit_word_eq_self)

lemma DecodeFixed32_EncodeFixed32 [simp, codec]:
  "DecodeFixed32 le (EncodeFixed32 le' v @ rest) = v"
  by (simp add: DecodeFixed32_endian EncodeFixed32_endian object_value32_bytes)

lemma DecodeFixed64_EncodeFixed64 [simp, codec]:
  "DecodeFixed64 le (EncodeFixed64 le' v @ rest) = v"
proof -
  have "8 \<le> length (EncodeFixed64 le' v @ rest)" by simp
  then show ?thesis
    by (simp add: DecodeFixed64_endian EncodeFixed64_endian object_value64_bytes)
qed

lemmas DecodeFixed_self [simp] =
  DecodeFixed32_EncodeFixed32 [where rest = "[]", simplified]
  DecodeFixed64_EncodeFixed64 [where rest = "[]", simplified]

lemma EncodeFixed_inject [simp]:
  "EncodeFixed32 le v = EncodeFixed32 le v' \<longleftrightarrow> v = v'"
  "EncodeFixed64 le x = EncodeFixed64 le x' \<longleftrightarrow> x = x'"
  by (metis DecodeFixed_self(1), metis DecodeFixed_self(2))

lemma DecodeBigEndianFixed32_codec [simp, codec]:
  "DecodeBigEndianFixed32 (EncodeBigEndianFixed32 v @ rest) = v"
proof -
  have "DecodeBigEndianFixed32 (EncodeBigEndianFixed32 v @ rest) =
      object_value32 True (object_bytes32 True v @ [])"
    by (simp add: DecodeBigEndianFixed32_def EncodeBigEndianFixed32_def object_value32_def
        object_bytes32_def Let_def ucast_and_0xff ac_simps)
  then show ?thesis by (simp only: object_value32_bytes)
qed

lemma DecodeBigEndianFixed64_codec [simp, codec]:
  "DecodeBigEndianFixed64 (EncodeBigEndianFixed64 v @ rest) = v"
proof -
  have "DecodeBigEndianFixed64 (EncodeBigEndianFixed64 v @ rest) =
      object_value64 True (object_bytes64 True v @ [])"
    by (simp add: DecodeBigEndianFixed64_def EncodeBigEndianFixed64_def object_value64_def
        object_bytes64_def Let_def ucast_and_0xff ac_simps)
  then show ?thesis by (simp only: object_value64_bytes)
qed

section \<open>Varints\<close>

definition EncodeVarint32 :: "u32 \<Rightarrow> bytes" where
  "EncodeVarint32 v =
     (if v < push_bit 7 1 then [ucast v]
      else if v < push_bit 14 1 then
        [ucast (v OR 128), ucast (drop_bit 7 v)]
      else if v < push_bit 21 1 then
        [ucast (v OR 128), ucast (drop_bit 7 v OR 128), ucast (drop_bit 14 v)]
      else if v < push_bit 28 1 then
        [ucast (v OR 128), ucast (drop_bit 7 v OR 128), ucast (drop_bit 14 v OR 128),
         ucast (drop_bit 21 v)]
      else
        [ucast (v OR 128), ucast (drop_bit 7 v OR 128), ucast (drop_bit 14 v OR 128),
         ucast (drop_bit 21 v OR 128), ucast (drop_bit 28 v)])"

definition PutVarint32 :: "bytes \<Rightarrow> u32 \<Rightarrow> bytes" where
  "PutVarint32 dst v = dst @ EncodeVarint32 v"

lemma drop_bit_7_less [termination_simp]:
  "128 \<le> (v :: u64) \<Longrightarrow> unat (drop_bit 7 v) < unat v"
  by (simp add: unat_drop_bit word_le_nat_alt)

function EncodeVarint64 :: "u64 \<Rightarrow> bytes" where
  "EncodeVarint64 v =
     (if v \<ge> 128 then ucast (v OR 128) # EncodeVarint64 (drop_bit 7 v) else [ucast v])"
  by pat_completeness auto
termination
  by (relation "measure unat") (simp_all add: drop_bit_7_less)

declare EncodeVarint64.simps [simp del]

definition PutVarint64 :: "bytes \<Rightarrow> u64 \<Rightarrow> bytes" where
  "PutVarint64 dst v = dst @ EncodeVarint64 v"

definition PutLengthPrefixedSlice :: "bytes \<Rightarrow> bytes \<Rightarrow> bytes" where
  "PutLengthPrefixedSlice dst value = PutVarint32 dst (of_nat (length value)) @ value"

function VarintLength_loop :: "nat \<Rightarrow> u64 \<Rightarrow> nat" where
  "VarintLength_loop len v =
     (if v \<ge> 128 then VarintLength_loop (len + 1) (drop_bit 7 v) else len)"
  by pat_completeness auto
termination
  by (relation "measure (\<lambda>(len, v). unat v)") (simp_all add: drop_bit_7_less)

declare VarintLength_loop.simps [simp del]

definition VarintLength :: "u64 \<Rightarrow> nat" where
  "VarintLength v = VarintLength_loop 1 v"

fun GetVarint32PtrFallback_loop :: "nat \<Rightarrow> u32 \<Rightarrow> bytes \<Rightarrow> (u32 \<times> bytes) option" where
  "GetVarint32PtrFallback_loop shift result [] = None"
| "GetVarint32PtrFallback_loop shift result (c # p) =
     (if shift \<le> 28 then
        (let byte = ucast c :: u32
         in if byte AND 128 \<noteq> 0
            then GetVarint32PtrFallback_loop (shift + 7) (result OR push_bit shift (byte AND 127)) p
            else Some (result OR push_bit shift byte, p))
      else None)"

definition GetVarint32PtrFallback :: "bytes \<Rightarrow> (u32 \<times> bytes) option" where
  "GetVarint32PtrFallback p = GetVarint32PtrFallback_loop 0 0 p"

definition GetVarint32Ptr :: "bytes \<Rightarrow> (u32 \<times> bytes) option" where
  "GetVarint32Ptr p =
     (case p of
        c # q \<Rightarrow>
          (let result = ucast c :: u32
           in if result AND 128 = 0 then Some (result, q) else GetVarint32PtrFallback p)
      | [] \<Rightarrow> GetVarint32PtrFallback p)"

definition GetVarint32 :: "bytes \<Rightarrow> (u32 \<times> bytes) option" where
  "GetVarint32 input =
     (case GetVarint32Ptr input of None \<Rightarrow> None | Some (value, q) \<Rightarrow> Some (value, q))"

fun GetVarint64Ptr_loop :: "nat \<Rightarrow> u64 \<Rightarrow> bytes \<Rightarrow> (u64 \<times> bytes) option" where
  "GetVarint64Ptr_loop shift result [] = None"
| "GetVarint64Ptr_loop shift result (c # p) =
     (if shift \<le> 63 then
        (let byte = ucast c :: u64
         in if byte AND 128 \<noteq> 0
            then GetVarint64Ptr_loop (shift + 7) (result OR push_bit shift (byte AND 127)) p
            else Some (result OR push_bit shift byte, p))
      else None)"

definition GetVarint64Ptr :: "bytes \<Rightarrow> (u64 \<times> bytes) option" where
  "GetVarint64Ptr p = GetVarint64Ptr_loop 0 0 p"

definition GetVarint64 :: "bytes \<Rightarrow> (u64 \<times> bytes) option" where
  "GetVarint64 input =
     (case GetVarint64Ptr input of None \<Rightarrow> None | Some (value, q) \<Rightarrow> Some (value, q))"

text \<open>
  The pointer form of the length-prefixed parser leaves nothing behind when it fails; the
  slice form has by then moved the input past the length, so it returns the input in both cases.
\<close>

definition GetLengthPrefixedSlicePtr :: "bytes \<Rightarrow> (bytes \<times> bytes) option" where
  "GetLengthPrefixedSlicePtr p =
     (case GetVarint32Ptr p of
        None \<Rightarrow> None
      | Some (len, q) \<Rightarrow>
          if unat len > length q then None else Some (take (unat len) q, drop (unat len) q))"

definition GetLengthPrefixedSlice :: "bytes \<Rightarrow> bytes option \<times> bytes" where
  "GetLengthPrefixedSlice input =
     (case GetVarint32 input of
        None \<Rightarrow> (None, input)
      | Some (len, rest) \<Rightarrow>
          if length rest \<ge> unat len then (Some (take (unat len) rest), drop (unat len) rest)
          else (None, rest))"

subsection \<open>What a varint is: base-128 digits, least significant first\<close>

fun varint_bytes :: "nat \<Rightarrow> bytes" where
  "varint_bytes n =
     (if n < 128 then [of_nat n] else of_nat (n mod 128 + 128) # varint_bytes (n div 128))"

declare varint_bytes.simps [simp del]

fun varint_loop :: "nat \<Rightarrow> nat \<Rightarrow> 'a::len word \<Rightarrow> bytes \<Rightarrow> ('a word \<times> bytes) option" where
  "varint_loop lim shift result [] = None"
| "varint_loop lim shift result (c # p) =
     (if shift \<le> lim then
        (if ucast c AND 128 \<noteq> (0 :: 'a word)
         then varint_loop lim (shift + 7) (result OR push_bit shift (ucast c AND 127)) p
         else Some (result OR push_bit shift (ucast c), p))
      else None)"

lemma GetVarint32PtrFallback_varint_loop:
  "GetVarint32PtrFallback_loop shift result p = varint_loop 28 shift result p"
  by (induction shift result p rule: GetVarint32PtrFallback_loop.induct) (simp_all add: Let_def)

lemma GetVarint64Ptr_varint_loop:
  "GetVarint64Ptr_loop shift result p = varint_loop 63 shift result p"
  by (induction shift result p rule: GetVarint64Ptr_loop.induct) (simp_all add: Let_def)

lemma unat_ucast_up [word_nat]:
  assumes "8 \<le> LENGTH('a)"
  shows "unat (ucast (c :: byte) :: 'a::len word) = unat c"
proof -
  have "unat c < 2 ^ 8" using unsigned_less [of c] by simp
  also have "(2 :: nat) ^ 8 \<le> 2 ^ LENGTH('a)" using assms by (rule power_increasing) simp
  finally show ?thesis
    by (simp add: unsigned_ucast_eq take_bit_nat_eq_self)
qed

lemma continuation_bit:
  assumes "8 \<le> LENGTH('a)"
  shows "ucast (c :: byte) AND 128 = (0 :: 'a::len word) \<longleftrightarrow> unat c < 128"
proof -
  have "ucast c AND 128 = (0 :: 'a word) \<longleftrightarrow> \<not> bit (ucast c :: 'a word) 7"
    using and_exp_eq_0_iff_not_bit [of "ucast c :: 'a word" 7] by simp
  also have "\<dots> \<longleftrightarrow> \<not> bit c 7"
    using assms by (auto simp add: bit_simps)
  also have "\<dots> \<longleftrightarrow> unat c < 128"
  proof -
    have "unat c < 256" using unsigned_less [of c] by simp
    then have "unat c div 128 = 0 \<or> unat c div 128 = 1" by linarith
    moreover have "bit c 7 = odd (unat c div 2 ^ 7)"
      using bit_unsigned_iff [of c 7, where 'a = nat] bit_iff_odd [of "unat c" 7] by simp
    ultimately show ?thesis by auto
  qed
  finally show ?thesis .
qed

lemma unat_payload [word_nat]:
  assumes "8 \<le> LENGTH('a)"
  shows "unat (ucast (c :: byte) AND 127 :: 'a::len word) = unat c mod 128"
proof -
  have m: "(127 :: 'a word) = mask 7" by (simp add: mask_eq_exp_minus_1)
  show ?thesis unfolding m unat_and_mask using assms by (simp add: unat_ucast_up)
qed

lemma take_bit_or_exp: "take_bit (Suc n) (a OR 2 ^ n) = take_bit n a + 2 ^ n" for a :: nat
proof -
  have "take_bit (Suc n) (a OR 2 ^ n) = take_bit n a OR 2 ^ n"
    by (rule bit_eqI) (auto simp add: bit_simps less_Suc_eq)
  then show ?thesis
    using or_disjoint_nat [of "take_bit n a" n 1] by simp
qed

lemma ucast_or_128:
  fixes v :: "'a::len word"
  assumes "8 \<le> LENGTH('a)"
  shows "(ucast (v OR 128) :: byte) = of_nat (unat v mod 128 + 128)"
proof -
  have "(128 :: nat) < 2 ^ 8" by simp
  also have "(2 :: nat) ^ 8 \<le> 2 ^ LENGTH('a)" using assms by (rule power_increasing) simp
  finally have u: "unat (128 :: 'a word) = 128"
    by (simp only: unat_numeral mod_less)
  have "unat (ucast (v OR 128) :: byte) = take_bit 8 (unat v OR 128)"
    by (simp only: unsigned_ucast_eq unsigned_or_eq u) simp
  also have "\<dots> = unat v mod 128 + 128"
    using take_bit_or_exp [of 7 "unat v"] by (simp add: take_bit_eq_mod)
  finally have "unat (ucast (v OR 128) :: byte) = unat v mod 128 + 128" .
  then show ?thesis
    by (metis of_nat_unat ucast_id)
qed

lemma EncodeVarint64_varint: "EncodeVarint64 v = varint_bytes (unat v)"
proof (induction v rule: EncodeVarint64.induct)
  case (1 v)
  then show ?case
    by (simp add: EncodeVarint64.simps [of v] varint_bytes.simps [of "unat v"]
        word_le_nat_alt ucast_or_128 unat_drop_bit of_nat_unat)
qed

lemma EncodeVarint32_varint: "EncodeVarint32 v = varint_bytes (unat v)"
proof -
  define n where "n = unat v"
  have n: "n < 2 ^ 32"
    unfolding n_def using unsigned_less [of v, where 'a = nat] by simp
  have div_less: "n div 128 < 128 \<longleftrightarrow> n < 2 ^ 14" "n div 128 div 128 < 128 \<longleftrightarrow> n < 2 ^ 21"
    "n div 128 div 128 div 128 < 128 \<longleftrightarrow> n < 2 ^ 28" "n div 128 div 128 div 128 div 128 < 128"
    using n by (simp_all add: div_less_iff_less_mult)
  have drops: "unat (drop_bit 7 v) = n div 128" "unat (drop_bit 14 v) = n div 128 div 128"
    "unat (drop_bit 21 v) = n div 128 div 128 div 128"
    "unat (drop_bit 28 v) = n div 128 div 128 div 128 div 128"
    by (simp_all add: unat_drop_bit n_def div_mult2_eq [symmetric])
  have last: "(ucast w :: byte) = of_nat (unat w)" for w :: u32
    by (simp only: of_nat_unat)
  have high: "(ucast (w OR 128) :: byte) = of_nat (unat w mod 128 + 128)" for w :: u32
    by (rule ucast_or_128) simp
  have less: "v < push_bit 7 1 \<longleftrightarrow> n < 128" "v < push_bit 14 1 \<longleftrightarrow> n < 2 ^ 14"
    "v < push_bit 21 1 \<longleftrightarrow> n < 2 ^ 21" "v < push_bit 28 1 \<longleftrightarrow> n < 2 ^ 28"
    by (simp_all add: word_less_nat_alt unat_push_bit n_def)
  have enc: "EncodeVarint32 v =
     (if n < 128 then [of_nat n]
      else if n < 2 ^ 14 then [of_nat (n mod 128 + 128), of_nat (n div 128)]
      else if n < 2 ^ 21 then
        [of_nat (n mod 128 + 128), of_nat (n div 128 mod 128 + 128), of_nat (n div 128 div 128)]
      else if n < 2 ^ 28 then
        [of_nat (n mod 128 + 128), of_nat (n div 128 mod 128 + 128),
         of_nat (n div 128 div 128 mod 128 + 128), of_nat (n div 128 div 128 div 128)]
      else
        [of_nat (n mod 128 + 128), of_nat (n div 128 mod 128 + 128),
         of_nat (n div 128 div 128 mod 128 + 128), of_nat (n div 128 div 128 div 128 mod 128 + 128),
         of_nat (n div 128 div 128 div 128 div 128)])"
    unfolding EncodeVarint32_def less
    by (simp only: high) (simp only: last drops n_def [symmetric])
  have "varint_bytes n = EncodeVarint32 v"
    unfolding enc varint_bytes.simps [of n] varint_bytes.simps [of "n div 128"]
      varint_bytes.simps [of "n div 128 div 128"] varint_bytes.simps [of "n div 128 div 128 div 128"]
      varint_bytes.simps [of "n div 128 div 128 div 128 div 128"] div_less
    by (simp only: div_less if_True split: if_split) simp
  then show ?thesis by (simp add: n_def)
qed

subsection \<open>Decoding gives the number back\<close>

lemma unat_of_nat_byte [simp]: "n < 256 \<Longrightarrow> unat (of_nat n :: byte) = n"
  by (simp add: unat_of_nat)

lemma varint_loop_varint_bytes:
  fixes r :: "'a::len word"
  assumes "8 \<le> LENGTH('a)"
    and lim: "\<And>s. 7 dvd s \<Longrightarrow> s < LENGTH('a) \<Longrightarrow> s \<le> lim"
    and "7 dvd shift" "unat r < 2 ^ shift" "n * 2 ^ shift < 2 ^ LENGTH('a)" "n \<noteq> 0 \<or> shift = 0"
  shows "varint_loop lim shift r (varint_bytes n @ rest) =
    Some (of_nat (unat r + n * 2 ^ shift), rest)"
  using assms(3-)
proof (induction n arbitrary: shift r rule: varint_bytes.induct)
  case (1 n)
  have "shift < LENGTH('a)"
  proof (rule ccontr)
    assume "\<not> shift < LENGTH('a)"
    then have le: "(2 :: nat) ^ LENGTH('a) \<le> 2 ^ shift" by simp
    from \<open>\<not> shift < LENGTH('a)\<close> have "shift \<noteq> 0" using len_gt_0 [where 'a = 'a] by linarith
    with "1.prems"(4) have "n \<noteq> 0" by simp
    then have "(2 :: nat) ^ shift \<le> n * 2 ^ shift" by simp
    with le "1.prems"(3) show False by linarith
  qed
  with "1.prems"(1) have shift: "shift \<le> lim" by (rule lim)
  have word: "unat w = k \<Longrightarrow> w = of_nat k" for w :: "'a word" and k
    by (metis of_nat_unat ucast_id)
  show ?case
  proof (cases "n < 128")
    case True
    then have "unat (r OR push_bit shift (ucast (of_nat n :: byte))) = unat r + n * 2 ^ shift"
      using "1.prems" assms(1) by (subst unat_or_push_bit) (simp_all add: unat_ucast_up)
    from word [OF this] show ?thesis
      using True shift assms(1)
      by (simp add: varint_bytes.simps [of n] continuation_bit del: of_nat_add of_nat_mult)
  next
    case False
    define c where "c = (of_nat (n mod 128 + 128) :: byte)"
    let ?r = "r OR push_bit shift (ucast c AND 127)"
    have "n mod 128 + 128 < 256" by (simp add: less_diff_conv [symmetric])
    then have c: "unat c = n mod 128 + 128"
      unfolding c_def by (rule unat_of_nat_byte)
    have unfold: "varint_bytes n = c # varint_bytes (n div 128)"
      using False by (simp add: varint_bytes.simps [of n] c_def)
    have payload: "unat (ucast c AND 127 :: 'a word) = n mod 128"
      using assms(1) by (simp add: unat_payload c)
    have "n mod 128 * 2 ^ shift \<le> n * 2 ^ shift" by simp
    with "1.prems"(3) have "n mod 128 * 2 ^ shift < 2 ^ LENGTH('a)" by (rule le_less_trans [rotated])
    with payload have low: "unat ?r = unat r + n mod 128 * 2 ^ shift"
      using "1.prems"(2) by (subst unat_or_push_bit) simp_all
    have "n * 2 ^ shift = (n div 128 * 128 + n mod 128) * 2 ^ shift"
      by (simp only: div_mult_mod_eq)
    then have split: "n * 2 ^ shift = n div 128 * 2 ^ (shift + 7) + n mod 128 * 2 ^ shift"
      by (simp only: power_add distrib_right) (simp add: mult.assoc mult.commute)
    have "n mod 128 \<le> 127" using mod_less_divisor [of 128 n] by linarith
    then have "n mod 128 * 2 ^ shift \<le> 127 * 2 ^ shift" by simp
    moreover have "(2 :: nat) ^ (shift + 7) = 128 * 2 ^ shift" by (simp add: power_add)
    ultimately have "unat ?r < 2 ^ (shift + 7)" using "1.prems"(2) low by linarith
    then have "varint_loop lim (shift + 7) ?r (varint_bytes (n div 128) @ rest) =
        Some (of_nat (unat ?r + n div 128 * 2 ^ (shift + 7)), rest)"
      using "1.prems" split False by (intro "1.IH") (auto simp add: div_eq_0_iff)
    then show ?thesis
      using False shift assms(1) c low split
      by (simp add: unfold continuation_bit ac_simps del: of_nat_add of_nat_mult)
  qed
qed

lemma GetVarint32Ptr_Fallback: "GetVarint32Ptr p = GetVarint32PtrFallback p"
  by (simp add: GetVarint32Ptr_def GetVarint32PtrFallback_def Let_def split: list.split)

lemma GetVarint32Ptr_varint_loop: "GetVarint32Ptr p = varint_loop 28 0 0 p"
  by (simp add: GetVarint32Ptr_Fallback GetVarint32PtrFallback_def GetVarint32PtrFallback_varint_loop)

lemma GetVarint32_Ptr: "GetVarint32 p = GetVarint32Ptr p"
  by (simp add: GetVarint32_def split: option.split)

lemma GetVarint64_varint_loop: "GetVarint64 p = varint_loop 63 0 0 p"
  by (simp add: GetVarint64_def GetVarint64Ptr_def GetVarint64Ptr_varint_loop split: option.split)

lemma GetVarint32Ptr_codec [simp, codec]: "GetVarint32Ptr (EncodeVarint32 v @ rest) = Some (v, rest)"
proof -
  have "varint_loop 28 0 (0 :: u32) (varint_bytes (unat v) @ rest) =
      Some (of_nat (unat (0 :: u32) + unat v * 2 ^ 0), rest)"
    using unsigned_less [of v, where 'a = nat]
    by (intro varint_loop_varint_bytes) auto
  then show ?thesis
    by (simp add: GetVarint32Ptr_varint_loop EncodeVarint32_varint of_nat_unat)
qed

lemma GetVarint32_codec [simp, codec]: "GetVarint32 (EncodeVarint32 v @ rest) = Some (v, rest)"
  by (simp add: GetVarint32_Ptr)

lemma GetVarint64_codec [simp, codec]: "GetVarint64 (EncodeVarint64 v @ rest) = Some (v, rest)"
proof -
  have "varint_loop 63 0 (0 :: u64) (varint_bytes (unat v) @ rest) =
      Some (of_nat (unat (0 :: u64) + unat v * 2 ^ 0), rest)"
    using unsigned_less [of v, where 'a = nat]
    by (intro varint_loop_varint_bytes) auto
  then show ?thesis
    by (simp add: GetVarint64_varint_loop EncodeVarint64_varint of_nat_unat)
qed

lemma unat_of_nat_u32 [word_nat]: "n < 2 ^ 32 \<Longrightarrow> unat (of_nat n :: u32) = n"
  by (simp add: unat_of_nat)

lemma unat_of_nat_u64 [word_nat]: "n < 2 ^ 64 \<Longrightarrow> unat (of_nat n :: u64) = n"
  by (simp add: unat_of_nat)

abbreviation length_prefixed :: "bytes \<Rightarrow> bytes" where
  "length_prefixed value \<equiv> EncodeVarint32 (of_nat (length value)) @ value"

lemma PutLengthPrefixedSlice_eq: "PutLengthPrefixedSlice dst value = dst @ length_prefixed value"
  by (simp add: PutLengthPrefixedSlice_def PutVarint32_def)

lemma GetLengthPrefixedSlice_codec [simp, codec]:
  assumes "length value < 2 ^ 32"
  shows "GetLengthPrefixedSlice (EncodeVarint32 (of_nat (length value)) @ value @ rest) =
    (Some value, rest)"
  using assms by (simp add: GetLengthPrefixedSlice_def unat_of_nat_u32)

lemma GetLengthPrefixedSlicePtr_codec [simp, codec]:
  assumes "length value < 2 ^ 32"
  shows "GetLengthPrefixedSlicePtr (EncodeVarint32 (of_nat (length value)) @ value @ rest) =
    Some (value, rest)"
  using assms by (simp add: GetLengthPrefixedSlicePtr_def unat_of_nat_u32)

subsection \<open>Lengths\<close>

lemma varint_bytes_nonempty [simp]: "varint_bytes n \<noteq> []"
  by (simp add: varint_bytes.simps [of n])

lemma VarintLength_loop_eq: "VarintLength_loop len v + 1 = len + length (EncodeVarint64 v)"
proof (induction len v rule: VarintLength_loop.induct)
  case (1 len v)
  then show ?case
    by (simp add: VarintLength_loop.simps [of len v] EncodeVarint64.simps [of v])
qed

lemma VarintLength_EncodeVarint64: "VarintLength v = length (EncodeVarint64 v)"
  using VarintLength_loop_eq [of 1 v] by (simp add: VarintLength_def)

lemma length_varint_bytes_le:
  "n < 2 ^ (7 * k) \<Longrightarrow> 0 < k \<Longrightarrow> length (varint_bytes n) \<le> k"
proof (induction n arbitrary: k rule: varint_bytes.induct)
  case (1 n)
  show ?case
  proof (cases "n < 128")
    case True
    then show ?thesis using "1.prems" by (simp add: varint_bytes.simps [of n])
  next
    case False
    then have "k \<noteq> 1" using "1.prems" by (cases "k = 1") auto
    with "1.prems" obtain m where k: "k = Suc m" "0 < m"
      by (metis One_nat_def gr0_implies_Suc neq0_conv)
    have "n div 128 < 2 ^ (7 * m)"
      using "1.prems"(1) by (simp add: k less_mult_imp_div_less power_add mult.commute)
    with False k show ?thesis
      using "1.IH" [of m] by (simp add: varint_bytes.simps [of n])
  qed
qed

lemma length_EncodeVarint32_le [codec_length]: "length (EncodeVarint32 v) \<le> 5"
proof -
  have "unat v < 2 ^ 32" using unsigned_less [of v, where 'a = nat] by simp
  then have "unat v < 2 ^ (7 * 5)" by simp
  then show ?thesis by (simp only: EncodeVarint32_varint) (rule length_varint_bytes_le, simp_all)
qed

lemma length_EncodeVarint64_le [codec_length]: "length (EncodeVarint64 v) \<le> 10"
proof -
  have "unat v < 2 ^ 64" using unsigned_less [of v, where 'a = nat] by simp
  then have "unat v < 2 ^ (7 * 10)" by simp
  then show ?thesis by (simp only: EncodeVarint64_varint) (rule length_varint_bytes_le, simp_all)
qed

lemma EncodeVarint_nonempty [simp]: "EncodeVarint32 v \<noteq> []" "EncodeVarint64 w \<noteq> []"
  by (simp_all add: EncodeVarint32_varint EncodeVarint64_varint)

lemma varint_loop_consumes:
  "varint_loop lim shift r p = Some (v, q) \<Longrightarrow>
    \<exists>c. p = c @ q \<and> c \<noteq> [] \<and> shift + 7 * (length c - 1) \<le> lim"
proof (induction lim shift r p rule: varint_loop.induct)
  case (1 lim shift r)
  then show ?case by simp
next
  case (2 lim shift r b p)
  show ?case
  proof (cases "ucast b AND 128 = (0 :: 'a word)")
    case True
    with "2.prems" have "p = q" "shift \<le> lim" by (auto split: if_splits)
    then show ?thesis by (intro exI [of _ "[b]"]) simp
  next
    case False
    with "2.prems" "2.IH" obtain c where "p = c @ q" "c \<noteq> []" "shift + 7 + 7 * (length c - 1) \<le> lim"
      by (auto split: if_splits)
    then show ?thesis by (intro exI [of _ "b # c"]) (cases c, auto)
  qed
qed

lemma GetVarint32_consumes:
  assumes "GetVarint32 p = Some (v, q)"
  shows "\<exists>c. p = c @ q \<and> 1 \<le> length c \<and> length c \<le> 5"
proof -
  from varint_loop_consumes [of 28 0 0 p v q] assms
  obtain c where "p = c @ q" "c \<noteq> []" "7 * (length c - 1) \<le> 28"
    by (auto simp add: GetVarint32_Ptr GetVarint32Ptr_varint_loop)
  then show ?thesis by (cases c) auto
qed

lemma GetVarint64_consumes:
  assumes "GetVarint64 p = Some (v, q)"
  shows "\<exists>c. p = c @ q \<and> 1 \<le> length c \<and> length c \<le> 10"
proof -
  from varint_loop_consumes [of 63 0 0 p v q] assms
  obtain c where "p = c @ q" "c \<noteq> []" "7 * (length c - 1) \<le> 63"
    by (auto simp add: GetVarint64_varint_loop)
  then show ?thesis by (cases c) auto
qed

lemma GetVarint32_length: "GetVarint32 p = Some (v, q) \<Longrightarrow> length q < length p"
  using GetVarint32_consumes by fastforce

lemma GetVarint64_length: "GetVarint64 p = Some (v, q) \<Longrightarrow> length q < length p"
  using GetVarint64_consumes by fastforce

lemma GetLengthPrefixedSlice_length:
  "GetLengthPrefixedSlice p = (Some v, q) \<Longrightarrow> length q < length p"
  by (auto simp add: GetLengthPrefixedSlice_def dest!: GetVarint32_length split: option.splits if_splits)

section \<open>Every fixed-width field is an encoding\<close>

lemma finite_byte_lists: "finite {xs :: bytes. length xs = n}" 
  using finite_lists_length_eq [of "UNIV :: byte set" n] by simp

lemma card_byte_lists: "card {xs :: bytes. length xs = n} = 256 ^ n"
  using card_lists_length_eq [of "UNIV :: byte set" n] by (simp add: card_word)

lemma EncodeFixed64_onto: "length p = 8 \<Longrightarrow> \<exists>v. p = EncodeFixed64 le v"
proof -
  have inj: "inj (EncodeFixed64 le)"
    by (metis DecodeFixed_self(2) injI)
  have "range (EncodeFixed64 le) = {p. length p = 8}"
    by (rule card_seteq)
      (auto simp add: finite_byte_lists card_byte_lists card_image [OF inj] card_word)
  then show "length p = 8 \<Longrightarrow> \<exists>v. p = EncodeFixed64 le v"
    by blast
qed

lemma EncodeFixed32_onto: "length p = 4 \<Longrightarrow> \<exists>v. p = EncodeFixed32 le v"
proof -
  have inj: "inj (EncodeFixed32 le)"
    by (metis DecodeFixed_self(1) injI)
  have "range (EncodeFixed32 le) = {p. length p = 4}"
    by (rule card_seteq)
      (auto simp add: finite_byte_lists card_byte_lists card_image [OF inj] card_word)
  then show "length p = 4 \<Longrightarrow> \<exists>v. p = EncodeFixed32 le v"
    by blast
qed

lemma GetLengthPrefixedSlice_fits:
  "GetLengthPrefixedSlice p = (Some v, q) \<Longrightarrow> length v + length q < length p"
  by (auto simp add: GetLengthPrefixedSlice_def dest!: GetVarint32_length split: option.splits if_splits)

section \<open>Properties of the codecs\<close>

text \<open>Fixed-width integers: what a machine of either byte order writes, a machine of either
  byte order reads back, and both write the same bytes; big-endian fields round trip as well.\<close>

lemma fixed_round_trip:
  "DecodeFixed32 le (EncodeFixed32 le' v @ rest) = v \<and>
   DecodeFixed64 le (EncodeFixed64 le' w @ rest) = w \<and>
   EncodeFixed32 le v = EncodeFixed32 le' v \<and> EncodeFixed64 le w = EncodeFixed64 le' w \<and>
   DecodeBigEndianFixed32 (EncodeBigEndianFixed32 v @ rest) = v \<and>
   DecodeBigEndianFixed64 (EncodeBigEndianFixed64 w @ rest) = w"
  by (auto simp add: EncodeFixed32_endian [of le v] EncodeFixed32_endian [of le' v, symmetric]
      EncodeFixed64_endian [of le w] EncodeFixed64_endian [of le' w, symmetric])

text \<open>C19. Varints: every 32-bit and every 64-bit value is read back from its encoding, whatever
  follows it, by the parser that stops at the end of the buffer; an encoding takes at most 5 and
  10 bytes, the sizes of the buffers the code encodes into, and \<^verbatim>\<open>VarintLength\<close> is its length.\<close>

theorem varint_round_trip:
  "GetVarint32 (EncodeVarint32 v @ rest) = Some (v, rest) \<and>
   GetVarint64 (EncodeVarint64 w @ rest) = Some (w, rest) \<and>
   length (EncodeVarint32 v) \<le> 5 \<and> length (EncodeVarint64 w) \<le> 10 \<and>
   VarintLength w = length (EncodeVarint64 w)"
  by (simp add: length_EncodeVarint32_le length_EncodeVarint64_le VarintLength_EncodeVarint64)



end
