(* ===== verification/Slices.thy ===== *)
theory Slices
  imports Coding "HOL-Library.List_Lexorder"
begin

text \<open>
  \<^verbatim>\<open>include/leveldb/slice.h\<close>, \<^verbatim>\<open>include/leveldb/status.h\<close> and \<^verbatim>\<open>util/status.cc\<close>: comparison of
  byte ranges and the status values every fallible operation returns. The theory ends with the
  interface of a three-way comparator, the contract \<^verbatim>\<open>include/leveldb/comparator.h\<close> states for
  \<^verbatim>\<open>Comparator::Compare\<close>, and with what its clients derive from it.
\<close>

section \<open>Status\<close>

datatype status_code = kOk | kNotFound | kCorruption | kNotSupported | kInvalidArgument | kIOError

text \<open>A null \<^verbatim>\<open>state_\<close> is success; otherwise the code and the message are the state.\<close>

type_synonym status = "(status_code \<times> string) option"

definition Status_OK :: status where
  "Status_OK = None"

definition Status_make :: "status_code \<Rightarrow> string \<Rightarrow> string \<Rightarrow> status" where
  "Status_make code msg msg2 =
     Some (code, msg @ (if msg2 \<noteq> [] then '': '' @ msg2 else []))"

definition Status_ok :: "status \<Rightarrow> bool" where
  "Status_ok s = (s = None)"

definition Status_code :: "status \<Rightarrow> status_code" where
  "Status_code s = (case s of None \<Rightarrow> kOk | Some (c, _) \<Rightarrow> c)"

definition Status_IsNotFound :: "status \<Rightarrow> bool" where
  "Status_IsNotFound s = (Status_code s = kNotFound)"

definition Status_IsCorruption :: "status \<Rightarrow> bool" where
  "Status_IsCorruption s = (Status_code s = kCorruption)"

definition Status_ToString :: "status \<Rightarrow> string" where
  "Status_ToString s =
     (case s of
        None \<Rightarrow> ''OK''
      | Some (code, msg) \<Rightarrow>
          (case code of
             kOk \<Rightarrow> ''OK''
           | kNotFound \<Rightarrow> ''NotFound: ''
           | kCorruption \<Rightarrow> ''Corruption: ''
           | kNotSupported \<Rightarrow> ''Not implemented: ''
           | kInvalidArgument \<Rightarrow> ''Invalid argument: ''
           | kIOError \<Rightarrow> ''IO error: '') @ msg)"

abbreviation NotFound :: "string \<Rightarrow> status" where
  "NotFound msg \<equiv> Status_make kNotFound msg []"

abbreviation Corruption :: "string \<Rightarrow> status" where
  "Corruption msg \<equiv> Status_make kCorruption msg []"

abbreviation IOError :: "string \<Rightarrow> status" where
  "IOError msg \<equiv> Status_make kIOError msg []"

lemma Status_ok_simps [simp]:
  "Status_ok Status_OK" "\<not> Status_ok (Status_make c m m2)"
  by (simp_all add: Status_ok_def Status_OK_def Status_make_def)

lemma Status_code_simps [simp]:
  "Status_code Status_OK = kOk" "Status_code (Status_make c m m2) = c"
  by (simp_all add: Status_code_def Status_OK_def Status_make_def)

lemma Status_OK_neq [simp]: "Status_make c m m2 \<noteq> Status_OK" "Status_OK \<noteq> Status_make c m m2"
  by (simp_all add: Status_OK_def Status_make_def)

section \<open>Slices\<close>

text \<open>
  The standard library fixes only the sign of \<^verbatim>\<open>memcmp\<close>'s result, and the callers read only the
  sign; the model returns \<open>-1\<close>, \<open>0\<close> or \<open>1\<close>. Bytes compare as unsigned characters.
\<close>

fun memcmp :: "bytes \<Rightarrow> bytes \<Rightarrow> int" where
  "memcmp (a # as) (b # bs) = (if a < b then -1 else if b < a then 1 else memcmp as bs)"
| "memcmp _ _ = 0"

definition Slice_compare :: "bytes \<Rightarrow> bytes \<Rightarrow> int" where
  "Slice_compare a b =
     (let min_len = (if length a < length b then length a else length b);
          r = memcmp (take min_len a) (take min_len b)
      in if r = 0 then
           (if length a < length b then -1 else if length a > length b then 1 else r)
         else r)"

definition Slice_eq :: "bytes \<Rightarrow> bytes \<Rightarrow> bool" where
  "Slice_eq x y = (length x = length y \<and> memcmp x y = 0)"

definition Slice_starts_with :: "bytes \<Rightarrow> bytes \<Rightarrow> bool" where
  "Slice_starts_with a x = (length a \<ge> length x \<and> memcmp (take (length x) a) x = 0)"

lemma memcmp_eq_0: "length a = length b \<Longrightarrow> memcmp a b = 0 \<longleftrightarrow> a = b"
  by (induction a b rule: memcmp.induct) auto

lemma Slice_eq_iff [simp]: "Slice_eq x y \<longleftrightarrow> x = y"
  by (auto simp add: Slice_eq_def memcmp_eq_0)

lemma Slice_starts_with_iff: "Slice_starts_with a x \<longleftrightarrow> prefix x a"
  by (auto simp add: Slice_starts_with_def memcmp_eq_0 prefix_def)
    (metis append_take_drop_id)

lemma Slice_compare_Nil [simp]:
  "Slice_compare [] [] = 0" "Slice_compare [] (b # bs) = -1" "Slice_compare (a # as) [] = 1"
  by (simp_all add: Slice_compare_def)

lemma Slice_compare_Cons [simp]:
  "Slice_compare (a # as) (b # bs) =
     (if a < b then -1 else if b < a then 1 else Slice_compare as bs)"
  by (simp add: Slice_compare_def Let_def)

text \<open>The comparison is the lexicographic order on byte strings.\<close>

lemma Slice_compare_lex:
  "Slice_compare a b = (if a < b then -1 else if a = b then 0 else 1)"
proof (induction a arbitrary: b)
  case Nil
  then show ?case by (cases b) simp_all
next
  case (Cons x a)
  then show ?case by (cases b) auto
qed

section \<open>The comparator interface\<close>

text \<open>
  A comparison that orders the elements it is given up to the ones it does not tell apart, as the
  memtable's comparison of entries does, which looks at their keys only.

  \<^verbatim>\<open>Comparator::Compare\<close> promises a three-way comparison: negative iff \<open>a < b\<close>, zero iff
  \<open>a = b\<close>, positive iff \<open>a > b\<close>, for some total order on keys. A comparator that reads a
  trailer of its keys promises it for the keys that have one, \<open>valid\<close>.
\<close>

locale weak_comparator =
  fixes cmp :: "'k \<Rightarrow> 'k \<Rightarrow> int"
    and valid :: "'k \<Rightarrow> bool"
  assumes swap: "valid a \<Longrightarrow> valid b \<Longrightarrow> cmp a b < 0 \<longleftrightarrow> 0 < cmp b a"
    and le_trans:
      "valid a \<Longrightarrow> valid b \<Longrightarrow> valid c \<Longrightarrow> cmp a b \<le> 0 \<Longrightarrow> cmp b c \<le> 0 \<Longrightarrow> cmp a c \<le> 0"
begin

lemma not_less: "valid a \<Longrightarrow> valid b \<Longrightarrow> \<not> cmp a b < 0 \<longleftrightarrow> cmp b a \<le> 0"
  using swap [of a b] by linarith

lemma less_le_trans:
  "valid a \<Longrightarrow> valid b \<Longrightarrow> valid c \<Longrightarrow> cmp a b < 0 \<Longrightarrow> cmp b c \<le> 0 \<Longrightarrow> cmp a c < 0"
  by (meson le_trans not_less)

lemma le_less_trans:
  "valid a \<Longrightarrow> valid b \<Longrightarrow> valid c \<Longrightarrow> cmp a b \<le> 0 \<Longrightarrow> cmp b c < 0 \<Longrightarrow> cmp a c < 0"
  by (meson le_trans not_less)

end

text \<open>The same for an order on keys, where only equal keys compare as equal.\<close>

locale comparator =
  fixes cmp :: "bytes \<Rightarrow> bytes \<Rightarrow> int"
    and valid :: "bytes \<Rightarrow> bool"
  assumes cmp_eq_0: "valid a \<Longrightarrow> valid b \<Longrightarrow> cmp a b = 0 \<longleftrightarrow> a = b"
    and cmp_swap: "valid a \<Longrightarrow> valid b \<Longrightarrow> cmp a b < 0 \<longleftrightarrow> 0 < cmp b a"
    and cmp_less_trans:
      "valid a \<Longrightarrow> valid b \<Longrightarrow> valid c \<Longrightarrow> cmp a b < 0 \<Longrightarrow> cmp b c < 0 \<Longrightarrow> cmp a c < 0"
begin

lemma cmp_refl [simp]: "valid a \<Longrightarrow> cmp a a = 0"
  by (simp add: cmp_eq_0)

lemma cmp_le_iff: "valid a \<Longrightarrow> valid b \<Longrightarrow> cmp a b \<le> 0 \<longleftrightarrow> cmp a b < 0 \<or> a = b"
  using cmp_eq_0 [of a b] by linarith

lemma cmp_ge_iff: "valid a \<Longrightarrow> valid b \<Longrightarrow> 0 \<le> cmp a b \<longleftrightarrow> cmp b a \<le> 0"
  using cmp_swap [of a b] by linarith

lemma cmp_gt_iff: "valid a \<Longrightarrow> valid b \<Longrightarrow> 0 < cmp a b \<longleftrightarrow> cmp b a < 0"
  using cmp_swap [of b a] by linarith

lemma cmp_le_trans:
  "valid a \<Longrightarrow> valid b \<Longrightarrow> valid c \<Longrightarrow> cmp a b \<le> 0 \<Longrightarrow> cmp b c \<le> 0 \<Longrightarrow> cmp a c \<le> 0"
  by (metis cmp_le_iff cmp_less_trans)

lemma cmp_le_less_trans:
  "valid a \<Longrightarrow> valid b \<Longrightarrow> valid c \<Longrightarrow> cmp a b \<le> 0 \<Longrightarrow> cmp b c < 0 \<Longrightarrow> cmp a c < 0"
  by (metis cmp_le_iff cmp_less_trans)

lemma cmp_less_le_trans:
  "valid a \<Longrightarrow> valid b \<Longrightarrow> valid c \<Longrightarrow> cmp a b < 0 \<Longrightarrow> cmp b c \<le> 0 \<Longrightarrow> cmp a c < 0"
  by (metis cmp_le_iff cmp_less_trans)

lemma cmp_total: "valid a \<Longrightarrow> valid b \<Longrightarrow> cmp a b < 0 \<or> a = b \<or> cmp b a < 0"
  by (metis cmp_eq_0 cmp_gt_iff linorder_neqE_linordered_idom)

lemma cmp_not_less: "valid a \<Longrightarrow> valid b \<Longrightarrow> \<not> cmp a b < 0 \<longleftrightarrow> cmp b a \<le> 0"
  using cmp_ge_iff [of a b] by linarith

end

sublocale comparator \<subseteq> weak: weak_comparator cmp valid
  by unfold_locales (use cmp_swap cmp_le_trans in blast)+

end
