(* ===== verification/Internal_Keys.thy ===== *)
theory Internal_Keys
  imports Slices
begin

text \<open>
  Keys and their orders: \<^verbatim>\<open>include/leveldb/comparator.h\<close> (internal keys, their packing and
  parsing), \<^verbatim>\<open>util/comparator.cc\<close> (the bytewise comparator and the comparator of the value
  tables) and \<^verbatim>\<open>db/dbformat.cc\<close> (the comparator of internal keys, lookup keys). An internal
  key is a user key followed by eight bytes that hold a sequence number and a type; a key of a
  value table has eight more bytes, its sort key. The theory interprets the comparator interface
  on each of the three comparators and shows what a reader of a snapshot relies on: how the
  entries of a user key are ordered around a lookup key.
\<close>

section \<open>Internal keys\<close>

datatype ValueType = kTypeDeletion | kTypeValue

primrec ValueType_num :: "ValueType \<Rightarrow> u64" where
  "ValueType_num kTypeDeletion = 0"
| "ValueType_num kTypeValue = 1"

definition kValueTypeForSeek :: ValueType where
  "kValueTypeForSeek = kTypeValue"

type_synonym SequenceNumber = u64

definition kMaxSequenceNumber :: SequenceNumber where
  "kMaxSequenceNumber = push_bit 56 1 - 1"

record ParsedInternalKey =
  user_key :: bytes
  sequence :: SequenceNumber
  type :: ValueType
  sort_key :: u64

definition InternalKeyEncodingLength :: "ParsedInternalKey \<Rightarrow> nat" where
  "InternalKeyEncodingLength key = length (user_key key) + 8"

definition PackSequenceAndType :: "u64 \<Rightarrow> ValueType \<Rightarrow> u64" where
  "PackSequenceAndType seq t = push_bit 8 seq OR ValueType_num t"

definition AppendInternalKey :: "bytes \<Rightarrow> ParsedInternalKey \<Rightarrow> bytes" where
  "AppendInternalKey result key =
     PutFixed64 (result @ user_key key) (PackSequenceAndType (sequence key) (type key))"

definition ExtractUserKey :: "bytes \<Rightarrow> bytes" where
  "ExtractUserKey internal_key =
     (if length internal_key < 8 then [] else take (length internal_key - 8) internal_key)"

text \<open>
  The constructor \<^verbatim>\<open>InternalKey(user_key, s, t)\<close>; \<^verbatim>\<open>InternalKey::Encode\<close> hands out the
  representation and aborts on an empty one, the mark of an invalid key.
\<close>

definition InternalKey_make :: "bytes \<Rightarrow> SequenceNumber \<Rightarrow> ValueType \<Rightarrow> bytes" where
  "InternalKey_make u s t =
     AppendInternalKey [] \<lparr>user_key = u, sequence = s, type = t, sort_key = 0\<rparr>"

definition InternalKey_Encode :: "bytes \<Rightarrow> bytes option" where
  "InternalKey_Encode rep = (if rep = [] then None else Some rep)"

definition static_cast_ValueType :: "byte \<Rightarrow> ValueType" where
  "static_cast_ValueType c = (if c = 0 then kTypeDeletion else kTypeValue)"

text \<open>
  \<^verbatim>\<open>ParseInternalKey\<close> fails on a short key and on a type byte above \<^verbatim>\<open>kTypeValue\<close>. It does not
  write the sort key, which the model leaves as the caller's \<open>result\<close> has it.
\<close>

definition ParseInternalKey ::
  "bytes \<Rightarrow> ParsedInternalKey \<Rightarrow> ParsedInternalKey option" where
  "ParseInternalKey internal_key result =
     (let n = length internal_key in
      if n < 8 then None
      else
        let num = GetFixed64 (drop (n - 8) internal_key);
            c = ucast (num AND 0xff) :: byte
        in if c \<le> 1 then
             Some (result\<lparr>sequence := drop_bit 8 num, type := static_cast_ValueType c,
                          user_key := take (n - 8) internal_key\<rparr>)
           else None)"

definition ParseInternalVKey ::
  "bytes \<Rightarrow> ParsedInternalKey \<Rightarrow> ParsedInternalKey option" where
  "ParseInternalVKey internal_key result =
     (let n = length internal_key in
      if n < 16 then None
      else
        let sk = GetFixed64 (drop (n - 8) internal_key);
            num = GetFixed64 (drop (n - 16) internal_key);
            c = ucast (num AND 0xff) :: byte
        in if c \<le> 1 then
             Some (result\<lparr>sort_key := sk, sequence := drop_bit 8 num,
                          type := static_cast_ValueType c,
                          user_key := take (n - 16) internal_key\<rparr>)
           else None)"

section \<open>The comparators of \<^verbatim>\<open>util/comparator.cc\<close>\<close>

definition BytewiseComparator_Compare :: "bytes \<Rightarrow> bytes \<Rightarrow> int" where
  "BytewiseComparator_Compare a b = Slice_compare a b"

text \<open>The loop that counts the bytes both strings share.\<close>

fun diff_index_loop :: "bytes \<Rightarrow> bytes \<Rightarrow> nat" where
  "diff_index_loop (a # as) (b # bs) = (if a = b then Suc (diff_index_loop as bs) else 0)"
| "diff_index_loop _ _ = 0"

definition BytewiseComparator_FindShortestSeparator :: "bytes \<Rightarrow> bytes \<Rightarrow> bytes" where
  "BytewiseComparator_FindShortestSeparator start limit =
     (let min_length = min (length start) (length limit);
          diff_index = diff_index_loop start limit
      in if diff_index \<ge> min_length then start
         else
           let diff_byte = start ! diff_index in
           if diff_byte < 0xff \<and> unat diff_byte + 1 < unat (limit ! diff_index)
           then take (diff_index + 1) (start[diff_index := start ! diff_index + 1])
           else start)"

fun BytewiseComparator_FindShortSuccessor :: "bytes \<Rightarrow> bytes" where
  "BytewiseComparator_FindShortSuccessor [] = []"
| "BytewiseComparator_FindShortSuccessor (b # key) =
     (if b \<noteq> 0xff then [b + 1] else b # BytewiseComparator_FindShortSuccessor key)"

definition VKeyComparator_Compare :: "bytes \<Rightarrow> bytes \<Rightarrow> int" where
  "VKeyComparator_Compare vkey1 vkey2 =
     (let size_1 = length vkey1; size_2 = length vkey2;
          sort_key_1 = GetFixed64 (drop (size_1 - 8) vkey1);
          sort_key_2 = GetFixed64 (drop (size_2 - 8) vkey2);
          r = (if sort_key_1 > sort_key_2 then 1 else if sort_key_1 < sort_key_2 then -1 else 0)
      in if r = 0 then
           let r = Slice_compare (take (size_1 - 16) vkey1) (take (size_2 - 16) vkey2) in
           if r = 0 then
             let seq1 = GetFixed64 (drop (size_1 - 16) vkey1);
                 seq2 = GetFixed64 (drop (size_2 - 16) vkey2)
             in if seq1 > seq2 then 1 else if seq1 < seq2 then -1 else 0
           else r
         else r)"

definition VKeyComparator_FindShortestSeparator :: "bytes \<Rightarrow> bytes \<Rightarrow> bytes" where
  "VKeyComparator_FindShortestSeparator start limit = start"

definition VKeyComparator_FindShortSuccessor :: "bytes \<Rightarrow> bytes" where
  "VKeyComparator_FindShortSuccessor key = key"

section \<open>The internal key comparator\<close>

text \<open>The user's comparator, \<^verbatim>\<open>user_comparator_\<close>, is the argument \<open>ucmp\<close>.\<close>

definition InternalKeyComparator_Compare ::
  "(bytes \<Rightarrow> bytes \<Rightarrow> int) \<Rightarrow> bytes \<Rightarrow> bytes \<Rightarrow> int" where
  "InternalKeyComparator_Compare ucmp akey bkey =
     (if length akey < 8 \<or> length bkey < 8 then Slice_compare akey bkey
      else
        let r = ucmp (ExtractUserKey akey) (ExtractUserKey bkey) in
        if r = 0 then
          let anum = GetFixed64 (drop (length akey - 8) akey);
              bnum = GetFixed64 (drop (length bkey - 8) bkey)
          in if anum > bnum then -1 else if anum < bnum then 1 else r
        else r)"

definition InternalKeyComparator_FindShortestSeparator ::
  "(bytes \<Rightarrow> bytes \<Rightarrow> int) \<Rightarrow> (bytes \<Rightarrow> bytes \<Rightarrow> bytes) \<Rightarrow> bytes \<Rightarrow> bytes \<Rightarrow> bytes" where
  "InternalKeyComparator_FindShortestSeparator ucmp usep start limit =
     (let user_start = ExtractUserKey start;
          user_limit = ExtractUserKey limit;
          tmp = usep user_start user_limit
      in if length tmp < length user_start \<and> ucmp user_start tmp < 0
         then PutFixed64 tmp (PackSequenceAndType kMaxSequenceNumber kValueTypeForSeek)
         else start)"

definition InternalKeyComparator_FindShortSuccessor ::
  "(bytes \<Rightarrow> bytes \<Rightarrow> int) \<Rightarrow> (bytes \<Rightarrow> bytes) \<Rightarrow> bytes \<Rightarrow> bytes" where
  "InternalKeyComparator_FindShortSuccessor ucmp usucc key =
     (let ukey = ExtractUserKey key;
          tmp = usucc ukey
      in if length tmp < length ukey \<and> ucmp ukey tmp < 0
         then PutFixed64 tmp (PackSequenceAndType kMaxSequenceNumber kValueTypeForSeek)
         else key)"

text \<open>
  \<^verbatim>\<open>InternalFilterPolicy\<close> strips the trailer of every key before it calls the user's policy.
\<close>

definition InternalFilterPolicy_CreateFilter ::
  "(bytes list \<Rightarrow> bytes \<Rightarrow> bytes) \<Rightarrow> bytes list \<Rightarrow> bytes \<Rightarrow> bytes" where
  "InternalFilterPolicy_CreateFilter user_create keys dst =
     user_create (map ExtractUserKey keys) dst"

definition InternalFilterPolicy_KeyMayMatch ::
  "(bytes \<Rightarrow> bytes \<Rightarrow> bool) \<Rightarrow> bytes \<Rightarrow> bytes \<Rightarrow> bool" where
  "InternalFilterPolicy_KeyMayMatch user_match key f = user_match (ExtractUserKey key) f"

text \<open>
  A lookup key is one array with three pointers into it: \<open>memtable_key\<close> starts at its varint
  length, \<open>internal_key\<close> behind it, and \<open>user_key\<close> stops before the tag.
\<close>

record LookupKey =
  lk_length :: bytes
  lk_internal :: bytes

definition LookupKey_make :: "bytes \<Rightarrow> SequenceNumber \<Rightarrow> LookupKey" where
  "LookupKey_make ukey s =
     \<lparr>lk_length = EncodeVarint32 (of_nat (length ukey + 8)),
      lk_internal = ukey @ Fixed64 (PackSequenceAndType s kValueTypeForSeek)\<rparr>"

definition LookupKey_memtable_key :: "LookupKey \<Rightarrow> bytes" where
  "LookupKey_memtable_key k = lk_length k @ lk_internal k"

definition LookupKey_internal_key :: "LookupKey \<Rightarrow> bytes" where
  "LookupKey_internal_key k = lk_internal k"

definition LookupKey_user_key :: "LookupKey \<Rightarrow> bytes" where
  "LookupKey_user_key k = take (length (lk_internal k) - 8) (lk_internal k)"

section \<open>Packing and parsing\<close>

lemma ikey_exhaust:
  assumes "8 \<le> length k"
  obtains u v where "k = u @ Fixed64 v"
proof -
  obtain v where "drop (length k - 8) k = Fixed64 v"
    using EncodeFixed64_onto [of "drop (length k - 8) k"] assms by auto
  then have "k = take (length k - 8) k @ Fixed64 v"
    by (metis append_take_drop_id)
  then show thesis by (rule that)
qed

lemma kMaxSequenceNumber_unat: "unat kMaxSequenceNumber = 2 ^ 56 - 1"
  by (simp add: kMaxSequenceNumber_def)

lemma unat_ValueType_num: "unat (ValueType_num t) \<le> 1"
  by (cases t) simp_all

lemma unat_PackSequenceAndType:
  assumes "s \<le> kMaxSequenceNumber"
  shows "unat (PackSequenceAndType s t) = unat (ValueType_num t) + unat s * 2 ^ 8"
proof -
  have "unat s \<le> 2 ^ 56 - 1"
    using assms by (simp add: word_le_nat_alt kMaxSequenceNumber_unat)
  then show ?thesis
    using unat_ValueType_num [of t]
    unfolding PackSequenceAndType_def or.commute [of "push_bit 8 s"]
    by (subst unat_or_push_bit) simp_all
qed

lemma PackSequenceAndType_less_iff:
  assumes "s \<le> kMaxSequenceNumber" "s' \<le> kMaxSequenceNumber"
  shows "PackSequenceAndType s t < PackSequenceAndType s' t' \<longleftrightarrow>
    s < s' \<or> s = s' \<and> ValueType_num t < ValueType_num t'"
  using unat_ValueType_num [of t] unat_ValueType_num [of t']
  by (auto simp add: word_less_nat_alt unat_PackSequenceAndType assms word_unat_eq_iff)

lemma PackSequenceAndType_inj:
  assumes "s \<le> kMaxSequenceNumber" "s' \<le> kMaxSequenceNumber"
  shows "PackSequenceAndType s t = PackSequenceAndType s' t' \<longleftrightarrow> s = s' \<and> t = t'"
  using PackSequenceAndType_less_iff [OF assms, of t t'] 
    PackSequenceAndType_less_iff [OF assms(2,1), of t' t]
  by (cases t; cases t') (auto simp add: not_less_iff_gr_or_eq)

lemma drop_bit_PackSequenceAndType:
  assumes "s \<le> kMaxSequenceNumber"
  shows "drop_bit 8 (PackSequenceAndType s t) = s"
  using unat_ValueType_num [of t]
  by (simp add: word_unat_eq_iff unat_drop_bit unat_PackSequenceAndType assms)

lemma type_PackSequenceAndType:
  assumes "s \<le> kMaxSequenceNumber"
  shows "ucast (PackSequenceAndType s t AND 0xff) = (ucast (ValueType_num t) :: byte)"
  using unat_ValueType_num [of t]
  by (simp add: ucast_and_0xff word_unat_eq_iff unat_ucast_byte unat_PackSequenceAndType assms)

lemma InternalKey_make_eq: "InternalKey_make u s t = u @ Fixed64 (PackSequenceAndType s t)"
  by (simp add: InternalKey_make_def AppendInternalKey_def PutFixed64_def)

lemma ExtractUserKey_append [simp]: "ExtractUserKey (u @ Fixed64 v) = u"
  by (simp add: ExtractUserKey_def)

lemma ParseInternalKey_InternalKey_make:
  assumes "s \<le> kMaxSequenceNumber"
  shows "ParseInternalKey (InternalKey_make u s t) r =
    Some (r\<lparr>sequence := s, type := t, user_key := u\<rparr>)"
  by (cases t) (simp_all add: ParseInternalKey_def InternalKey_make_eq Let_def
      drop_bit_PackSequenceAndType type_PackSequenceAndType assms static_cast_ValueType_def)

lemma ParseInternalVKey_InternalKey_make:
  assumes "s \<le> kMaxSequenceNumber"
  shows "ParseInternalVKey (PutFixed64 (InternalKey_make u s t) k) r =
    Some (r\<lparr>sort_key := k, sequence := s, type := t, user_key := u\<rparr>)"
  by (cases t) (simp_all add: ParseInternalVKey_def InternalKey_make_eq Let_def PutFixed64_def
      drop_bit_PackSequenceAndType type_PackSequenceAndType assms static_cast_ValueType_def)

lemma ParseInternalKey_Some:
  assumes "ParseInternalKey k r = Some p"
  shows "InternalKey_make (user_key p) (sequence p) (type p) = k" (is "?A")
    and "sequence p \<le> kMaxSequenceNumber"
proof -
  have len: "8 \<le> length k"
    using assms by (auto simp add: ParseInternalKey_def Let_def split: if_splits)
  then obtain u v where k: "k = u @ Fixed64 v" by (rule ikey_exhaust)
  define c where "c = (ucast (v AND 0xff) :: byte)"
  have c1: "c \<le> 1" and p: "p = r\<lparr>sequence := drop_bit 8 v, type := static_cast_ValueType c, user_key := u\<rparr>"
    using assms by (auto simp add: ParseInternalKey_def Let_def k c_def split: if_splits)
  have le: "drop_bit 8 v \<le> kMaxSequenceNumber"
    using unsigned_less [of v, where 'a = nat]
    by (simp add: word_le_nat_alt kMaxSequenceNumber_unat unat_drop_bit)
  then show "sequence p \<le> kMaxSequenceNumber" by (simp add: p)
  have "unat c = unat v mod 256"
    by (simp add: c_def ucast_and_0xff unat_ucast_byte)
  moreover have "c = 0 \<or> c = 1"
    using c1 by (auto simp add: word_le_nat_alt word_unat_eq_iff le_Suc_eq)
  ultimately have "unat (ValueType_num (static_cast_ValueType c)) = unat v mod 256"
    by (auto simp add: static_cast_ValueType_def)
  then have "PackSequenceAndType (drop_bit 8 v) (static_cast_ValueType c) = v"
    by (simp add: word_unat_eq_iff unat_PackSequenceAndType [OF le] unat_drop_bit)
  then show ?A by (simp add: p k InternalKey_make_eq)
qed

lemma InternalKeyComparator_Compare_append:
  "InternalKeyComparator_Compare ucmp (u @ Fixed64 v) (u' @ Fixed64 v') =
     (if ucmp u u' = 0 then if v > v' then -1 else if v < v' then 1 else 0 else ucmp u u')"
  by (simp add: InternalKeyComparator_Compare_def Let_def)

lemma vkey_exhaust:
  assumes "16 \<le> length k"
  obtains u v w where "k = u @ Fixed64 v @ Fixed64 w"
proof -
  obtain x w where x: "k = x @ Fixed64 w"
    by (rule ikey_exhaust [of k]) (use assms in auto)
  obtain u v where "x = u @ Fixed64 v"
    by (rule ikey_exhaust [of x]) (use assms x in auto)
  then show thesis using x that by simp
qed

lemma VKeyComparator_Compare_append:
  "VKeyComparator_Compare (u @ Fixed64 v @ Fixed64 w) (u' @ Fixed64 v' @ Fixed64 w') =
     (if w > w' then 1 else if w < w' then -1
      else if u < u' then -1 else if u \<noteq> u' then 1
      else if v > v' then 1 else if v < v' then -1 else 0)"
  by (auto simp add: VKeyComparator_Compare_def Let_def Slice_compare_lex)

section \<open>The comparators keep the contract\<close>

text \<open>
  The comparator of internal keys over any user comparator that keeps the contract; its own keys
  are the ones with a trailer.
\<close>

locale user_comparator = user: comparator ucmp uvalid
  for ucmp :: "bytes \<Rightarrow> bytes \<Rightarrow> int" and uvalid :: "bytes \<Rightarrow> bool"
begin

abbreviation icmp :: "bytes \<Rightarrow> bytes \<Rightarrow> int" where
  "icmp \<equiv> InternalKeyComparator_Compare ucmp"

abbreviation ivalid :: "bytes \<Rightarrow> bool" where
  "ivalid \<equiv> \<lambda>k. 8 \<le> length k \<and> uvalid (ExtractUserKey k)"

lemma ivalid_exhaust:
  assumes "ivalid k"
  obtains u v where "k = u @ Fixed64 v" and "uvalid u"
proof -
  obtain u v where "k = u @ Fixed64 v" by (rule ikey_exhaust [of k]) (use assms in auto)
  then show thesis using assms that by auto
qed

lemma icmp_less_iff:
  assumes "uvalid u" "uvalid u'"
  shows "icmp (u @ Fixed64 v) (u' @ Fixed64 v') < 0 \<longleftrightarrow> ucmp u u' < 0 \<or> u = u' \<and> v > v'"
  by (auto simp add: InternalKeyComparator_Compare_append user.cmp_eq_0 assms)

lemma icmp_make_less_iff:
  assumes "uvalid u" "uvalid u'" "s \<le> kMaxSequenceNumber" "s' \<le> kMaxSequenceNumber"
  shows "icmp (InternalKey_make u s t) (InternalKey_make u' s' t') < 0 \<longleftrightarrow>
    ucmp u u' < 0 \<or> u = u' \<and> (s > s' \<or> s = s' \<and> t = kTypeValue \<and> t' = kTypeDeletion)"
  by (cases t; cases t')
    (auto simp add: InternalKey_make_eq icmp_less_iff PackSequenceAndType_less_iff assms)

lemma icmp_user_key:
  assumes "ivalid a" "ivalid b"
  shows "icmp a b < 0 \<Longrightarrow> ucmp (ExtractUserKey a) (ExtractUserKey b) \<le> 0"
    and "ucmp (ExtractUserKey a) (ExtractUserKey b) < 0 \<Longrightarrow> icmp a b < 0"
  by (use assms in \<open>auto elim!: ivalid_exhaust simp add: icmp_less_iff user.cmp_le_iff\<close>)

end

sublocale user_comparator \<subseteq> ikey: comparator "InternalKeyComparator_Compare ucmp"
  "\<lambda>k. 8 \<le> length k \<and> uvalid (ExtractUserKey k)"
proof
  fix a b assume a: "ivalid a" and b: "ivalid b"
  obtain u v where a': "a = u @ Fixed64 v" "uvalid u" by (rule ivalid_exhaust [OF a])
  obtain u' v' where b': "b = u' @ Fixed64 v'" "uvalid u'" by (rule ivalid_exhaust [OF b])
  show "icmp a b = 0 \<longleftrightarrow> a = b"
    using a' b' by (auto simp add: InternalKeyComparator_Compare_append user.cmp_eq_0)
  show "icmp a b < 0 \<longleftrightarrow> 0 < icmp b a"
    using a' b' user.cmp_swap [of u u']
    by (auto simp add: InternalKeyComparator_Compare_append user.cmp_eq_0)
next
  fix a b c assume a: "ivalid a" and b: "ivalid b" and c: "ivalid c" and "icmp a b < 0" "icmp b c < 0"
  obtain u v where a': "a = u @ Fixed64 v" "uvalid u" by (rule ivalid_exhaust [OF a])
  obtain u' v' where b': "b = u' @ Fixed64 v'" "uvalid u'" by (rule ivalid_exhaust [OF b])
  obtain u'' v'' where c': "c = u'' @ Fixed64 v''" "uvalid u''" by (rule ivalid_exhaust [OF c])
  show "icmp a c < 0"
    using \<open>icmp a b < 0\<close> \<open>icmp b c < 0\<close> a' b' c' user.cmp_less_trans [of u u' u'']
    by (auto simp add: icmp_less_iff)
qed

interpretation bytewise: user_comparator BytewiseComparator_Compare "\<lambda>_. True"
  by unfold_locales (auto simp add: BytewiseComparator_Compare_def Slice_compare_lex split: if_splits)

interpretation vkey: comparator VKeyComparator_Compare "\<lambda>k. 16 \<le> length k"
proof
  fix a b :: bytes assume a: "16 \<le> length a" and b: "16 \<le> length b"
  obtain u v w where a': "a = u @ Fixed64 v @ Fixed64 w" by (rule vkey_exhaust [OF a])
  obtain u' v' w' where b': "b = u' @ Fixed64 v' @ Fixed64 w'" by (rule vkey_exhaust [OF b])
  show "VKeyComparator_Compare a b = 0 \<longleftrightarrow> a = b"
    unfolding a' b' VKeyComparator_Compare_append by auto
  show "VKeyComparator_Compare a b < 0 \<longleftrightarrow> 0 < VKeyComparator_Compare b a"
    unfolding a' b' VKeyComparator_Compare_append by auto
next
  fix a b c :: bytes assume a: "16 \<le> length a" and b: "16 \<le> length b" and c: "16 \<le> length c"
    and less: "VKeyComparator_Compare a b < 0" "VKeyComparator_Compare b c < 0"
  obtain u v w where a': "a = u @ Fixed64 v @ Fixed64 w" by (rule vkey_exhaust [OF a])
  obtain u' v' w' where b': "b = u' @ Fixed64 v' @ Fixed64 w'" by (rule vkey_exhaust [OF b])
  obtain u'' v'' w'' where c': "c = u'' @ Fixed64 v'' @ Fixed64 w''" by (rule vkey_exhaust [OF c])
  show "VKeyComparator_Compare a c < 0"
    using less unfolding a' b' c' VKeyComparator_Compare_append
    by (auto split: if_splits)
qed

section \<open>Shortened keys\<close>

text \<open>
  The contract of \<^verbatim>\<open>FindShortestSeparator\<close> and \<^verbatim>\<open>FindShortSuccessor\<close>. The header of the class
  says nothing of \<open>start = limit\<close>; the internal comparator calls its user comparator there
  (two versions of one user key) and its assertion needs the key unchanged.
\<close>

locale key_shortening = comparator cmp valid
  for cmp :: "bytes \<Rightarrow> bytes \<Rightarrow> int" and valid :: "bytes \<Rightarrow> bool" +
  fixes sep :: "bytes \<Rightarrow> bytes \<Rightarrow> bytes" and succ :: "bytes \<Rightarrow> bytes"
  assumes sep_valid: "valid a \<Longrightarrow> valid b \<Longrightarrow> valid (sep a b)"
    and sep_bounds: "valid a \<Longrightarrow> valid b \<Longrightarrow> cmp a b < 0 \<Longrightarrow> cmp a (sep a b) \<le> 0 \<and> cmp (sep a b) b < 0"
    and sep_same: "valid a \<Longrightarrow> sep a a = a"
    and succ_valid: "valid a \<Longrightarrow> valid (succ a)"
    and succ_bound: "valid a \<Longrightarrow> cmp a (succ a) \<le> 0"

locale user_key_shortening = user_comparator ucmp uvalid + user: key_shortening ucmp uvalid usep usucc
  for ucmp :: "bytes \<Rightarrow> bytes \<Rightarrow> int" and uvalid :: "bytes \<Rightarrow> bool"
    and usep :: "bytes \<Rightarrow> bytes \<Rightarrow> bytes" and usucc :: "bytes \<Rightarrow> bytes"

sublocale user_key_shortening \<subseteq> ikey: key_shortening "InternalKeyComparator_Compare ucmp"
  "\<lambda>k. 8 \<le> length k \<and> uvalid (ExtractUserKey k)"
  "InternalKeyComparator_FindShortestSeparator ucmp usep"
  "InternalKeyComparator_FindShortSuccessor ucmp usucc"
proof
  fix a b assume a: "ivalid a" and b: "ivalid b"
  obtain u v where a': "a = u @ Fixed64 v" "uvalid u" by (rule ivalid_exhaust [OF a])
  obtain u' v' where b': "b = u' @ Fixed64 v'" "uvalid u'" by (rule ivalid_exhaust [OF b])
  show "ivalid (InternalKeyComparator_FindShortestSeparator ucmp usep a b)"
    using a b a' b' by (simp add: InternalKeyComparator_FindShortestSeparator_def PutFixed64_def
        Let_def user.sep_valid)
  show "InternalKeyComparator_FindShortestSeparator ucmp usep a a = a"
    using a' by (simp add: InternalKeyComparator_FindShortestSeparator_def user.sep_same)
  show "ivalid (InternalKeyComparator_FindShortSuccessor ucmp usucc a)"
    using a a' by (simp add: InternalKeyComparator_FindShortSuccessor_def PutFixed64_def
        Let_def user.succ_valid)
  show "icmp a (InternalKeyComparator_FindShortSuccessor ucmp usucc a) \<le> 0"
    using a a' by (auto simp add: InternalKeyComparator_FindShortSuccessor_def PutFixed64_def
        Let_def InternalKeyComparator_Compare_append)
  assume less: "icmp a b < 0"
  then consider "ucmp u u' < 0" | "u = u'"
    using a' b' by (auto simp add: icmp_less_iff)
  then show "icmp a (InternalKeyComparator_FindShortestSeparator ucmp usep a b) \<le> 0 \<and>
      icmp (InternalKeyComparator_FindShortestSeparator ucmp usep a b) b < 0"
  proof cases
    case 1
    then have "ucmp (usep u u') u' < 0" "uvalid (usep u u')"
      using a' b' user.sep_bounds user.sep_valid by auto
    then show ?thesis
      using a' b' a b less by (auto simp add: InternalKeyComparator_FindShortestSeparator_def
          PutFixed64_def Let_def InternalKeyComparator_Compare_append)
  next
    case 2
    then show ?thesis
      using a' b' a b less by (simp add: InternalKeyComparator_FindShortestSeparator_def
          Let_def user.sep_same)
  qed
qed

lemma Bytewise_sep_Cons:
  "BytewiseComparator_FindShortestSeparator (a # as) (b # bs) =
     (if a = b then a # BytewiseComparator_FindShortestSeparator as bs
      else if a < 0xff \<and> unat a + 1 < unat b then [a + 1] else a # as)"
  by (simp add: BytewiseComparator_FindShortestSeparator_def Let_def)

lemma Bytewise_sep_Nil:
  "BytewiseComparator_FindShortestSeparator [] b = []"
  "BytewiseComparator_FindShortestSeparator a [] = a"
  by (simp_all add: BytewiseComparator_FindShortestSeparator_def Let_def)

lemma byte_succ:
  fixes a b :: byte
  shows "unat a + 1 < unat b \<Longrightarrow> a < a + 1 \<and> a + 1 < b" and "a \<noteq> 0xff \<Longrightarrow> a < a + 1"
  using unsigned_less [of b, where 'a = nat] unsigned_less [of a, where 'a = nat]
  by (simp_all add: word_less_nat_alt unat_word_ariths word_unat_eq_iff)

lemma Bytewise_sep_bounds:
  "a < b \<Longrightarrow> a \<le> BytewiseComparator_FindShortestSeparator a b \<and>
     BytewiseComparator_FindShortestSeparator a b < b"
proof (induction a b rule: diff_index_loop.induct)
  case (1 a as b bs)
  then show ?case
    using byte_succ(1) [of a b]
    by (auto simp add: Bytewise_sep_Cons)
qed (auto simp add: Bytewise_sep_Nil)

lemma Bytewise_sep_same: "BytewiseComparator_FindShortestSeparator a a = a"
  by (induction a) (simp_all add: Bytewise_sep_Cons Bytewise_sep_Nil)

lemma Bytewise_succ_bound: "a \<le> BytewiseComparator_FindShortSuccessor a"
  by (induction a) (auto simp add: byte_succ(2))

lemma Bytewise_Compare_iff [simp]:
  "BytewiseComparator_Compare a b < 0 \<longleftrightarrow> a < b"
  "BytewiseComparator_Compare a b \<le> 0 \<longleftrightarrow> a \<le> b"
  "BytewiseComparator_Compare a b = 0 \<longleftrightarrow> a = b"
  "0 < BytewiseComparator_Compare a b \<longleftrightarrow> b < a"
  by (auto simp add: BytewiseComparator_Compare_def Slice_compare_lex)

interpretation bytewise: user_key_shortening BytewiseComparator_Compare "\<lambda>_. True"
  BytewiseComparator_FindShortestSeparator BytewiseComparator_FindShortSuccessor
  using Bytewise_sep_bounds Bytewise_sep_same Bytewise_succ_bound
  by unfold_locales simp_all

interpretation vkey: key_shortening VKeyComparator_Compare "\<lambda>k. 16 \<le> length k"
  VKeyComparator_FindShortestSeparator VKeyComparator_FindShortSuccessor
  by unfold_locales
    (simp_all add: VKeyComparator_FindShortestSeparator_def VKeyComparator_FindShortSuccessor_def)

lemma length_InternalKey_make [simp]: "length (InternalKey_make u s t) = length u + 8"
  by (simp add: InternalKey_make_eq)

section \<open>Properties of keys\<close>

text \<open>Internal keys over the bytewise comparator are ordered by increasing user key, then by
  decreasing sequence number, then by decreasing type.\<close>

lemma internal_key_order:
  assumes "s \<le> kMaxSequenceNumber" "s' \<le> kMaxSequenceNumber"
  shows "InternalKeyComparator_Compare BytewiseComparator_Compare
      (InternalKey_make u s t) (InternalKey_make u' s' t') < 0 \<longleftrightarrow>
    u < u' \<or> u = u' \<and> (s > s' \<or> s = s' \<and> t = kTypeValue \<and> t' = kTypeDeletion)"
  using bytewise.icmp_make_less_iff [OF TrueI TrueI assms] by simp

text \<open>C16. A lookup key for a snapshot stands exactly between the entries of its user key that the
  snapshot does not see and the ones it sees: it is not above an entry with sequence number \<open>s'\<close>
  iff \<open>s' \<le> s\<close>. It also carries the user key and, as a memtable key, its own length.\<close>

theorem lookup_key_snapshot:
  assumes "s \<le> kMaxSequenceNumber" "s' \<le> kMaxSequenceNumber" and "length u + 8 < 2 ^ 32"
  shows "(InternalKeyComparator_Compare BytewiseComparator_Compare
      (LookupKey_internal_key (LookupKey_make u s)) (InternalKey_make u s' t) \<le> 0 \<longleftrightarrow> s' \<le> s) \<and>
    LookupKey_user_key (LookupKey_make u s) = u \<and>
    GetLengthPrefixedSlice (LookupKey_memtable_key (LookupKey_make u s) @ rest) =
      (Some (LookupKey_internal_key (LookupKey_make u s)), rest)"
proof -
  have k: "LookupKey_internal_key (LookupKey_make u s) = InternalKey_make u s kTypeValue"
    by (simp add: LookupKey_internal_key_def LookupKey_make_def InternalKey_make_eq kValueTypeForSeek_def)
  have "GetLengthPrefixedSlice (LookupKey_memtable_key (LookupKey_make u s) @ rest) =
      (Some (InternalKey_make u s kTypeValue), rest)"
    using GetLengthPrefixedSlice_codec [of "InternalKey_make u s kTypeValue" rest] assms(3)
    by (simp add: LookupKey_memtable_key_def LookupKey_make_def InternalKey_make_eq kValueTypeForSeek_def)
  moreover have "LookupKey_user_key (LookupKey_make u s) = u"
    by (simp add: LookupKey_user_key_def LookupKey_make_def)
  moreover have "InternalKeyComparator_Compare BytewiseComparator_Compare
      (InternalKey_make u s kTypeValue) (InternalKey_make u s' t) \<le> 0 \<longleftrightarrow> s' \<le> s"
    using bytewise.icmp_make_less_iff [of s' s u t u kTypeValue]
      bytewise.ikey.cmp_not_less [of "InternalKey_make u s' t" "InternalKey_make u s kTypeValue"] assms
    by (auto simp add: InternalKey_make_eq)
  ultimately show ?thesis by (simp add: k)
qed

theorem lookup_key_snapshot_witness:
  "InternalKeyComparator_Compare BytewiseComparator_Compare
      (LookupKey_internal_key (LookupKey_make [97] 9)) (InternalKey_make [97] 5 kTypeValue) \<le> 0"
  using lookup_key_snapshot [of 9 5 "[97]" kTypeValue "[]"] by (simp add: kMaxSequenceNumber_def)



text \<open>C17. The separator of two internal keys over the bytewise comparator lies in
  \<open>[start, limit)\<close>, the successor of a key is not below it, and both are internal keys again:
  the assertions of \<^verbatim>\<open>FindShortestSeparator\<close> and \<^verbatim>\<open>FindShortSuccessor\<close> hold.\<close>

theorem internal_key_shortening:
  assumes "8 \<le> length start" "8 \<le> length limit"
    and "InternalKeyComparator_Compare BytewiseComparator_Compare start limit < 0"
  shows "let sep = InternalKeyComparator_FindShortestSeparator BytewiseComparator_Compare
                BytewiseComparator_FindShortestSeparator start limit;
             succ = InternalKeyComparator_FindShortSuccessor BytewiseComparator_Compare
                BytewiseComparator_FindShortSuccessor start;
             icmp = InternalKeyComparator_Compare BytewiseComparator_Compare
         in 8 \<le> length sep \<and> icmp start sep \<le> 0 \<and> icmp sep limit < 0 \<and>
            8 \<le> length succ \<and> icmp start succ \<le> 0"
  using bytewise.ikey.sep_bounds [of start limit] bytewise.ikey.sep_valid [of start limit]
    bytewise.ikey.succ_bound [of start] bytewise.ikey.succ_valid [of start] assms
  by (simp add: Let_def)

theorem internal_key_shortening_witness:
  "InternalKeyComparator_Compare BytewiseComparator_Compare
      (InternalKeyComparator_FindShortestSeparator BytewiseComparator_Compare
         BytewiseComparator_FindShortestSeparator
         (InternalKey_make [97, 98, 99] 7 kTypeValue) (InternalKey_make [99] 5 kTypeValue))
      (InternalKey_make [99] 5 kTypeValue) < 0"
proof -
  have "InternalKeyComparator_Compare BytewiseComparator_Compare
      (InternalKey_make [97, 98, 99] 7 kTypeValue) (InternalKey_make [99] 5 kTypeValue) < 0"
    by (subst bytewise.icmp_make_less_iff) (simp_all add: kMaxSequenceNumber_def)
  then show ?thesis
    using internal_key_shortening
      [of "InternalKey_make [97, 98, 99] 7 kTypeValue" "InternalKey_make [99] 5 kTypeValue"]
    by (simp add: Let_def)
qed

text \<open>The comparator of the value tables orders keys by sort key, then by user key, then by
  increasing tag; on keys with both trailers it is a total order in which only equal keys compare
  as equal.\<close>

lemma vkey_order:
  "VKeyComparator_Compare (u @ Fixed64 v @ Fixed64 w) (u' @ Fixed64 v' @ Fixed64 w') < 0 \<longleftrightarrow>
     w < w' \<or> w = w' \<and> (u < u' \<or> u = u' \<and> v < v')"
  by (auto simp add: VKeyComparator_Compare_append)

text \<open>C21. Because \<^verbatim>\<open>InternalKeyComparator::Compare\<close> falls back to the byte order when a key has
  no trailer, it is not an order on all slices: two internal keys and one short key form a cycle.\<close>

theorem short_keys_break_order:
  "\<exists>a b c. 8 \<le> length a \<and> 8 \<le> length b \<and> length c < 8 \<and>
     InternalKeyComparator_Compare BytewiseComparator_Compare a b < 0 \<and>
     InternalKeyComparator_Compare BytewiseComparator_Compare b c < 0 \<and>
     InternalKeyComparator_Compare BytewiseComparator_Compare c a < 0"
proof (intro exI conjI)
  show "InternalKeyComparator_Compare BytewiseComparator_Compare ([] @ Fixed64 5) ([] @ Fixed64 1) < 0"
    unfolding InternalKeyComparator_Compare_append by (simp add: BytewiseComparator_Compare_def)
  show "InternalKeyComparator_Compare BytewiseComparator_Compare ([] @ Fixed64 1) [3] < 0"
    "InternalKeyComparator_Compare BytewiseComparator_Compare [3] ([] @ Fixed64 5) < 0"
    by (simp_all add: InternalKeyComparator_Compare_def EncodeFixed64_endian object_bytes64_def)
qed simp_all

end
