(* ===== verification/Random_Arena.thy ===== *)
theory Random_Arena
  imports Prelude
begin

text \<open>
  \<^verbatim>\<open>util/random.h\<close> and \<^verbatim>\<open>util/arena.cc\<close>: the pseudo-random generator that draws the heights of
  the skip list, and the bump allocator the memtable takes its memory from.
\<close>

section \<open>The random number generator\<close>

record Random =
  seed :: u32

definition Random_make :: "u32 \<Rightarrow> Random" where
  "Random_make s =
     (let s' = s AND 0x7fffffff in
      \<lparr>seed = (if s' = 0 \<or> s' = 2147483647 then 1 else s')\<rparr>)"

definition Random_Next :: "Random \<Rightarrow> u32 \<times> Random" where
  "Random_Next r =
     (let M = 2147483647 :: u32;
          A = 16807 :: u64;
          product = ucast (seed r) * A;
          reduced = ucast (drop_bit 31 product + (product AND ucast M)) :: u32;
          next = (if reduced > M then reduced - M else reduced)
      in (next, r\<lparr>seed := next\<rparr>))"

definition Random_Uniform :: "u32 \<Rightarrow> Random \<Rightarrow> u32 \<times> Random" where
  "Random_Uniform n r = (let (v, r') = Random_Next r in (v mod n, r'))"

definition Random_OneIn :: "u32 \<Rightarrow> Random \<Rightarrow> bool \<times> Random" where
  "Random_OneIn n r = (let (v, r') = Random_Next r in (v mod n = 0, r'))"

definition Random_ok :: "Random \<Rightarrow> bool" where
  "Random_ok r = (0 < unat (seed r) \<and> unat (seed r) < 2147483647)"

lemma mersenne_reduce:
  fixes p :: nat
  assumes "p = q * 2147483648 + l" and "l < 2147483648"
  shows "p mod 2147483647 = (q + l) mod 2147483647"
proof -
  have "p = (q + l) + q * 2147483647"
    using assms by simp
  then show ?thesis by (simp only: mod_mult_self1)
qed

lemma Random_Next_value:
  assumes "Random_ok r"
  shows "unat (fst (Random_Next r)) = unat (seed r) * 16807 mod 2147483647"
proof -
  define s where "s = unat (seed r)"
  define p where "p = s * 16807"
  have s: "0 < s" "s < 2147483647"
    using assms by (simp_all add: Random_ok_def s_def)
  define q l where "q = p div 2147483648" and "l = p mod 2147483648"
  have p: "p = q * 2147483648 + l" and l: "l < 2147483648"
    by (simp_all add: q_def l_def)
  have q: "q < 16807"
    using s by (simp add: q_def p_def less_mult_imp_div_less)
  have prod: "unat (ucast (seed r) * (16807 :: u64)) = p"
    using s by (simp add: unat_word_ariths p_def s_def unsigned_ucast_eq take_bit_nat_eq_self)
  have M: "(ucast (2147483647 :: u32) :: u64) = mask 31"
    by (simp add: mask_eq_exp_minus_1)
  define sum where "sum = drop_bit 31 (ucast (seed r) * (16807 :: u64)) +
      (ucast (seed r) * 16807 AND ucast (2147483647 :: u32))"
  have "unat sum = q + l"
    unfolding sum_def M
    using prod q l by (simp add: unat_word_ariths unat_drop_bit unat_and_mask q_def l_def)
  then have sum: "unat (ucast sum :: u32) = q + l"
    using q l by (simp add: unsigned_ucast_eq take_bit_nat_eq_self)
  have nxt: "fst (Random_Next r) =
      (if (ucast sum :: u32) > 2147483647 then ucast sum - 2147483647 else ucast sum)"
    by (simp add: Random_Next_def Let_def sum_def)
  have val: "unat (fst (Random_Next r)) = (if q + l > 2147483647 then q + l - 2147483647 else q + l)"
    unfolding nxt using sum
    by (auto simp add: word_less_nat_alt unat_sub word_le_nat_alt)
  have coprime: "p mod 2147483647 \<noteq> 0"
  proof
    assume "p mod 2147483647 = 0"
    then have "2147483647 dvd s * 16807" by (simp add: p_def mod_eq_0_iff_dvd)
    moreover have "coprime 2147483647 (16807 :: nat)"
      by (simp add: coprime_iff_gcd_eq_1 gcd_non_0_nat)
    ultimately have "2147483647 dvd s" by (simp add: coprime_dvd_mult_left_iff)
    then show False using s by (auto dest: dvd_imp_le)
  qed
  have "p mod 2147483647 = (q + l) mod 2147483647"
    using p l by (rule mersenne_reduce)
  then show ?thesis
    using val q l coprime
    by (cases "q + l = 2147483647")
      (auto simp add: p_def [symmetric] s_def [symmetric] le_mod_geq not_less)
qed

lemma Random_Next_ok: "Random_ok r \<Longrightarrow> Random_ok (snd (Random_Next r))"
proof -
  assume r: "Random_ok r"
  have "unat (seed (snd (Random_Next r))) = unat (seed r) * 16807 mod 2147483647"
    using Random_Next_value [OF r] by (simp add: Random_Next_def Let_def)
  moreover have "\<not> 2147483647 dvd unat (seed r) * 16807"
  proof
    assume "2147483647 dvd unat (seed r) * 16807"
    moreover have "coprime 2147483647 (16807 :: nat)"
      by (simp add: coprime_iff_gcd_eq_1 gcd_non_0_nat)
    ultimately have "2147483647 dvd unat (seed r)" by (simp add: coprime_dvd_mult_left_iff)
    then show False using r by (auto simp add: Random_ok_def dest: dvd_imp_le)
  qed
  ultimately show ?thesis by (simp add: Random_ok_def dvd_eq_mod_eq_0)
qed

lemma Random_make_ok: "Random_ok (Random_make s)"
proof -
  have "(0x7fffffff :: u32) = mask 31" by (simp add: mask_eq_exp_minus_1)
  then have "unat (s AND 0x7fffffff) < 2147483648"
    using unat_and_mask [of s 31] by simp
  then show ?thesis
    by (auto simp add: Random_make_def Random_ok_def Let_def word_unat_eq_iff)
qed

section \<open>The arena\<close>

text \<open>
  Addresses are natural numbers. Each operation takes the address \<open>fresh\<close> that \<^verbatim>\<open>new char[n]\<close>
  returns in case it is called; \<^verbatim>\<open>sizeof(char*)\<close> is 8.
\<close>

definition kBlockSize :: nat where
  "kBlockSize = 4096"

record Arena =
  alloc_ptr :: nat
  alloc_bytes_remaining :: nat
  blocks :: "nat list"
  memory_usage :: nat

definition Arena_make :: Arena where
  "Arena_make = \<lparr>alloc_ptr = 0, alloc_bytes_remaining = 0, blocks = [], memory_usage = 0\<rparr>"

definition Arena_AllocateNewBlock :: "nat \<Rightarrow> nat \<Rightarrow> Arena \<Rightarrow> nat \<times> Arena" where
  "Arena_AllocateNewBlock fresh block_bytes a =
     (fresh, a\<lparr>blocks := blocks a @ [fresh], memory_usage := memory_usage a + block_bytes + 8\<rparr>)"

definition Arena_AllocateFallback :: "nat \<Rightarrow> nat \<Rightarrow> Arena \<Rightarrow> nat \<times> Arena" where
  "Arena_AllocateFallback fresh n a =
     (if n > kBlockSize div 4 then Arena_AllocateNewBlock fresh n a
      else
        let (p, a) = Arena_AllocateNewBlock fresh kBlockSize a
        in (p, a\<lparr>alloc_ptr := p + n, alloc_bytes_remaining := kBlockSize - n\<rparr>))"

definition Arena_Allocate :: "nat \<Rightarrow> nat \<Rightarrow> Arena \<Rightarrow> nat \<times> Arena" where
  "Arena_Allocate fresh n a =
     (if n \<le> alloc_bytes_remaining a then
        (alloc_ptr a, a\<lparr>alloc_ptr := alloc_ptr a + n,
                         alloc_bytes_remaining := alloc_bytes_remaining a - n\<rparr>)
      else Arena_AllocateFallback fresh n a)"

definition Arena_AllocateAligned :: "nat \<Rightarrow> nat \<Rightarrow> Arena \<Rightarrow> nat \<times> Arena" where
  "Arena_AllocateAligned fresh n a =
     (let align = 8;
          current_mod = alloc_ptr a mod align;
          slop = (if current_mod = 0 then 0 else align - current_mod);
          needed = n + slop
      in if needed \<le> alloc_bytes_remaining a then
           (alloc_ptr a + slop, a\<lparr>alloc_ptr := alloc_ptr a + needed,
                                   alloc_bytes_remaining := alloc_bytes_remaining a - needed\<rparr>)
         else Arena_AllocateFallback fresh n a)"

text \<open>
  The life of an arena: \<open>B\<close> are the blocks \<^verbatim>\<open>new\<close> has handed to it, \<open>H\<close> the ranges it has handed
  to its callers. A block \<^verbatim>\<open>new\<close> returns is aligned and apart from the blocks still in use.
\<close>

definition apart :: "nat \<times> nat \<Rightarrow> nat \<times> nat \<Rightarrow> bool" where
  "apart r r' = (fst r + snd r \<le> fst r' \<or> fst r' + snd r' \<le> fst r)"

definition within :: "nat \<times> nat \<Rightarrow> nat \<times> nat \<Rightarrow> bool" where
  "within r b = (fst b \<le> fst r \<and> fst r + snd r \<le> fst b + snd b)"

definition new_block :: "nat \<Rightarrow> nat \<Rightarrow> Arena \<Rightarrow> Arena \<Rightarrow> (nat \<times> nat) list" where
  "new_block fresh n a a' =
     (if length (blocks a') = length (blocks a) then []
      else [(fresh, if n > kBlockSize div 4 then n else kBlockSize)])"

inductive arena_run :: "Arena \<Rightarrow> (nat \<times> nat) list \<Rightarrow> (nat \<times> nat) list \<Rightarrow> bool" where
  start: "arena_run Arena_make [] []"
| allocate: "arena_run a B H \<Longrightarrow> 0 < n \<Longrightarrow> Arena_Allocate fresh n a = (p, a') \<Longrightarrow>
    N = new_block fresh n a a' \<Longrightarrow> (\<forall>r\<in>set N. 8 dvd fst r \<and> (\<forall>b\<in>set B. apart r b)) \<Longrightarrow>
    arena_run a' (N @ B) ((p, n) # H)"
| aligned: "arena_run a B H \<Longrightarrow> 0 < n \<Longrightarrow> Arena_AllocateAligned fresh n a = (p, a') \<Longrightarrow>
    N = new_block fresh n a a' \<Longrightarrow> (\<forall>r\<in>set N. 8 dvd fst r \<and> (\<forall>b\<in>set B. apart r b)) \<Longrightarrow>
    arena_run a' (N @ B) ((p, n) # H)"

definition arena_inv :: "Arena \<Rightarrow> (nat \<times> nat) list \<Rightarrow> (nat \<times> nat) list \<Rightarrow> bool" where
  "arena_inv a B H \<longleftrightarrow>
     (\<forall>h\<in>set H. \<exists>b\<in>set B. within h b) \<and>
     (alloc_bytes_remaining a > 0 \<longrightarrow>
        (\<exists>b\<in>set B. within (alloc_ptr a, alloc_bytes_remaining a) b)) \<and>
     (\<forall>h\<in>set H. apart h (alloc_ptr a, alloc_bytes_remaining a) \<or> alloc_bytes_remaining a = 0) \<and>
     sorted_wrt apart H"

lemma apart_sym: "apart r r' \<longleftrightarrow> apart r' r"
  by (auto simp add: apart_def)

lemma apart_within: "apart r b \<Longrightarrow> within h b \<Longrightarrow> apart r h"
  by (auto simp add: apart_def within_def)

lemma arena_inv_bump:
  assumes inv: "arena_inv a B H" and n: "0 < n" "k + n \<le> alloc_bytes_remaining a"
  shows "arena_inv (a\<lparr>alloc_ptr := alloc_ptr a + (k + n),
      alloc_bytes_remaining := alloc_bytes_remaining a - (k + n)\<rparr>) B ((alloc_ptr a + k, n) # H)"
proof -
  obtain b where b: "b \<in> set B" "within (alloc_ptr a, alloc_bytes_remaining a) b"
    using inv n by (auto simp add: arena_inv_def)
  then have "within (alloc_ptr a + k, n) b"
    "within (alloc_ptr a + (k + n), alloc_bytes_remaining a - (k + n)) b"
    using n by (auto simp add: within_def)
  moreover have "apart h (alloc_ptr a, alloc_bytes_remaining a)" if "h \<in> set H" for h
    using inv n that by (fastforce simp add: arena_inv_def)
  then have "apart h (alloc_ptr a + k, n) \<and>
      apart h (alloc_ptr a + (k + n), alloc_bytes_remaining a - (k + n))" if "h \<in> set H" for h
    using n that by (fastforce simp add: apart_def)
  moreover have "apart (alloc_ptr a + k, n) (alloc_ptr a + (k + n), alloc_bytes_remaining a - (k + n))"
    by (simp add: apart_def)
  ultimately show ?thesis
    using inv b(1) by (auto simp add: arena_inv_def apart_sym [of "(alloc_ptr a + k, n)"])
qed

lemma arena_inv_big:
  assumes inv: "arena_inv a B H" and fresh: "\<forall>b\<in>set B. apart (fresh, n) b"
  shows "arena_inv (a\<lparr>blocks := x, memory_usage := y\<rparr>) ((fresh, n) # B) ((fresh, n) # H)"
proof -
  have apart: "apart (fresh, n) h" if "\<exists>b\<in>set B. within h b" for h
    using that fresh by (blast intro: apart_within)
  have "apart (fresh, n) h" if "h \<in> set H" for h
    using inv that by (intro apart) (simp add: arena_inv_def)
  moreover have "apart (fresh, n) (alloc_ptr a, alloc_bytes_remaining a) \<or> alloc_bytes_remaining a = 0"
    using inv by (cases "alloc_bytes_remaining a = 0") (simp_all add: arena_inv_def apart)
  ultimately show ?thesis
    using inv by (auto simp add: arena_inv_def within_def)
qed

lemma arena_inv_block:
  assumes inv: "arena_inv a B H" and fresh: "\<forall>b\<in>set B. apart (fresh, m) b" and n: "n \<le> m"
  shows "arena_inv (a\<lparr>blocks := x, memory_usage := y, alloc_ptr := fresh + n,
      alloc_bytes_remaining := m - n\<rparr>) ((fresh, m) # B) ((fresh, n) # H)"
proof -
  have "apart (fresh, n) h \<and> apart h (fresh + n, m - n)" if h: "h \<in> set H" for h
  proof -
    obtain b where "b \<in> set B" "within h b" using inv h by (auto simp add: arena_inv_def)
    then have "apart (fresh, m) h" using fresh apart_within by blast
    then show ?thesis using n by (auto simp add: apart_def)
  qed
  then show ?thesis
    using inv n by (auto simp add: arena_inv_def within_def apart_def)
qed

lemma arena_inv_fallback:
  assumes inv: "arena_inv a B H" and call: "Arena_AllocateFallback fresh n a = (p, a')"
    and fresh: "\<forall>r\<in>set (new_block fresh n a a'). 8 dvd fst r \<and> (\<forall>b\<in>set B. apart r b)"
  shows "arena_inv a' (new_block fresh n a a' @ B) ((p, n) # H) \<and> 8 dvd p"
  using arena_inv_big [OF inv, of fresh n] arena_inv_block [OF inv, of fresh kBlockSize n] call fresh
  by (auto simp add: Arena_AllocateFallback_def Arena_AllocateNewBlock_def new_block_def kBlockSize_def
      split: if_splits)

lemma arena_inv_Allocate:
  assumes inv: "arena_inv a B H" and n: "0 < n" and call: "Arena_Allocate fresh n a = (p, a')"
    and fresh: "\<forall>r\<in>set (new_block fresh n a a'). 8 dvd fst r \<and> (\<forall>b\<in>set B. apart r b)"
  shows "arena_inv a' (new_block fresh n a a' @ B) ((p, n) # H)"
proof (cases "n \<le> alloc_bytes_remaining a")
  case True
  then show ?thesis
    using arena_inv_bump [OF inv n, of 0] call by (auto simp add: Arena_Allocate_def new_block_def)
next
  case False
  then show ?thesis
    using arena_inv_fallback [OF inv _ fresh] call by (simp add: Arena_Allocate_def)
qed

lemma arena_inv_AllocateAligned:
  assumes inv: "arena_inv a B H" and n: "0 < n" and call: "Arena_AllocateAligned fresh n a = (p, a')"
    and fresh: "\<forall>r\<in>set (new_block fresh n a a'). 8 dvd fst r \<and> (\<forall>b\<in>set B. apart r b)"
  shows "arena_inv a' (new_block fresh n a a' @ B) ((p, n) # H) \<and> 8 dvd p"
proof -
  define slop where "slop = (if alloc_ptr a mod 8 = 0 then 0 else 8 - alloc_ptr a mod 8)"
  have dvd: "8 dvd alloc_ptr a + slop"
    unfolding slop_def by (simp add: mod_eq_0_iff_dvd) presburger
  have eq: "Arena_AllocateAligned fresh n a =
      (if n + slop \<le> alloc_bytes_remaining a
       then (alloc_ptr a + slop, a\<lparr>alloc_ptr := alloc_ptr a + (n + slop),
              alloc_bytes_remaining := alloc_bytes_remaining a - (n + slop)\<rparr>)
       else Arena_AllocateFallback fresh n a)"
    by (simp add: Arena_AllocateAligned_def slop_def Let_def)
  show ?thesis
  proof (cases "n + slop \<le> alloc_bytes_remaining a")
    case True
    then show ?thesis
      using arena_inv_bump [OF inv n, of slop] call dvd by (auto simp add: eq new_block_def add.commute)
  next
    case False
    then show ?thesis
      using arena_inv_fallback [OF inv _ fresh] call by (simp add: eq)
  qed
qed

lemma arena_run_inv: "arena_run a B H \<Longrightarrow> arena_inv a B H"
proof (induction rule: arena_run.induct)
  case start
  then show ?case by (simp add: arena_inv_def Arena_make_def)
qed (use arena_inv_Allocate arena_inv_AllocateAligned in blast)+

section \<open>Properties\<close>

text \<open>The generator computes \<open>seed * 16807 mod (2 ^ 31 - 1)\<close> with shifts and one conditional
  subtraction in 64 bits, and never leaves the range from 1 to \<open>2 ^ 31 - 2\<close>, whatever seed it
  was created with.\<close>

lemma random_is_lehmer:
  "Random_ok (Random_make s) \<and>
   (Random_ok r \<longrightarrow> unat (fst (Random_Next r)) = unat (seed r) * 16807 mod 2147483647 \<and>
      Random_ok (snd (Random_Next r)))"
  by (simp add: Random_make_ok Random_Next_value Random_Next_ok)



end
