(* ===== verification/Skiplist.thy ===== *)
theory Skiplist
  imports Slices Random_Arena
begin

text \<open>
  \<^verbatim>\<open>db/skiplist.h\<close>, the ordered set under the memtable. Nodes live in a store, the list
  \<open>nodes\<close>, whose indices stand for the pointers the arena hands out; node 0 is \<^verbatim>\<open>head_\<close>, and a
  null pointer is \<^const>\<open>None\<close>. The searches are loops that follow pointers, so the model makes no
  promise that they end: they are partial functions, and it is proved of every list the
  operations build that they return.
\<close>

section \<open>The code\<close>

definition kMaxHeight :: nat where
  "kMaxHeight = 12"

record 'k Node =
  node_key :: 'k
  next_ptrs :: "nat option list"

record 'k SkipList =
  nodes :: "'k Node list"
  max_height :: nat
  rnd :: Random

definition Node_Next :: "'k SkipList \<Rightarrow> nat \<Rightarrow> nat \<Rightarrow> nat option" where
  "Node_Next sl x n = next_ptrs (nodes sl ! x) ! n"

definition Node_SetNext :: "nat \<Rightarrow> nat \<Rightarrow> nat option \<Rightarrow> 'k SkipList \<Rightarrow> 'k SkipList" where
  "Node_SetNext x n p sl =
     sl\<lparr>nodes := (nodes sl)[x := (nodes sl ! x)\<lparr>next_ptrs := (next_ptrs (nodes sl ! x))[n := p]\<rparr>]\<rparr>"

text \<open>The links of a new node are not initialised; the model starts them as null.\<close>

definition SkipList_NewNode :: "'k \<Rightarrow> nat \<Rightarrow> 'k SkipList \<Rightarrow> nat \<times> 'k SkipList" where
  "SkipList_NewNode k height sl =
     (length (nodes sl),
      sl\<lparr>nodes := nodes sl @ [\<lparr>node_key = k, next_ptrs = replicate height None\<rparr>]\<rparr>)"

definition SkipList_make :: "'k \<Rightarrow> 'k SkipList" where
  "SkipList_make any =
     \<lparr>nodes = [\<lparr>node_key = any, next_ptrs = replicate kMaxHeight None\<rparr>],
      max_height = 1, rnd = Random_make 0xdeadbeef\<rparr>"

function RandomHeight_loop :: "nat \<Rightarrow> Random \<Rightarrow> nat \<times> Random" where
  "RandomHeight_loop height r =
     (if height < kMaxHeight then
        (let (v, r') = Random_Next r in
         if v mod 4 = 0 then RandomHeight_loop (height + 1) r' else (height, r'))
      else (height, r))"
  by pat_completeness auto
termination
  by (relation "measure (\<lambda>(h, _). kMaxHeight - h)") auto

declare RandomHeight_loop.simps [simp del]

definition SkipList_RandomHeight :: "Random \<Rightarrow> nat \<times> Random" where
  "SkipList_RandomHeight r = RandomHeight_loop 1 r"

definition SkipList_Equal :: "('k \<Rightarrow> 'k \<Rightarrow> int) \<Rightarrow> 'k \<Rightarrow> 'k \<Rightarrow> bool" where
  "SkipList_Equal cmp a b = (cmp a b = 0)"

definition SkipList_KeyIsAfterNode ::
  "('k \<Rightarrow> 'k \<Rightarrow> int) \<Rightarrow> 'k SkipList \<Rightarrow> 'k \<Rightarrow> nat option \<Rightarrow> bool" where
  "SkipList_KeyIsAfterNode cmp sl k n =
     (case n of None \<Rightarrow> False | Some m \<Rightarrow> cmp (node_key (nodes sl ! m)) k < 0)"

text \<open>The array \<open>prev\<close> is \<^const>\<open>None\<close> where the caller passes a null pointer.\<close>

partial_function (option) FindGreaterOrEqual_loop ::
  "('k \<Rightarrow> 'k \<Rightarrow> int) \<Rightarrow> 'k SkipList \<Rightarrow> 'k \<Rightarrow> nat \<Rightarrow> nat \<Rightarrow> nat list option \<Rightarrow>
     (nat option \<times> nat list option) option" where
  "FindGreaterOrEqual_loop cmp sl k x level prev =
     (if SkipList_KeyIsAfterNode cmp sl k (Node_Next sl x level)
      then FindGreaterOrEqual_loop cmp sl k (the (Node_Next sl x level)) level prev
      else if level = 0 then Some (Node_Next sl x level, map_option (\<lambda>p. p[level := x]) prev)
      else FindGreaterOrEqual_loop cmp sl k x (level - 1) (map_option (\<lambda>p. p[level := x]) prev))"

definition SkipList_FindGreaterOrEqual ::
  "('k \<Rightarrow> 'k \<Rightarrow> int) \<Rightarrow> 'k SkipList \<Rightarrow> 'k \<Rightarrow> nat list option \<Rightarrow>
     (nat option \<times> nat list option) option" where
  "SkipList_FindGreaterOrEqual cmp sl k prev =
     FindGreaterOrEqual_loop cmp sl k 0 (max_height sl - 1) prev"

partial_function (option) FindLessThan_loop ::
  "('k \<Rightarrow> 'k \<Rightarrow> int) \<Rightarrow> 'k SkipList \<Rightarrow> 'k \<Rightarrow> nat \<Rightarrow> nat \<Rightarrow> nat option" where
  "FindLessThan_loop cmp sl k x level =
     (case Node_Next sl x level of
        None \<Rightarrow> if level = 0 then Some x else FindLessThan_loop cmp sl k x (level - 1)
      | Some nxt \<Rightarrow>
          if cmp (node_key (nodes sl ! nxt)) k \<ge> 0
          then if level = 0 then Some x else FindLessThan_loop cmp sl k x (level - 1)
          else FindLessThan_loop cmp sl k nxt level)"

definition SkipList_FindLessThan ::
  "('k \<Rightarrow> 'k \<Rightarrow> int) \<Rightarrow> 'k SkipList \<Rightarrow> 'k \<Rightarrow> nat option" where
  "SkipList_FindLessThan cmp sl k = FindLessThan_loop cmp sl k 0 (max_height sl - 1)"

partial_function (option) FindLast_loop :: "'k SkipList \<Rightarrow> nat \<Rightarrow> nat \<Rightarrow> nat option" where
  "FindLast_loop sl x level =
     (case Node_Next sl x level of
        None \<Rightarrow> if level = 0 then Some x else FindLast_loop sl x (level - 1)
      | Some nxt \<Rightarrow> FindLast_loop sl nxt level)"

definition SkipList_FindLast :: "'k SkipList \<Rightarrow> nat option" where
  "SkipList_FindLast sl = FindLast_loop sl 0 (max_height sl - 1)"

definition Insert_link :: "nat \<Rightarrow> nat list \<Rightarrow> nat \<Rightarrow> 'k SkipList \<Rightarrow> 'k SkipList" where
  "Insert_link x prev i sl =
     Node_SetNext (prev ! i) i (Some x) (Node_SetNext x i (Node_Next sl (prev ! i) i) sl)"

definition SkipList_Insert ::
  "('k \<Rightarrow> 'k \<Rightarrow> int) \<Rightarrow> 'k \<Rightarrow> 'k SkipList \<Rightarrow> 'k SkipList option" where
  "SkipList_Insert cmp k sl =
     (case SkipList_FindGreaterOrEqual cmp sl k (Some (replicate kMaxHeight 0)) of
        None \<Rightarrow> None
      | Some (_, prev) \<Rightarrow>
          (let (height, r) = SkipList_RandomHeight (rnd sl);
               prev = (if height > max_height sl
                       then fold (\<lambda>i p. p[i := 0]) [max_height sl..<height] (the prev)
                       else the prev);
               sl = sl\<lparr>max_height := (if height > max_height sl then height else max_height sl),
                       rnd := r\<rparr>;
               (x, sl) = SkipList_NewNode k height sl
           in Some (fold (Insert_link x prev) [0..<height] sl)))"

definition SkipList_Contains :: "('k \<Rightarrow> 'k \<Rightarrow> int) \<Rightarrow> 'k SkipList \<Rightarrow> 'k \<Rightarrow> bool option" where
  "SkipList_Contains cmp sl k =
     (case SkipList_FindGreaterOrEqual cmp sl k None of
        None \<Rightarrow> None
      | Some (x, _) \<Rightarrow>
          Some (case x of None \<Rightarrow> False
                | Some n \<Rightarrow> SkipList_Equal cmp k (node_key (nodes sl ! n))))"

text \<open>An iterator is the list and a node; it is valid when the node is not null.\<close>

definition Iterator_Valid :: "nat option \<Rightarrow> bool" where
  "Iterator_Valid node = (node \<noteq> None)"

definition Iterator_key :: "'k SkipList \<Rightarrow> nat option \<Rightarrow> 'k" where
  "Iterator_key sl node = node_key (nodes sl ! the node)"

definition Iterator_Next :: "'k SkipList \<Rightarrow> nat option \<Rightarrow> nat option" where
  "Iterator_Next sl node = Node_Next sl (the node) 0"

definition Iterator_Prev ::
  "('k \<Rightarrow> 'k \<Rightarrow> int) \<Rightarrow> 'k SkipList \<Rightarrow> nat option \<Rightarrow> nat option option" where
  "Iterator_Prev cmp sl node =
     map_option (\<lambda>n. if n = 0 then None else Some n)
       (SkipList_FindLessThan cmp sl (node_key (nodes sl ! the node)))"

definition Iterator_Seek ::
  "('k \<Rightarrow> 'k \<Rightarrow> int) \<Rightarrow> 'k SkipList \<Rightarrow> 'k \<Rightarrow> nat option option" where
  "Iterator_Seek cmp sl target = map_option fst (SkipList_FindGreaterOrEqual cmp sl target None)"

definition Iterator_SeekToFirst :: "'k SkipList \<Rightarrow> nat option" where
  "Iterator_SeekToFirst sl = Node_Next sl 0 0"

definition Iterator_SeekToLast :: "'k SkipList \<Rightarrow> nat option option" where
  "Iterator_SeekToLast sl =
     map_option (\<lambda>n. if n = 0 then None else Some n) (SkipList_FindLast sl)"

section \<open>The invariant\<close>

text \<open>
  \<open>L\<close> lists the nodes in the order of their keys. Level \<open>i\<close> is the chain of the nodes of \<open>L\<close>
  that have more than \<open>i\<close> links, from the head to the null pointer.
\<close>

abbreviation key_of :: "'k SkipList \<Rightarrow> nat \<Rightarrow> 'k" where
  "key_of sl a \<equiv> node_key (nodes sl ! a)"

abbreviation height_of :: "'k SkipList \<Rightarrow> nat \<Rightarrow> nat" where
  "height_of sl a \<equiv> length (next_ptrs (nodes sl ! a))"

abbreviation on_level :: "'k SkipList \<Rightarrow> nat \<Rightarrow> nat list \<Rightarrow> nat list" where
  "on_level sl i \<equiv> filter (\<lambda>a. i < height_of sl a)"

definition hd_opt :: "'a list \<Rightarrow> 'a option" where
  "hd_opt xs = (case xs of [] \<Rightarrow> None | x # _ \<Rightarrow> Some x)"

fun linked :: "(nat \<Rightarrow> nat option) \<Rightarrow> nat list \<Rightarrow> bool" where
  "linked nx [] = True"
| "linked nx (x # xs) = (nx x = hd_opt xs \<and> linked nx xs)"

definition sl_inv ::
  "('k \<Rightarrow> 'k \<Rightarrow> int) \<Rightarrow> ('k \<Rightarrow> bool) \<Rightarrow> 'k SkipList \<Rightarrow> nat list \<Rightarrow> bool" where
  "sl_inv cmp valid sl L \<longleftrightarrow>
     nodes sl \<noteq> [] \<and> set L = {1..<length (nodes sl)} \<and>
     height_of sl 0 = kMaxHeight \<and> 1 \<le> max_height sl \<and> max_height sl \<le> kMaxHeight \<and>
     (\<forall>a\<in>set L. 1 \<le> height_of sl a \<and> height_of sl a \<le> max_height sl \<and> valid (key_of sl a)) \<and>
     sorted_wrt (\<lambda>a b. cmp (key_of sl a) (key_of sl b) < 0) L \<and>
     (\<forall>i<kMaxHeight. linked (\<lambda>x. Node_Next sl x i) (0 # on_level sl i L))"

definition sl_rel ::
  "('k \<Rightarrow> 'k \<Rightarrow> int) \<Rightarrow> ('k \<Rightarrow> bool) \<Rightarrow> 'k SkipList \<Rightarrow> 'k list \<Rightarrow> bool" where
  "sl_rel cmp valid sl ks \<longleftrightarrow> (\<exists>L. sl_inv cmp valid sl L \<and> ks = map (key_of sl) L)"

section \<open>Chains\<close>

lemma hd_opt_simps [simp]: "hd_opt [] = None" "hd_opt (x # xs) = Some x"
  by (simp_all add: hd_opt_def)

lemma linked_append: "linked nx (P @ x # Q) \<Longrightarrow> linked nx (x # Q)"
  by (induction P) auto

lemma linked_cong: "(\<And>x. x \<in> set xs \<Longrightarrow> nx x = nx' x) \<Longrightarrow> linked nx xs = linked nx' xs"
  by (induction xs) auto

lemma linked_insert:
  assumes "linked nx (P @ p # R)" and "distinct (P @ p # R)" and "n \<notin> set (P @ p # R)"
    and "\<And>x. x \<in> set (P @ R) \<Longrightarrow> nx' x = nx x"
    and "nx' p = Some n" and "nx' n = nx p"
  shows "linked nx' (P @ p # n # R)"
  using assms
proof (induction P)
  case Nil
  then show ?case by (auto simp add: linked_cong [of R nx' nx])
next
  case (Cons y P)
  then show ?case by (cases P) auto
qed

section \<open>Searching\<close>

text \<open>
  A search key splits the nodes into the ones before it and the others. The three loops walk along
  the first part: \<open>x\<close> is the current node, \<open>Q\<close> the nodes before the key still ahead on this
  level, \<open>R\<close> the ones behind the key.
\<close>

lemma FindGreaterOrEqual_walk:
  assumes "linked (\<lambda>x. Node_Next sl x level) (x # Q @ R)"
    and "\<And>a. a \<in> set Q \<Longrightarrow> cmp (key_of sl a) k < 0"
    and "\<And>a. a \<in> set R \<Longrightarrow> \<not> cmp (key_of sl a) k < 0"
  shows "FindGreaterOrEqual_loop cmp sl k x level prev =
    (let y = last (x # Q); prev' = map_option (\<lambda>p. p[level := y]) prev
     in if level = 0 then Some (hd_opt R, prev')
        else FindGreaterOrEqual_loop cmp sl k y (level - 1) prev')"
  using assms
proof (induction Q arbitrary: x)
  case Nil
  have "\<not> SkipList_KeyIsAfterNode cmp sl k (Node_Next sl x level)"
    using Nil by (cases R) (auto simp add: SkipList_KeyIsAfterNode_def)
  then show ?case
    using Nil by (subst FindGreaterOrEqual_loop.simps) (auto simp add: Let_def)
next
  case (Cons q Q)
  have q: "Node_Next sl x level = Some q"
    using Cons.prems(1) by simp
  then have "SkipList_KeyIsAfterNode cmp sl k (Node_Next sl x level)"
    using Cons.prems(2) by (simp add: SkipList_KeyIsAfterNode_def)
  then show ?case
    using Cons q by (subst FindGreaterOrEqual_loop.simps) (simp add: Let_def)
qed

lemma FindLessThan_walk:
  assumes "linked (\<lambda>x. Node_Next sl x level) (x # Q @ R)"
    and "\<And>a. a \<in> set Q \<Longrightarrow> cmp (key_of sl a) k < 0"
    and "\<And>a. a \<in> set R \<Longrightarrow> \<not> cmp (key_of sl a) k < 0"
  shows "FindLessThan_loop cmp sl k x level =
    (let y = last (x # Q) in if level = 0 then Some y else FindLessThan_loop cmp sl k y (level - 1))"
  using assms
proof (induction Q arbitrary: x)
  case Nil
  then show ?case
    by (subst FindLessThan_loop.simps) (cases R; auto simp add: Let_def not_less)
next
  case (Cons q Q)
  have "Node_Next sl x level = Some q" "cmp (key_of sl q) k < 0"
    using Cons.prems(1,2) by simp_all
  then have "FindLessThan_loop cmp sl k x level = FindLessThan_loop cmp sl k q level"
    by (subst FindLessThan_loop.simps) simp
  then show ?case
    using Cons.IH [of q] Cons.prems by simp
qed

lemma FindLast_walk:
  assumes "linked (\<lambda>x. Node_Next sl x level) (x # Q)"
  shows "FindLast_loop sl x level =
    (let y = last (x # Q) in if level = 0 then Some y else FindLast_loop sl y (level - 1))"
  using assms
proof (induction Q arbitrary: x)
  case Nil
  then show ?case
    by (subst FindLast_loop.simps) (simp add: Let_def)
next
  case (Cons q Q)
  then show ?case
    by (subst FindLast_loop.simps) (simp add: Let_def)
qed

text \<open>On the way down each level is a part of the level below it.\<close>

lemma walk_level:
  assumes inv: "sl_inv cmp valid sl (B @ A)" and level: "level < kMaxHeight"
    and x: "x \<in> set (0 # on_level sl level B)"
  obtains Q where "linked (\<lambda>x. Node_Next sl x level) (x # Q @ on_level sl level A)"
    and "set Q \<subseteq> set B" and "last (x # Q) = last (0 # on_level sl level B)"
proof -
  obtain P Q where PQ: "0 # on_level sl level B = P @ x # Q"
    using x by (meson split_list)
  have "linked (\<lambda>x. Node_Next sl x level) (0 # on_level sl level (B @ A))"
    using inv level by (simp add: sl_inv_def)
  then have "linked (\<lambda>x. Node_Next sl x level) (P @ x # Q @ on_level sl level A)"
    using PQ by (metis append.assoc append_Cons filter_append)
  then have "linked (\<lambda>x. Node_Next sl x level) (x # Q @ on_level sl level A)"
    by (rule linked_append)
  moreover have "set Q \<subseteq> set B"
  proof (cases P)
    case Nil
    then have "Q = on_level sl level B" using PQ by simp
    then show ?thesis by auto
  next
    case (Cons y P')
    then have "on_level sl level B = P' @ x # Q" using PQ by simp
    then have "set Q \<subseteq> set (on_level sl level B)" by auto
    then show ?thesis by auto
  qed
  moreover have "last (x # Q) = last (0 # on_level sl level B)"
    using PQ by (metis last_appendR list.distinct(1))
  ultimately show thesis by (rule that)
qed

lemma last_on_level:
  "last (0 # on_level sl (Suc level) B) \<in> set (0 # on_level sl level B)"
proof (cases "on_level sl (Suc level) B = []")
  case False
  then have "last (on_level sl (Suc level) B) \<in> set (on_level sl (Suc level) B)"
    by (rule last_in_set)
  then show ?thesis using False by auto
qed simp

definition splits_at :: "('k \<Rightarrow> 'k \<Rightarrow> int) \<Rightarrow> 'k SkipList \<Rightarrow> 'k \<Rightarrow> nat list \<Rightarrow> nat list \<Rightarrow> bool" where
  "splits_at cmp sl k B A \<longleftrightarrow>
     (\<forall>a\<in>set B. cmp (key_of sl a) k < 0) \<and> (\<forall>a\<in>set A. \<not> cmp (key_of sl a) k < 0)"

lemma on_level_0:
  assumes "sl_inv cmp valid sl L" and "set X \<subseteq> set L"
  shows "on_level sl 0 X = X"
proof (rule filter_True, rule ballI)
  fix x assume "x \<in> set X"
  then have "1 \<le> height_of sl x" using assms unfolding sl_inv_def by blast
  then show "0 < height_of sl x" by linarith
qed

lemma walk_split:
  assumes inv: "sl_inv cmp valid sl (B @ A)" and split: "splits_at cmp sl k B A"
    and level: "level < kMaxHeight" and x: "x \<in> set (0 # on_level sl level B)"
  obtains Q where "linked (\<lambda>x. Node_Next sl x level) (x # Q @ on_level sl level A)"
    and "\<And>a. a \<in> set Q \<Longrightarrow> cmp (key_of sl a) k < 0"
    and "\<And>a. a \<in> set (on_level sl level A) \<Longrightarrow> \<not> cmp (key_of sl a) k < 0"
    and "last (x # Q) = last (0 # on_level sl level B)"
proof -
  obtain Q where "linked (\<lambda>x. Node_Next sl x level) (x # Q @ on_level sl level A)"
    and "set Q \<subseteq> set B" and "last (x # Q) = last (0 # on_level sl level B)"
    by (rule walk_level [OF inv level x])
  then show thesis
    by (intro that [of Q]) (use split in \<open>auto simp add: splits_at_def\<close>)
qed

lemma FindGreaterOrEqual_level:
  assumes inv: "sl_inv cmp valid sl (B @ A)" and split: "splits_at cmp sl k B A"
    and level: "level < kMaxHeight" and x: "x \<in> set (0 # on_level sl level B)"
  shows "FindGreaterOrEqual_loop cmp sl k x level prev =
    Some (hd_opt A, map_option
      (fold (\<lambda>l p. p[l := last (0 # on_level sl l B)]) (rev [0..<Suc level])) prev)"
  using level x
proof (induction level arbitrary: x prev)
  case 0
  obtain Q where Q: "linked (\<lambda>x. Node_Next sl x 0) (x # Q @ on_level sl 0 A)"
    "\<And>a. a \<in> set Q \<Longrightarrow> cmp (key_of sl a) k < 0"
    "\<And>a. a \<in> set (on_level sl 0 A) \<Longrightarrow> \<not> cmp (key_of sl a) k < 0"
    and last: "last (x # Q) = last (0 # on_level sl 0 B)"
    by (rule walk_split [OF inv split 0]) blast
  have "FindGreaterOrEqual_loop cmp sl k x 0 prev =
      Some (hd_opt (on_level sl 0 A), map_option (\<lambda>p. p[0 := last (x # Q)]) prev)"
    using FindGreaterOrEqual_walk [where sl = sl and cmp = cmp and prev = prev and level = "0", OF Q] by (simp only: Let_def) simp
  moreover have "on_level sl 0 A = A"
    by (rule on_level_0 [OF inv]) auto
  ultimately show ?case unfolding last by simp
next
  case (Suc level)
  obtain Q where Q: "linked (\<lambda>x. Node_Next sl x (Suc level)) (x # Q @ on_level sl (Suc level) A)"
    "\<And>a. a \<in> set Q \<Longrightarrow> cmp (key_of sl a) k < 0"
    "\<And>a. a \<in> set (on_level sl (Suc level) A) \<Longrightarrow> \<not> cmp (key_of sl a) k < 0"
    and last: "last (x # Q) = last (0 # on_level sl (Suc level) B)"
    by (rule walk_split [OF inv split Suc.prems]) blast
  have "FindGreaterOrEqual_loop cmp sl k x (Suc level) prev =
      FindGreaterOrEqual_loop cmp sl k (last (x # Q)) level
        (map_option (\<lambda>p. p[Suc level := last (x # Q)]) prev)"
    using FindGreaterOrEqual_walk [where sl = sl and cmp = cmp and prev = prev and level = "Suc level", OF Q] by (simp only: Let_def) simp
  also have "\<dots> = Some (hd_opt A, map_option
      (fold (\<lambda>l p. p[l := last (0 # on_level sl l B)]) (rev [0..<Suc level]))
      (map_option (\<lambda>p. p[Suc level := last (x # Q)]) prev))"
    unfolding last using Suc.prems by (intro Suc.IH) (simp_all only: last_on_level)
  finally show ?case
    unfolding last by (simp add: option.map_comp comp_def)
qed

lemma FindLessThan_level:
  assumes inv: "sl_inv cmp valid sl (B @ A)" and split: "splits_at cmp sl k B A"
    and level: "level < kMaxHeight" and x: "x \<in> set (0 # on_level sl level B)"
  shows "FindLessThan_loop cmp sl k x level = Some (last (0 # B))"
  using level x
proof (induction level arbitrary: x)
  case 0
  obtain Q where Q: "linked (\<lambda>x. Node_Next sl x 0) (x # Q @ on_level sl 0 A)"
    "\<And>a. a \<in> set Q \<Longrightarrow> cmp (key_of sl a) k < 0"
    "\<And>a. a \<in> set (on_level sl 0 A) \<Longrightarrow> \<not> cmp (key_of sl a) k < 0"
    and last: "last (x # Q) = last (0 # on_level sl 0 B)"
    by (rule walk_split [OF inv split 0]) blast
  have "FindLessThan_loop cmp sl k x 0 = Some (last (x # Q))"
    using FindLessThan_walk [where sl = sl and cmp = cmp and level = "0", OF Q] by (simp only: Let_def) simp
  moreover have "on_level sl 0 B = B"
    by (rule on_level_0 [OF inv]) auto
  ultimately show ?case unfolding last by simp
next
  case (Suc level)
  obtain Q where Q: "linked (\<lambda>x. Node_Next sl x (Suc level)) (x # Q @ on_level sl (Suc level) A)"
    "\<And>a. a \<in> set Q \<Longrightarrow> cmp (key_of sl a) k < 0"
    "\<And>a. a \<in> set (on_level sl (Suc level) A) \<Longrightarrow> \<not> cmp (key_of sl a) k < 0"
    and last: "last (x # Q) = last (0 # on_level sl (Suc level) B)"
    by (rule walk_split [OF inv split Suc.prems]) blast
  have "FindLessThan_loop cmp sl k x (Suc level) = FindLessThan_loop cmp sl k (last (x # Q)) level"
    using FindLessThan_walk [where sl = sl and cmp = cmp and level = "Suc level", OF Q] by (simp only: Let_def) simp
  also have "\<dots> = Some (last (0 # B))"
    unfolding last using Suc.prems by (intro Suc.IH) (simp_all only: last_on_level)
  finally show ?case .
qed

lemma FindLast_level:
  assumes inv: "sl_inv cmp valid sl L"
    and level: "level < kMaxHeight" and x: "x \<in> set (0 # on_level sl level L)"
  shows "FindLast_loop sl x level = Some (last (0 # L))"
  using level x
proof (induction level arbitrary: x)
  case 0
  obtain Q where "linked (\<lambda>x. Node_Next sl x 0) (x # Q @ on_level sl 0 [])"
    and last: "last (x # Q) = last (0 # on_level sl 0 L)"
    using walk_level [of cmp valid sl L "[]" 0 x] inv 0 by auto
  then have "FindLast_loop sl x 0 = Some (last (x # Q))"
    using FindLast_walk [of sl 0 x Q] by (simp add: Let_def)
  moreover have "on_level sl 0 L = L"
    by (rule on_level_0 [OF inv]) auto
  ultimately show ?case unfolding last by simp
next
  case (Suc level)
  obtain Q where "linked (\<lambda>x. Node_Next sl x (Suc level)) (x # Q @ on_level sl (Suc level) [])"
    and last: "last (x # Q) = last (0 # on_level sl (Suc level) L)"
    using walk_level [of cmp valid sl L "[]" "Suc level" x] inv Suc.prems by auto
  then have "FindLast_loop sl x (Suc level) = FindLast_loop sl (last (x # Q)) level"
    using FindLast_walk [of sl "Suc level" x Q] by (simp add: Let_def)
  also have "\<dots> = Some (last (0 # L))"
    unfolding last using Suc.prems by (intro Suc.IH) (simp_all only: last_on_level)
  finally show ?case .
qed

section \<open>Inserting\<close>

lemma SetNext_node:
  "node_key (nodes (Node_SetNext x n p sl) ! y) = node_key (nodes sl ! y) \<and>
   length (next_ptrs (nodes (Node_SetNext x n p sl) ! y)) = length (next_ptrs (nodes sl ! y))"
proof (cases "x < length (nodes sl)")
  case True
  then show ?thesis by (cases "y = x") (simp_all add: Node_SetNext_def)
next
  case False
  then show ?thesis by (simp add: Node_SetNext_def list_update_beyond)
qed

lemma SetNext_frame [simp]:
  "length (nodes (Node_SetNext x n p sl)) = length (nodes sl)"
  "max_height (Node_SetNext x n p sl) = max_height sl"
  "rnd (Node_SetNext x n p sl) = rnd sl"
  "key_of (Node_SetNext x n p sl) y = key_of sl y"
  "height_of (Node_SetNext x n p sl) y = height_of sl y"
  by (simp_all add: SetNext_node) (simp_all add: Node_SetNext_def)

lemma Node_Next_SetNext:
  assumes "x < length (nodes sl)" "n < height_of sl x"
  shows "Node_Next (Node_SetNext x n p sl) y m = (if y = x \<and> m = n then p else Node_Next sl y m)"
  using assms by (simp add: Node_Next_def Node_SetNext_def nth_list_update)

lemma Insert_link_frame [simp]:
  "length (nodes (Insert_link x prev i sl)) = length (nodes sl)"
  "max_height (Insert_link x prev i sl) = max_height sl"
  "rnd (Insert_link x prev i sl) = rnd sl"
  "key_of (Insert_link x prev i sl) y = key_of sl y"
  "height_of (Insert_link x prev i sl) y = height_of sl y"
  by (simp_all add: Insert_link_def)

lemma fold_Insert_link_frame [simp]:
  "length (nodes (fold (Insert_link x prev) is sl)) = length (nodes sl)"
  "max_height (fold (Insert_link x prev) is sl) = max_height sl"
  "rnd (fold (Insert_link x prev) is sl) = rnd sl"
  "key_of (fold (Insert_link x prev) is sl) y = key_of sl y"
  "height_of (fold (Insert_link x prev) is sl) y = height_of sl y"
  by (induction "is" arbitrary: sl) simp_all

lemma fold_Insert_link:
  assumes x: "x < length (nodes sl)" "j \<le> height_of sl x"
    and prev: "\<And>i. i < j \<Longrightarrow> prev ! i < length (nodes sl) \<and> i < height_of sl (prev ! i) \<and> prev ! i \<noteq> x"
  shows "Node_Next (fold (Insert_link x prev) [0..<j] sl) y m =
    (if m < j \<and> y = x then Node_Next sl (prev ! m) m
     else if m < j \<and> y = prev ! m then Some x
     else Node_Next sl y m)"
  using assms
proof (induction j arbitrary: y m)
  case (Suc j)
  define sl' where "sl' = fold (Insert_link x prev) [0..<j] sl"
  have IH: "Node_Next sl' y m = (if m < j \<and> y = x then Node_Next sl (prev ! m) m
     else if m < j \<and> y = prev ! m then Some x else Node_Next sl y m)" for y m
    unfolding sl'_def using Suc by simp
  have frame: "length (nodes sl') = length (nodes sl)" "\<And>y. height_of sl' y = height_of sl y"
    by (simp_all add: sl'_def)
  have "Node_Next (Insert_link x prev j sl') y m =
      (if y = prev ! j \<and> m = j then Some x
       else if y = x \<and> m = j then Node_Next sl' (prev ! j) j else Node_Next sl' y m)"
    using Suc.prems frame
    by (simp add: Insert_link_def Node_Next_SetNext)
  then show ?case
    using Suc.prems(3) [of j] by (auto simp add: IH sl'_def [symmetric] less_Suc_eq)
qed simp

lemma fold_update_length [simp]: "length (fold (\<lambda>l p. p[l := g l]) ls p) = length p"
  by (induction ls arbitrary: p) simp_all

lemma fold_update_nth:
  "i < length p \<Longrightarrow> fold (\<lambda>l p. p[l := g l]) ls p ! i = (if i \<in> set ls then g i else p ! i)"
  by (induction ls arbitrary: p) (auto simp add: nth_list_update)

lemma RandomHeight_loop_bounds:
  "h \<le> kMaxHeight \<Longrightarrow> fst (RandomHeight_loop h r) \<in> {h..kMaxHeight}"
proof (induction "kMaxHeight - h" arbitrary: h r)
  case 0
  then show ?case by (subst RandomHeight_loop.simps) simp
next
  case (Suc n)
  obtain v r' where v: "Random_Next r = (v, r')" by (cases "Random_Next r")
  have "fst (RandomHeight_loop (h + 1) r') \<in> {h + 1..kMaxHeight}"
    using Suc.hyps(2) by (intro Suc.hyps(1)) auto
  then show ?case
    using Suc.prems by (subst RandomHeight_loop.simps) (simp add: v)
qed

lemma RandomHeight_bounds:
  "1 \<le> fst (SkipList_RandomHeight r) \<and> fst (SkipList_RandomHeight r) \<le> kMaxHeight"
  using RandomHeight_loop_bounds [of 1 r] by (simp add: SkipList_RandomHeight_def kMaxHeight_def)

text \<open>What \<^verbatim>\<open>Insert\<close> returns, with the predecessors named.\<close>

definition preds :: "'k SkipList \<Rightarrow> nat list \<Rightarrow> nat \<Rightarrow> nat" where
  "preds sl B i = last (0 # on_level sl i B)"

lemma on_level_above:
  assumes "sl_inv cmp valid sl L" "set B \<subseteq> set L" "max_height sl \<le> i"
  shows "on_level sl i B = []"
proof (rule filter_False, rule ballI)
  fix a assume "a \<in> set B"
  then have "height_of sl a \<le> max_height sl" using assms unfolding sl_inv_def by blast
  then show "\<not> i < height_of sl a" using assms(3) by linarith
qed

lemma FindGreaterOrEqual_split:
  assumes inv: "sl_inv cmp valid sl (B @ A)" and split: "splits_at cmp sl k B A"
  shows "SkipList_FindGreaterOrEqual cmp sl k prev = Some (hd_opt A, map_option
      (fold (\<lambda>l p. p[l := preds sl B l]) (rev [0..<max_height sl])) prev)"
proof -
  define level where "level = max_height sl - 1"
  have level: "level < kMaxHeight" "max_height sl = Suc level"
    using inv by (auto simp add: sl_inv_def level_def)
  have "FindGreaterOrEqual_loop cmp sl k 0 level prev = Some (hd_opt A, map_option
      (fold (\<lambda>l p. p[l := preds sl B l]) (rev [0..<Suc level])) prev)"
    unfolding preds_def by (rule FindGreaterOrEqual_level [OF inv split level(1)]) simp
  then show ?thesis
    by (simp only: SkipList_FindGreaterOrEqual_def level(2) diff_Suc_1)
qed

lemma Insert_eq:
  assumes inv: "sl_inv cmp valid sl (B @ A)" and split: "splits_at cmp sl k B A"
    and h: "(h, r) = SkipList_RandomHeight (rnd sl)"
  obtains prev where "SkipList_Insert cmp k sl =
      Some (fold (Insert_link (length (nodes sl)) prev) [0..<h]
        (sl\<lparr>max_height := max h (max_height sl), rnd := r,
            nodes := nodes sl @ [\<lparr>node_key = k, next_ptrs = replicate h None\<rparr>]\<rparr>))"
    and "\<And>i. i < h \<Longrightarrow> prev ! i = preds sl B i"
proof -
  have mh: "max_height sl \<le> kMaxHeight" using inv by (simp add: sl_inv_def)
  have h12: "h \<le> kMaxHeight" using RandomHeight_bounds [of "rnd sl"] by (simp flip: h)
  define p0 where "p0 = fold (\<lambda>l p. p[l := preds sl B l]) (rev [0..<max_height sl]) (replicate kMaxHeight 0)"
  define prev where "prev = (if h > max_height sl
      then fold (\<lambda>i p. p[i := 0]) [max_height sl..<h] p0 else p0)"
  have above: "preds sl B i = 0" if "max_height sl \<le> i" for i
    using on_level_above [OF inv, of B i] that by (simp add: preds_def)
  have "prev ! i = preds sl B i" if "i < h" for i
  proof -
    have "i < length p0" using that h12 by (simp add: p0_def)
    then show ?thesis
      using that h12 above [of i]
      by (auto simp add: prev_def fold_update_nth [where g = "\<lambda>_. 0"] p0_def fold_update_nth)
  qed
  moreover have "SkipList_Insert cmp k sl =
      Some (fold (Insert_link (length (nodes sl)) prev) [0..<h]
        (sl\<lparr>max_height := max h (max_height sl), rnd := r,
            nodes := nodes sl @ [\<lparr>node_key = k, next_ptrs = replicate h None\<rparr>]\<rparr>))"
    unfolding SkipList_Insert_def FindGreaterOrEqual_split [OF inv split]
    by (simp add: h [symmetric] SkipList_NewNode_def Let_def prev_def p0_def max_def)
  ultimately show thesis using that by blast
qed

lemma relink_level:
  assumes "linked nx (0 # OB @ OA)" and dist: "distinct (0 # OB @ OA)" and "n \<notin> set (0 # OB @ OA)"
    and p: "p = last (0 # OB)" "nx' p = Some n" "nx' n = nx p"
    and other: "\<And>x. x \<in> set (0 # OB @ OA) \<Longrightarrow> x \<noteq> p \<Longrightarrow> nx' x = nx x"
  shows "linked nx' (0 # OB @ n # OA)"
proof -
  define P where "P = butlast (0 # OB)"
  have P: "0 # OB = P @ [p]"
    unfolding P_def p(1) by (rule append_butlast_last_id [symmetric]) simp
  then have eq: "0 # OB @ OA = P @ p # OA" "0 # OB @ n # OA = P @ p # n # OA"
    by (metis append_Cons append.assoc append_Nil)+
  show ?thesis
    unfolding eq(2)
  proof (rule linked_insert)
    show "nx' x = nx x" if "x \<in> set (P @ OA)" for x
      using that other [of x] dist unfolding eq(1) by auto
  qed (use assms eq(1) in auto)
qed

lemma preds_in: "preds sl B i \<in> set (0 # on_level sl i B)"
  unfolding preds_def by (rule last_in_set) simp

text \<open>
  The store after an insertion: the old nodes keep their keys and heights, the new node is linked
  behind its predecessor on each of its levels, and nothing else changes.
\<close>

lemma Insert_effect:
  assumes inv: "sl_inv cmp valid sl (B @ A)" and split: "splits_at cmp sl k B A"
    and lt: "\<And>a. a \<in> set (0 # B @ A) \<Longrightarrow> a < length (nodes sl)" and n: "n = length (nodes sl)"
  obtains sl' h where "SkipList_Insert cmp k sl = Some sl'"
    and "1 \<le> h" "h \<le> kMaxHeight"
    and "length (nodes sl') = Suc n" "max_height sl' = max h (max_height sl)"
    and "key_of sl' n = k" "height_of sl' n = h"
    and "\<And>y. y < n \<Longrightarrow> key_of sl' y = key_of sl y \<and> height_of sl' y = height_of sl y"
    and "\<And>y m. y < n \<Longrightarrow> Node_Next sl' y m = (if m < h \<and> y = preds sl B m then Some n else Node_Next sl y m)"
    and "\<And>m. m < h \<Longrightarrow> Node_Next sl' n m = Node_Next sl (preds sl B m) m"
proof -
  obtain h r where h: "(h, r) = SkipList_RandomHeight (rnd sl)" by (metis surj_pair)
  have hb: "1 \<le> h" "h \<le> kMaxHeight"
    using RandomHeight_bounds [of "rnd sl"] by (simp_all flip: h)
  define sl1 where "sl1 = sl\<lparr>max_height := max h (max_height sl), rnd := r,
      nodes := nodes sl @ [\<lparr>node_key = k, next_ptrs = replicate h None\<rparr>]\<rparr>"
  obtain prev where ins: "SkipList_Insert cmp k sl = Some (fold (Insert_link n prev) [0..<h] sl1)"
    and prev: "\<And>i. i < h \<Longrightarrow> prev ! i = preds sl B i"
    by (rule Insert_eq [OF inv split h]) (use n sl1_def in blast)
  have old: "Node_Next sl1 y m = Node_Next sl y m" "height_of sl1 y = height_of sl y" if "y < n" for y m
    using that by (simp_all add: Node_Next_def sl1_def n nth_append)
  have preds: "preds sl B i < n" "i < height_of sl (preds sl B i)" if "i < h" for i
    using preds_in [of sl B i] lt inv that hb n by (auto simp add: sl_inv_def)
  have nx: "Node_Next (fold (Insert_link n prev) [0..<h] sl1) y m =
      (if m < h \<and> y = n then Node_Next sl1 (prev ! m) m
       else if m < h \<and> y = prev ! m then Some n else Node_Next sl1 y m)" for y m
  proof (rule fold_Insert_link)
    fix i assume "i < h"
    then show "prev ! i < length (nodes sl1) \<and> i < height_of sl1 (prev ! i) \<and> prev ! i \<noteq> n"
      using preds [of i] prev [of i] old(2) [of "prev ! i"] by (simp add: sl1_def n)
  qed (simp_all add: sl1_def n)
  show thesis
  proof (rule that [OF ins hb])
    show "Node_Next (fold (Insert_link n prev) [0..<h] sl1) n m = Node_Next sl (preds sl B m) m"
      if "m < h" for m
      using that nx preds old prev by simp
    show "Node_Next (fold (Insert_link n prev) [0..<h] sl1) y m =
        (if m < h \<and> y = preds sl B m then Some n else Node_Next sl y m)" if "y < n" for y m
      using that nx [of y m] old prev by simp
  qed (simp_all add: sl1_def n nth_append)
qed

context weak_comparator
begin

lemma cmp_irrefl: "valid a \<Longrightarrow> \<not> cmp a a < 0"
  using swap [of a a] by linarith

lemma sorted_distinct:
  "sorted_wrt (\<lambda>a b. cmp (f a) (f b) < 0) L \<Longrightarrow> \<forall>a\<in>set L. valid (f a) \<Longrightarrow> distinct L"
  by (induction L) (auto dest: cmp_irrefl)

lemma sl_inv_distinct:
  assumes "sl_inv cmp valid sl L"
  shows "distinct (0 # L)" and "\<And>a. a \<in> set (0 # L) \<Longrightarrow> a < length (nodes sl)"
proof -
  have "distinct L"
    by (rule sorted_distinct [of "key_of sl"]) (use assms in \<open>auto simp add: sl_inv_def\<close>)
  moreover have set: "set L = {1..<length (nodes sl)}" "nodes sl \<noteq> []"
    using assms by (simp_all add: sl_inv_def)
  ultimately show "distinct (0 # L)" by simp
  show "a < length (nodes sl)" if "a \<in> set (0 # L)" for a
    using that set by auto
qed

text \<open>Every search key splits a sorted list.\<close>

lemma dropWhile_not_before:
  assumes "sorted_wrt (\<lambda>a b. cmp (f a) (f b) < 0) L" and "\<forall>a\<in>set L. valid (f a)" and k: "valid k"
  shows "\<forall>a\<in>set (dropWhile (\<lambda>a. cmp (f a) k < 0) L). \<not> cmp (f a) k < 0"
  using assms(1,2)
proof (induction L)
  case (Cons x L)
  show ?case
  proof (cases "cmp (f x) k < 0")
    case True
    moreover have "\<forall>a\<in>set (dropWhile (\<lambda>a. cmp (f a) k < 0) L). \<not> cmp (f a) k < 0"
      by (rule Cons.IH) (use Cons.prems in simp_all)
    ultimately show ?thesis by (simp only: dropWhile.simps if_True)
  next
    case False
    then have "cmp k (f x) \<le> 0"
      using Cons.prems k not_less [of "f x" k] by simp
    then have "\<not> cmp (f a) k < 0" if "a \<in> set L" for a
      using Cons.prems k that le_less_trans [of k "f x" "f a"] swap [of "f a" k] by auto
    then show ?thesis using False by (simp only: dropWhile.simps if_False list.set) blast
  qed
qed simp

lemma splits_at_takeWhile:
  assumes inv: "sl_inv cmp valid sl L" and k: "valid k"
  shows "splits_at cmp sl k (takeWhile (\<lambda>a. cmp (key_of sl a) k < 0) L)
    (dropWhile (\<lambda>a. cmp (key_of sl a) k < 0) L)"
proof -
  have "\<forall>a\<in>set (dropWhile (\<lambda>a. cmp (key_of sl a) k < 0) L). \<not> cmp (key_of sl a) k < 0"
    by (rule dropWhile_not_before) (use inv k in \<open>simp_all add: sl_inv_def\<close>)
  then show ?thesis
    unfolding splits_at_def using set_takeWhileD by fast
qed

lemma sorted_insert:
  assumes inv: "sl_inv cmp valid sl (B @ A)" and split: "splits_at cmp sl k B A"
    and k: "valid k" and new: "\<forall>a\<in>set A. cmp k (key_of sl a) \<noteq> 0"
  shows "sorted_wrt (\<lambda>x y. cmp x y < 0) (map (key_of sl) B @ k # map (key_of sl) A)"
proof -
  have "sorted_wrt (\<lambda>a b. cmp (key_of sl a) (key_of sl b) < 0) (B @ A)"
    and validL: "\<forall>a\<in>set (B @ A). valid (key_of sl a)"
    using inv by (auto simp add: sl_inv_def)
  moreover have "cmp k (key_of sl a) < 0" if "a \<in> set A" for a
  proof -
    have "valid (key_of sl a)" using validL that by simp
    then show ?thesis
      using split new that not_less [of "key_of sl a" k] k by (fastforce simp add: splits_at_def)
  qed
  ultimately show ?thesis
    using split by (auto simp add: sorted_wrt_append sorted_wrt_map splits_at_def)
qed

lemma Insert_split:
  assumes inv: "sl_inv cmp valid sl (B @ A)" and split: "splits_at cmp sl k B A"
    and k: "valid k" and new: "\<forall>a\<in>set A. cmp k (key_of sl a) \<noteq> 0"
  obtains sl' n where "SkipList_Insert cmp k sl = Some sl'" and "sl_inv cmp valid sl' (B @ n # A)"
    and "map (key_of sl') (B @ n # A) = map (key_of sl) B @ k # map (key_of sl) A"
proof -
  define n where "n = length (nodes sl)"
  note dist = sl_inv_distinct(1) [OF inv] and lt = sl_inv_distinct(2) [OF inv]
  obtain sl' h where ins: "SkipList_Insert cmp k sl = Some sl'" and h: "1 \<le> h" "h \<le> kMaxHeight"
    and len: "length (nodes sl') = Suc n" and mh: "max_height sl' = max h (max_height sl)"
    and new_node: "key_of sl' n = k" "height_of sl' n = h"
    and old_node: "\<And>y. y < n \<Longrightarrow> key_of sl' y = key_of sl y \<and> height_of sl' y = height_of sl y"
    and nx: "\<And>y m. y < n \<Longrightarrow> Node_Next sl' y m = (if m < h \<and> y = preds sl B m then Some n else Node_Next sl y m)"
      "\<And>m. m < h \<Longrightarrow> Node_Next sl' n m = Node_Next sl (preds sl B m) m"
    by (rule Insert_effect [OF inv split _ n_def]) (use lt in simp_all)
  have keys: "map (key_of sl') (B @ n # A) = map (key_of sl) B @ k # map (key_of sl) A"
    using new_node old_node lt by (simp add: n_def)
  have n0: "0 < n" and setL: "set B \<union> set A = {1..<n}"
    using inv by (auto simp add: sl_inv_def n_def)
  have lev: "on_level sl' i X = on_level sl i X" if "set X \<subseteq> set (B @ A)" for i X
    by (rule filter_cong [OF refl]) (use that lt old_node in \<open>auto simp add: n_def\<close>)
  have link: "linked (\<lambda>x. Node_Next sl' x i) (0 # on_level sl' i (B @ n # A))" if i: "i < kMaxHeight" for i
  proof -
    have old: "linked (\<lambda>x. Node_Next sl x i) (0 # on_level sl i B @ on_level sl i A)"
      using inv i by (simp add: sl_inv_def)
    have in_lt: "x < n" if "x \<in> set (0 # on_level sl i B @ on_level sl i A)" for x
      using that lt by (auto simp add: n_def)
    show ?thesis
    proof (cases "i < h")
      case False
      then show ?thesis
        using old in_lt nx(1) [where m = i] new_node linked_cong [of "0 # on_level sl i B @ on_level sl i A"
            "\<lambda>x. Node_Next sl' x i" "\<lambda>x. Node_Next sl x i"] by (simp add: lev)
    next
      case True
      have "linked (\<lambda>x. Node_Next sl' x i) (0 # on_level sl i B @ n # on_level sl i A)"
      proof (rule relink_level [OF old, where p = "preds sl B i"])
        have "preds sl B i \<in> set (0 # on_level sl i B @ on_level sl i A)"
          using preds_in [of sl B i] by auto
        then have "preds sl B i < n" by (rule in_lt)
        then show "Node_Next sl' (preds sl B i) i = Some n" using nx(1) True by simp
        show "preds sl B i = last (0 # on_level sl i B)" by (rule preds_def)
      qed (use dist in_lt nx True in \<open>auto simp add: distinct_filter\<close>)
      then show ?thesis using new_node True by (simp add: lev)
    qed
  qed
  have nodes: "1 \<le> height_of sl' a \<and> height_of sl' a \<le> max_height sl' \<and> valid (key_of sl' a)"
    if "a \<in> set (B @ n # A)" for a
  proof (cases "a = n")
    case False
    then have "a \<in> set (B @ A)" using that by auto
    moreover from this have "1 \<le> height_of sl a \<and> height_of sl a \<le> max_height sl \<and> valid (key_of sl a)"
      using inv unfolding sl_inv_def by blast
    ultimately show ?thesis using old_node [of a] lt [of a] mh by (auto simp add: n_def)
  qed (use new_node h k mh in simp)
  have sorted: "sorted_wrt (\<lambda>a b. cmp (key_of sl' a) (key_of sl' b) < 0) (B @ n # A)"
    using sorted_insert [OF inv split k new] by (simp only: keys [symmetric] sorted_wrt_map)
  have "1 \<le> max_height sl' \<and> max_height sl' \<le> kMaxHeight \<and> height_of sl' 0 = kMaxHeight"
    using mh h old_node [OF n0] inv by (simp add: sl_inv_def)
  moreover have "set (B @ n # A) = {1..<length (nodes sl')}"
    using setL n0 by (simp add: len atLeastLessThanSuc)
  moreover have "nodes sl' \<noteq> []"
    using len by (metis length_0_conv nat.distinct(1))
  ultimately have "sl_inv cmp valid sl' (B @ n # A)"
    unfolding sl_inv_def using nodes sorted link by blast
  then show thesis using that ins keys by blast
qed

end

section \<open>The skip list as an ordered sequence\<close>

lemma map_option_hd_opt: "map_option f (hd_opt xs) = hd_opt (map f xs)"
  by (cases xs) auto

lemma sl_inv_make: "sl_inv cmp valid (SkipList_make any) []"
  by (auto simp add: sl_inv_def SkipList_make_def kMaxHeight_def Node_Next_def less_Suc_eq numeral_eq_Suc)

lemma linked_nth:
  "linked nx xs \<Longrightarrow> i < length xs \<Longrightarrow> nx (xs ! i) = (if Suc i < length xs then Some (xs ! Suc i) else None)"
proof (induction xs arbitrary: i)
  case (Cons x xs)
  then show ?case by (cases i; cases xs) auto
qed simp

lemma sl_inv_Next:
  assumes "sl_inv cmp valid sl L"
  shows "Iterator_SeekToFirst sl = hd_opt L"
    and "i < length L \<Longrightarrow> Iterator_Next sl (Some (L ! i)) = (if Suc i < length L then Some (L ! Suc i) else None)"
proof -
  have "\<forall>i<kMaxHeight. linked (\<lambda>x. Node_Next sl x i) (0 # on_level sl i L)"
    using assms unfolding sl_inv_def by blast
  then have "linked (\<lambda>x. Node_Next sl x 0) (0 # on_level sl 0 L)"
    by (metis kMaxHeight_def zero_less_numeral)
  then have link: "linked (\<lambda>x. Node_Next sl x 0) (0 # L)"
    by (simp only: on_level_0 [OF assms subset_refl])
  show "Iterator_SeekToFirst sl = hd_opt L"
    using link by (simp add: Iterator_SeekToFirst_def)
  show "Iterator_Next sl (Some (L ! i)) = (if Suc i < length L then Some (L ! Suc i) else None)"
    if "i < length L"
    using linked_nth [OF link, of "Suc i"] that by (simp add: Iterator_Next_def)
qed

lemma FindLessThan_split:
  assumes inv: "sl_inv cmp valid sl (B @ A)" and split: "splits_at cmp sl k B A"
  shows "SkipList_FindLessThan cmp sl k = Some (last (0 # B))"
proof -
  have "max_height sl - 1 < kMaxHeight" using inv by (auto simp add: sl_inv_def)
  then show ?thesis
    unfolding SkipList_FindLessThan_def by (rule FindLessThan_level [OF inv split]) simp
qed

lemma SeekToLast_inv:
  assumes inv: "sl_inv cmp valid sl L" and "0 \<notin> set L"
  shows "Iterator_SeekToLast sl = Some (hd_opt (rev L))"
proof -
  have "max_height sl - 1 < kMaxHeight" using inv by (auto simp add: sl_inv_def)
  then have "SkipList_FindLast sl = Some (last (0 # L))"
    unfolding SkipList_FindLast_def by (rule FindLast_level [OF inv]) simp
  then show ?thesis
    using assms(2) by (cases L rule: rev_cases) (simp_all add: Iterator_SeekToLast_def)
qed

context weak_comparator
begin

lemma sl_rel_make: "sl_rel cmp valid (SkipList_make any) []"
  using sl_inv_make by (auto simp add: sl_rel_def)

lemma sl_rel_sorted:
  assumes "sl_rel cmp valid sl ks"
  shows "sorted_wrt (\<lambda>x y. cmp x y < 0) ks" and "\<forall>x\<in>set ks. valid x"
  using assms by (auto simp add: sl_rel_def sl_inv_def sorted_wrt_map)

lemma sl_rel_Insert:
  assumes rel: "sl_rel cmp valid sl ks" and k: "valid k" and new: "\<forall>x\<in>set ks. cmp k x \<noteq> 0"
  obtains sl' where "SkipList_Insert cmp k sl = Some sl'"
    and "sl_rel cmp valid sl' (takeWhile (\<lambda>x. cmp x k < 0) ks @ k # dropWhile (\<lambda>x. cmp x k < 0) ks)"
proof -
  obtain L where inv: "sl_inv cmp valid sl L" and ks: "ks = map (key_of sl) L"
    using rel by (auto simp add: sl_rel_def)
  define B A where "B = takeWhile (\<lambda>a. cmp (key_of sl a) k < 0) L"
    and "A = dropWhile (\<lambda>a. cmp (key_of sl a) k < 0) L"
  have BA: "L = B @ A" by (simp add: B_def A_def)
  have "splits_at cmp sl k B A"
    unfolding B_def A_def by (rule splits_at_takeWhile [OF inv k])
  then obtain sl' n where "SkipList_Insert cmp k sl = Some sl'" and "sl_inv cmp valid sl' (B @ n # A)"
    and keys: "map (key_of sl') (B @ n # A) = map (key_of sl) B @ k # map (key_of sl) A"
    by (rule Insert_split [OF inv [unfolded BA]]) (use k new ks BA in auto)
  moreover have "takeWhile (\<lambda>x. cmp x k < 0) ks @ k # dropWhile (\<lambda>x. cmp x k < 0) ks =
      map (key_of sl) B @ k # map (key_of sl) A"
    by (simp add: ks B_def A_def takeWhile_map dropWhile_map comp_def)
  ultimately show thesis
    using that unfolding sl_rel_def keys [symmetric] by metis
qed

lemma sl_rel_Seek:
  assumes rel: "sl_rel cmp valid sl ks" and k: "valid k"
  obtains node prev where "SkipList_FindGreaterOrEqual cmp sl k None = Some (node, prev)"
    and "map_option (key_of sl) node = hd_opt (dropWhile (\<lambda>x. cmp x k < 0) ks)"
proof -
  obtain L where inv: "sl_inv cmp valid sl L" and ks: "ks = map (key_of sl) L"
    using rel by (auto simp add: sl_rel_def)
  have "sl_inv cmp valid sl (takeWhile (\<lambda>a. cmp (key_of sl a) k < 0) L @ dropWhile (\<lambda>a. cmp (key_of sl a) k < 0) L)"
    using inv by simp
  note FindGreaterOrEqual_split [OF this splits_at_takeWhile [OF inv k], of None]
  then show thesis
    using that unfolding ks by (simp add: dropWhile_map comp_def map_option_hd_opt)
qed

lemma sl_rel_Contains:
  assumes rel: "sl_rel cmp valid sl ks" and k: "valid k"
  shows "SkipList_Contains cmp sl k = Some (\<exists>x\<in>set ks. cmp k x = 0)"
proof -
  obtain node prev where find: "SkipList_FindGreaterOrEqual cmp sl k None = Some (node, prev)"
    and node: "map_option (key_of sl) node = hd_opt (dropWhile (\<lambda>x. cmp x k < 0) ks)"
    by (rule sl_rel_Seek [OF rel k])
  note sorted = sl_rel_sorted [OF rel]
  define B A where "B = takeWhile (\<lambda>x. cmp x k < 0) ks" and "A = dropWhile (\<lambda>x. cmp x k < 0) ks"
  have ks: "set ks = set B \<union> set A"
    by (metis A_def B_def set_append takeWhile_dropWhile_id)
  have before: "cmp k x \<noteq> 0" if "x \<in> set B" for x
    using set_takeWhileD [OF that [unfolded B_def]] swap [of x k] sorted(2) k by auto
  have rest: "cmp k y < 0" if "A = x # A'" "y \<in> set A'" for x y A'
  proof -
    have "\<not> cmp x k < 0"
      using that hd_dropWhile [of "\<lambda>x. cmp x k < 0" ks] by (simp add: A_def [symmetric])
    moreover have "sorted_wrt (\<lambda>x y. cmp x y < 0) A"
      using sorted(1) by (metis A_def sorted_wrt_append takeWhile_dropWhile_id)
    then have "cmp x y < 0" using that by simp
    moreover have "valid x" "valid y" using that ks sorted(2) by auto
    ultimately show ?thesis
      using le_less_trans [of k x y] not_less [of x k] k by simp
  qed
  show ?thesis
  proof (cases A)
    case Nil
    then show ?thesis
      using find node before by (auto simp add: SkipList_Contains_def ks A_def [symmetric])
  next
    case (Cons x A')
    then have "map_option (key_of sl) node = Some x" using node by (simp add: A_def)
    then obtain n where n: "node = Some n" "key_of sl n = x" by blast
    have "(\<exists>x\<in>set ks. cmp k x = 0) \<longleftrightarrow> cmp k x = 0"
      using before rest [OF Cons] Cons by (fastforce simp add: ks)
    then show ?thesis
      using find n by (simp add: SkipList_Contains_def SkipList_Equal_def)
  qed
qed

lemma sl_inv_Prev:
  assumes inv: "sl_inv cmp valid sl L" and i: "i < length L"
  shows "Iterator_Prev cmp sl (Some (L ! i)) = Some (if i = 0 then None else Some (L ! (i - 1)))"
proof -
  define k where "k = key_of sl (L ! i)"
  have sorted: "sorted_wrt (\<lambda>a b. cmp (key_of sl a) (key_of sl b) < 0) L"
    and valid: "\<forall>a\<in>set L. valid (key_of sl a)"
    using inv by (auto simp add: sl_inv_def)
  have "splits_at cmp sl k (take i L) (drop i L)"
    unfolding splits_at_def
  proof (intro conjI ballI)
    fix a assume "a \<in> set (take i L)"
    then obtain j where "j < i" "a = L ! j" using i by (auto simp add: in_set_conv_nth)
    then show "cmp (key_of sl a) k < 0"
      using sorted_wrt_nth_less [OF sorted, of j i] i by (simp add: k_def)
  next
    fix a assume "a \<in> set (drop i L)"
    then obtain j where j: "i \<le> j" "j < length L" "a = L ! j"
      using i by (auto simp add: in_set_conv_nth) (metis add.commute le_add1 less_diff_conv)
    have "valid k" "valid (key_of sl a)" using valid i j by (auto simp add: k_def)
    moreover have "j = i \<or> cmp k (key_of sl a) < 0"
      using sorted_wrt_nth_less [OF sorted, of i j] j by (auto simp add: k_def le_less)
    ultimately show "\<not> cmp (key_of sl a) k < 0"
      using cmp_irrefl [of k] swap [of k "key_of sl a"] j by (auto simp add: k_def)
  qed
  then have "SkipList_FindLessThan cmp sl k = Some (last (0 # take i L))"
    by (rule FindLessThan_split [rotated]) (use inv in simp)
  moreover have "last (0 # take i L) = (if i = 0 then 0 else L ! (i - 1))"
    using i by (cases i) (auto simp add: take_Suc_conv_app_nth)
  moreover have "i \<noteq> 0 \<Longrightarrow> L ! (i - 1) \<noteq> 0"
    using sl_inv_distinct(1) [OF inv] nth_mem [of "i - 1" L] i
    by (metis distinct.simps(2) less_imp_diff_less)
  ultimately show ?thesis
    by (cases "i = 0") (simp_all add: Iterator_Prev_def k_def)
qed

end

section \<open>Properties of the skip list\<close>

text \<open>C12. Inserting a key that compares equal to no key of the list always ends, keeps every level
  of the list linked and in order, and puts the key between the keys before it and the ones behind
  it, whatever height the node draws.\<close>

theorem skiplist_insert:
  assumes "weak_comparator cmp valid" and "sl_rel cmp valid sl ks" and "valid k"
    and "\<forall>x\<in>set ks. cmp k x \<noteq> 0"
  shows "\<exists>sl'. SkipList_Insert cmp k sl = Some sl' \<and>
    sl_rel cmp valid sl' (takeWhile (\<lambda>x. cmp x k < 0) ks @ k # dropWhile (\<lambda>x. cmp x k < 0) ks)"
  by (rule weak_comparator.sl_rel_Insert [OF assms]) blast

theorem skiplist_insert_witness:
  "\<exists>sl'. SkipList_Insert Slice_compare [1] (SkipList_make []) = Some sl' \<and>
    sl_rel Slice_compare (\<lambda>_. True) sl' [[1]]"
proof -
  have c: "weak_comparator Slice_compare (\<lambda>_. True)"
    by unfold_locales (auto simp add: Slice_compare_lex split: if_splits)
  show ?thesis
    using skiplist_insert [OF c weak_comparator.sl_rel_make [OF c, of "[]"], of "[1]"] by simp
qed

text \<open>C13. A search ends on every list the operations build: \<^verbatim>\<open>Seek\<close> finds the first key that is
  not before the target, and \<^verbatim>\<open>Contains\<close> tells whether a key compares equal to it.\<close>

theorem skiplist_search:
  assumes "weak_comparator cmp valid" and "sl_rel cmp valid sl ks" and "valid k"
  shows "(\<exists>node. Iterator_Seek cmp sl k = Some node \<and>
      map_option (\<lambda>n. node_key (nodes sl ! n)) node = hd_opt (dropWhile (\<lambda>x. cmp x k < 0) ks)) \<and>
    SkipList_Contains cmp sl k = Some (\<exists>x\<in>set ks. cmp k x = 0)"
  using weak_comparator.sl_rel_Contains [OF assms]
  by (auto simp add: Iterator_Seek_def intro: weak_comparator.sl_rel_Seek [OF assms])

theorem skiplist_search_witness:
  "SkipList_Contains Slice_compare (SkipList_make []) [1] = Some False"
proof -
  have c: "weak_comparator Slice_compare (\<lambda>_. True)"
    by unfold_locales (auto simp add: Slice_compare_lex split: if_splits)
  show ?thesis
    using skiplist_search [OF c weak_comparator.sl_rel_make [OF c, of "[]"], of "[1]"] by simp
qed

text \<open>C24. The iterator visits the keys of the list in order, forwards by the links of the lowest
  level and backwards by searching: the node after the \<open>i\<close>-th is the next one, the node before it
  the previous one, and both ends are found.\<close>

theorem skiplist_iterator:
  assumes "weak_comparator cmp valid" and "sl_inv cmp valid sl L"
  shows "Iterator_SeekToFirst sl = hd_opt L \<and> Iterator_SeekToLast sl = Some (hd_opt (rev L)) \<and>
    (\<forall>i<length L.
       Iterator_Next sl (Some (L ! i)) = (if Suc i < length L then Some (L ! Suc i) else None) \<and>
       Iterator_Prev cmp sl (Some (L ! i)) = Some (if i = 0 then None else Some (L ! (i - 1))))"
proof -
  have "0 \<notin> set L" using weak_comparator.sl_inv_distinct(1) [OF assms] by simp
  then show ?thesis
    using sl_inv_Next [OF assms(2)] SeekToLast_inv [OF assms(2)] weak_comparator.sl_inv_Prev [OF assms]
    by simp
qed

theorem skiplist_iterator_witness:
  "Iterator_SeekToLast (SkipList_make ([] :: bytes)) = Some None"
proof -
  have c: "weak_comparator Slice_compare (\<lambda>_. True)"
    by unfold_locales (auto simp add: Slice_compare_lex split: if_splits)
  show ?thesis
    using skiplist_iterator [OF c sl_inv_make, of "[]"] by simp
qed

end
