(* ===== verification/Memtable.thy ===== *)
theory Memtable
  imports Internal_Keys Skiplist
begin

text \<open>
  \<^verbatim>\<open>db/memtable.cc\<close>: the in-memory table, a skip list of entries. An entry is one byte string, a
  length-prefixed internal key followed by a length-prefixed value; the comparison of entries
  reads only the key. The lemmas abstract a memtable to the list of its entries in key order and
  show that \<^verbatim>\<open>Add\<close> inserts into it and \<^verbatim>\<open>Get\<close> finds the newest entry its snapshot sees.
\<close>

section \<open>The code\<close>

text \<open>
  The parser of entries trusts them: it looks at no more than five bytes for the length and takes
  that many bytes unchecked. The model also returns what follows the slice; \<^const>\<open>None\<close> is the
  null pointer a corrupted length would give.
\<close>

definition MemTable_GetLengthPrefixedSlice :: "bytes \<Rightarrow> (bytes \<times> bytes) option" where
  "MemTable_GetLengthPrefixedSlice data =
     (case GetVarint32Ptr (take 5 data) of
        None \<Rightarrow> None
      | Some (len, q) \<Rightarrow>
          let p = drop (length (take 5 data) - length q) data
          in Some (take (unat len) p, drop (unat len) p))"

definition MemTable_KeyComparator :: "(bytes \<Rightarrow> bytes \<Rightarrow> int) \<Rightarrow> bytes \<Rightarrow> bytes \<Rightarrow> int" where
  "MemTable_KeyComparator ucmp aptr bptr =
     (let a = fst (the (MemTable_GetLengthPrefixedSlice aptr));
          b = fst (the (MemTable_GetLengthPrefixedSlice bptr))
      in InternalKeyComparator_Compare ucmp a b)"

definition MemTable_EncodeKey :: "bytes \<Rightarrow> bytes" where
  "MemTable_EncodeKey target = PutVarint32 [] (of_nat (length target)) @ target"

record MemTable =
  mem_table :: "bytes SkipList"

definition MemTable_make :: MemTable where
  "MemTable_make = \<lparr>mem_table = SkipList_make []\<rparr>"

definition MemTable_encoded_len :: "bytes \<Rightarrow> bytes \<Rightarrow> nat" where
  "MemTable_encoded_len key value =
     (let key_size = length key; val_size = length value; internal_key_size = key_size + 8
      in VarintLength (of_nat internal_key_size) + internal_key_size +
         VarintLength (of_nat val_size) + val_size)"

definition MemTable_entry :: "SequenceNumber \<Rightarrow> ValueType \<Rightarrow> bytes \<Rightarrow> bytes \<Rightarrow> bytes" where
  "MemTable_entry s t key value =
     EncodeVarint32 (of_nat (length key + 8)) @ key @
     Fixed64 (push_bit 8 s OR ValueType_num t) @
     EncodeVarint32 (of_nat (length value)) @ value"

definition MemTable_Add ::
  "(bytes \<Rightarrow> bytes \<Rightarrow> int) \<Rightarrow> SequenceNumber \<Rightarrow> ValueType \<Rightarrow> bytes \<Rightarrow> bytes \<Rightarrow> MemTable \<Rightarrow>
     MemTable option" where
  "MemTable_Add ucmp s t key value mem =
     map_option (\<lambda>table. mem\<lparr>mem_table := table\<rparr>)
       (SkipList_Insert (MemTable_KeyComparator ucmp) (MemTable_entry s t key value) (mem_table mem))"

text \<open>
  \<^verbatim>\<open>Get\<close> returns whether the memtable decides the lookup, and writes the value or a status; a
  tag that is neither a value nor a deletion falls through the switch.
\<close>

definition MemTable_Get ::
  "(bytes \<Rightarrow> bytes \<Rightarrow> int) \<Rightarrow> LookupKey \<Rightarrow> bytes \<Rightarrow> status \<Rightarrow> MemTable \<Rightarrow>
     (bool \<times> bytes \<times> status) option" where
  "MemTable_Get ucmp key value s mem =
     (let memkey = LookupKey_memtable_key key in
      case Iterator_Seek (MemTable_KeyComparator ucmp) (mem_table mem) memkey of
        None \<Rightarrow> None
      | Some iter \<Rightarrow>
          Some
            (if Iterator_Valid iter then
               let entry = Iterator_key (mem_table mem) iter;
                   (key_length, q) = the (GetVarint32Ptr (take 5 entry));
                   key_ptr = drop (length (take 5 entry) - length q) entry
               in if ucmp (take (unat (key_length - 8)) key_ptr) (LookupKey_user_key key) = 0 then
                    let tag = GetFixed64 (drop (unat (key_length - 8)) key_ptr);
                        c = tag AND 0xff
                    in if c = ValueType_num kTypeValue then
                         (True,
                          fst (the (MemTable_GetLengthPrefixedSlice (drop (unat key_length) key_ptr))),
                          s)
                       else if c = ValueType_num kTypeDeletion then (True, value, NotFound [])
                       else (False, value, s)
                  else (False, value, s)
             else (False, value, s)))"

section \<open>Entries\<close>

type_synonym mem_entry = "bytes \<times> SequenceNumber \<times> ValueType \<times> bytes"

fun entry_key :: "mem_entry \<Rightarrow> bytes" where
  "entry_key (u, s, t, v) = InternalKey_make u s t"

fun entry_bytes :: "mem_entry \<Rightarrow> bytes" where
  "entry_bytes (u, s, t, v) = MemTable_entry s t u v"

fun entry_fits :: "mem_entry \<Rightarrow> bool" where
  "entry_fits (u, s, t, v) =
     (s \<le> kMaxSequenceNumber \<and> length u + 8 < 2 ^ 32 \<and> length v < 2 ^ 32)"

lemma take_varint_prefix:
  "take 5 (EncodeVarint32 v @ rest) = EncodeVarint32 v @ take (5 - length (EncodeVarint32 v)) rest"
  using length_EncodeVarint32_le [of v] by simp

lemma MemTable_GetLengthPrefixedSlice_codec:
  assumes "length x < 2 ^ 32"
  shows "MemTable_GetLengthPrefixedSlice (EncodeVarint32 (of_nat (length x)) @ x @ rest) = Some (x, rest)"
proof -
  define e where "e = EncodeVarint32 (of_nat (length x))"
  have len: "length e \<le> 5" by (simp add: e_def length_EncodeVarint32_le)
  have "GetVarint32Ptr (take 5 (e @ x @ rest)) = Some (of_nat (length x), take (5 - length e) (x @ rest))"
    using take_varint_prefix [of "of_nat (length x)" "x @ rest"] by (simp add: e_def)
  moreover have "drop (length (take 5 (e @ x @ rest)) - length (take (5 - length e) (x @ rest))) (e @ x @ rest) = x @ rest"
    using len by (simp add: min_def)
  ultimately show ?thesis
    using assms by (simp add: MemTable_GetLengthPrefixedSlice_def Let_def unat_of_nat_u32 e_def)
qed

lemma MemTable_entry_eq:
  "MemTable_entry s t u v = length_prefixed (InternalKey_make u s t) @ length_prefixed v"
  by (simp add: MemTable_entry_def InternalKey_make_eq PackSequenceAndType_def)

definition MemTableIterator_Seek ::
  "(bytes \<Rightarrow> bytes \<Rightarrow> int) \<Rightarrow> MemTable \<Rightarrow> bytes \<Rightarrow> nat option option" where
  "MemTableIterator_Seek ucmp mem k =
     Iterator_Seek (MemTable_KeyComparator ucmp) (mem_table mem) (MemTable_EncodeKey k)"

definition MemTableIterator_key :: "MemTable \<Rightarrow> nat option \<Rightarrow> bytes" where
  "MemTableIterator_key mem iter =
     fst (the (MemTable_GetLengthPrefixedSlice (Iterator_key (mem_table mem) iter)))"

definition MemTableIterator_value :: "MemTable \<Rightarrow> nat option \<Rightarrow> bytes" where
  "MemTableIterator_value mem iter =
     (let (key_slice, behind) = the (MemTable_GetLengthPrefixedSlice (Iterator_key (mem_table mem) iter))
      in fst (the (MemTable_GetLengthPrefixedSlice behind)))"

lemma MemTable_entry_length:
  assumes "length key + 8 < 2 ^ 32" "length value < 2 ^ 32"
  shows "length (MemTable_entry s t key value) = MemTable_encoded_len key value"
proof -
  have "VarintLength (of_nat n) = length (EncodeVarint32 (of_nat n))" if "n < 2 ^ 32" for n
    using that unat_of_nat_u64 [of n] unat_of_nat_u32 [of n]
    by (simp add: VarintLength_EncodeVarint64 EncodeVarint64_varint EncodeVarint32_varint)
  from this [OF assms(1)] this [OF assms(2)] show ?thesis
    by (simp add: MemTable_entry_def MemTable_encoded_len_def Let_def)
qed

definition mem_valid :: "(bytes \<Rightarrow> bool) \<Rightarrow> bytes \<Rightarrow> bool" where
  "mem_valid uvalid e \<longleftrightarrow>
     (\<exists>k rest. e = length_prefixed k @ rest \<and> 8 \<le> length k \<and> length k < 2 ^ 32 \<and>
        uvalid (ExtractUserKey k))"

lemma MemTable_KeyComparator_codec:
  assumes "length a < 2 ^ 32" "length b < 2 ^ 32"
  shows "MemTable_KeyComparator ucmp (length_prefixed a @ x) (length_prefixed b @ y) =
    InternalKeyComparator_Compare ucmp a b"
  using assms by (simp add: MemTable_KeyComparator_def MemTable_GetLengthPrefixedSlice_codec)

lemma mem_valid_obtain:
  assumes "mem_valid uvalid e"
  obtains k rest where "e = length_prefixed k @ rest" "length k < 2 ^ 32"
    "8 \<le> length k \<and> uvalid (ExtractUserKey k)"
  using assms by (auto simp add: mem_valid_def)

sublocale user_comparator \<subseteq> mem: weak_comparator "MemTable_KeyComparator ucmp" "mem_valid uvalid"
proof
  fix a b assume a: "mem_valid uvalid a" and b: "mem_valid uvalid b"
  obtain ka ra where ka: "a = length_prefixed ka @ ra" "length ka < 2 ^ 32" "ivalid ka"
    by (rule mem_valid_obtain [OF a])
  obtain kb rb where kb: "b = length_prefixed kb @ rb" "length kb < 2 ^ 32" "ivalid kb"
    by (rule mem_valid_obtain [OF b])
  show "MemTable_KeyComparator ucmp a b < 0 \<longleftrightarrow> 0 < MemTable_KeyComparator ucmp b a"
    unfolding ka(1) kb(1) MemTable_KeyComparator_codec [OF ka(2) kb(2)]
      MemTable_KeyComparator_codec [OF kb(2) ka(2)] by (rule ikey.cmp_swap [OF ka(3) kb(3)])
  fix c assume c: "mem_valid uvalid c"
  obtain kc rc where kc: "c = length_prefixed kc @ rc" "length kc < 2 ^ 32" "ivalid kc"
    by (rule mem_valid_obtain [OF c])
  assume "MemTable_KeyComparator ucmp a b \<le> 0" "MemTable_KeyComparator ucmp b c \<le> 0"
  then show "MemTable_KeyComparator ucmp a c \<le> 0"
    unfolding ka(1) kb(1) kc(1) MemTable_KeyComparator_codec [OF ka(2) kb(2)]
      MemTable_KeyComparator_codec [OF kb(2) kc(2)] MemTable_KeyComparator_codec [OF ka(2) kc(2)]
    by (rule ikey.cmp_le_trans [OF ka(3) kb(3) kc(3)])
qed

section \<open>The memtable as a sequence of entries\<close>

definition mem_rel ::
  "(bytes \<Rightarrow> bytes \<Rightarrow> int) \<Rightarrow> (bytes \<Rightarrow> bool) \<Rightarrow> MemTable \<Rightarrow> mem_entry list \<Rightarrow> bool" where
  "mem_rel ucmp uvalid mem es \<longleftrightarrow>
     sl_rel (MemTable_KeyComparator ucmp) (mem_valid uvalid) (mem_table mem) (map entry_bytes es) \<and>
     (\<forall>e\<in>set es. entry_fits e \<and> uvalid (fst e))"

definition before_entry :: "(bytes \<Rightarrow> bytes \<Rightarrow> int) \<Rightarrow> mem_entry \<Rightarrow> mem_entry \<Rightarrow> bool" where
  "before_entry ucmp e e' = (InternalKeyComparator_Compare ucmp (entry_key e) (entry_key e') < 0)"

definition insert_entry ::
  "(bytes \<Rightarrow> bytes \<Rightarrow> int) \<Rightarrow> mem_entry \<Rightarrow> mem_entry list \<Rightarrow> mem_entry list" where
  "insert_entry ucmp e es =
     takeWhile (\<lambda>x. before_entry ucmp x e) es @ e # dropWhile (\<lambda>x. before_entry ucmp x e) es"

text \<open>The newest entry of a user key a snapshot sees: the first one in key order.\<close>

definition lookup_entry :: "bytes \<Rightarrow> SequenceNumber \<Rightarrow> mem_entry list \<Rightarrow> mem_entry option" where
  "lookup_entry u s es = find (\<lambda>(u', s', _, _). u' = u \<and> s' \<le> s) es"

definition get_result :: "mem_entry option \<Rightarrow> bytes \<Rightarrow> status \<Rightarrow> bool \<times> bytes \<times> status" where
  "get_result r value s =
     (case r of
        None \<Rightarrow> (False, value, s)
      | Some (_, _, kTypeValue, v) \<Rightarrow> (True, v, s)
      | Some (_, _, kTypeDeletion, _) \<Rightarrow> (True, value, NotFound []))"

context user_comparator
begin

lemma entry_valid:
  assumes "entry_fits e" "uvalid (fst e)"
  shows "mem_valid uvalid (entry_bytes e)"
proof -
  obtain u s t v where e: "e = (u, s, t, v)" by (cases e)
  have "entry_bytes e = length_prefixed (InternalKey_make u s t) @ length_prefixed v"
    by (simp only: e entry_bytes.simps MemTable_entry_eq append_assoc)
  moreover have "8 \<le> length (InternalKey_make u s t)" "length (InternalKey_make u s t) < 2 ^ 32"
    "uvalid (ExtractUserKey (InternalKey_make u s t))"
    using assms by (simp_all add: e InternalKey_make_eq)
  ultimately show ?thesis unfolding mem_valid_def by blast
qed

lemma entry_key_valid: "uvalid (fst e) \<Longrightarrow> ivalid (entry_key e)"
  by (cases e) (simp add: InternalKey_make_eq)

lemma entry_compare:
  assumes "entry_fits e" "entry_fits e'"
  shows "MemTable_KeyComparator ucmp (entry_bytes e) (entry_bytes e') = icmp (entry_key e) (entry_key e')"
proof -
  obtain u s t v u' s' t' v' where e: "e = (u, s, t, v)" "e' = (u', s', t', v')"
    by (cases e; cases e')
  then have "length (InternalKey_make u s t) < 2 ^ 32" "length (InternalKey_make u' s' t') < 2 ^ 32"
    using assms by simp_all
  from MemTable_KeyComparator_codec [OF this] show ?thesis
    by (simp only: e entry_bytes.simps entry_key.simps MemTable_entry_eq append_assoc)
qed

lemma mem_rel_make: "mem_rel ucmp uvalid MemTable_make []"
  by (simp add: mem_rel_def MemTable_make_def mem.sl_rel_make)

lemma mem_rel_sorted:
  assumes "mem_rel ucmp uvalid mem es"
  shows "sorted_wrt (before_entry ucmp) es" and "\<forall>e\<in>set es. entry_fits e \<and> uvalid (fst e)"
proof -
  show fits: "\<forall>e\<in>set es. entry_fits e \<and> uvalid (fst e)"
    using assms by (simp add: mem_rel_def)
  have "sorted_wrt (\<lambda>x y. MemTable_KeyComparator ucmp (entry_bytes x) (entry_bytes y) < 0) es"
    using mem.sl_rel_sorted(1) [of "mem_table mem" "map entry_bytes es"] assms
    by (simp add: mem_rel_def sorted_wrt_map)
  then show "sorted_wrt (before_entry ucmp) es"
    by (rule sorted_wrt_mono_rel [rotated]) (use fits in \<open>simp add: before_entry_def entry_compare\<close>)
qed

lemma mem_rel_Add:
  assumes rel: "mem_rel ucmp uvalid mem es" and e: "entry_fits (u, s, t, v)" "uvalid u"
    and new: "\<forall>e\<in>set es. entry_key e \<noteq> InternalKey_make u s t"
  obtains mem' where "MemTable_Add ucmp s t u v mem = Some mem'"
    and "mem_rel ucmp uvalid mem' (insert_entry ucmp (u, s, t, v) es)"
proof -
  let ?e = "(u, s, t, v)" and ?cmp = "MemTable_KeyComparator ucmp"
  have fits: "\<forall>e\<in>set es. entry_fits e \<and> uvalid (fst e)" using rel by (simp add: mem_rel_def)
  have neq: "?cmp (entry_bytes ?e) (entry_bytes e') \<noteq> 0" if "e' \<in> set es" for e'
  proof -
    have "ivalid (entry_key ?e)" "ivalid (entry_key e')"
      by (rule entry_key_valid, use that fits e in simp)+
    from ikey.cmp_eq_0 [OF this] have "icmp (entry_key ?e) (entry_key e') \<noteq> 0"
      using new that by (metis entry_key.simps)
    then show ?thesis
      using entry_compare [OF e(1), of e'] fits that by metis
  qed
  obtain sl' where ins: "SkipList_Insert ?cmp (entry_bytes ?e) (mem_table mem) = Some sl'"
    and rel': "sl_rel ?cmp (mem_valid uvalid) sl'
      (takeWhile (\<lambda>x. ?cmp x (entry_bytes ?e) < 0) (map entry_bytes es) @ entry_bytes ?e #
       dropWhile (\<lambda>x. ?cmp x (entry_bytes ?e) < 0) (map entry_bytes es))"
  proof (rule mem.sl_rel_Insert)
    show "sl_rel ?cmp (mem_valid uvalid) (mem_table mem) (map entry_bytes es)"
      using rel by (simp add: mem_rel_def)
    show "mem_valid uvalid (entry_bytes ?e)" by (rule entry_valid) (use e in simp_all)
    show "\<forall>x\<in>set (map entry_bytes es). ?cmp (entry_bytes ?e) x \<noteq> 0" using neq by auto
  qed
  have P: "?cmp (entry_bytes x) (entry_bytes ?e) < 0 \<longleftrightarrow> before_entry ucmp x ?e" if "x \<in> set es" for x
    using entry_compare [of x ?e] fits that e by (simp only: before_entry_def)
  have "takeWhile (\<lambda>x. ?cmp x (entry_bytes ?e) < 0) (map entry_bytes es) @ entry_bytes ?e #
       dropWhile (\<lambda>x. ?cmp x (entry_bytes ?e) < 0) (map entry_bytes es) =
      map entry_bytes (insert_entry ucmp ?e es)"
    using P by (simp add: insert_entry_def takeWhile_map dropWhile_map comp_def cong: takeWhile_cong dropWhile_cong)
  moreover have "\<forall>e\<in>set (insert_entry ucmp ?e es). entry_fits e \<and> uvalid (fst e)"
    using fits e by (auto simp add: insert_entry_def dest: set_takeWhileD set_dropWhileD)
  ultimately have "mem_rel ucmp uvalid (mem\<lparr>mem_table := sl'\<rparr>) (insert_entry ucmp ?e es)"
    using rel' by (simp add: mem_rel_def)
  moreover have "MemTable_Add ucmp s t u v mem = Some (mem\<lparr>mem_table := sl'\<rparr>)"
    using ins by (simp add: MemTable_Add_def)
  ultimately show thesis using that by blast
qed

end

text \<open>How \<^verbatim>\<open>Get\<close> reads the entry its search found.\<close>

definition get_entry ::
  "(bytes \<Rightarrow> bytes \<Rightarrow> int) \<Rightarrow> bytes \<Rightarrow> bytes \<Rightarrow> status \<Rightarrow> mem_entry \<Rightarrow> bool \<times> bytes \<times> status" where
  "get_entry ucmp u value st e = (if ucmp (fst e) u = 0 then get_result (Some e) value st else (False, value, st))"

lemma entry_parse:
  assumes "entry_fits (u, s, t, v)"
  shows "GetVarint32Ptr (take 5 (MemTable_entry s t u v)) =
      Some (of_nat (length u + 8), take (5 - length (EncodeVarint32 (of_nat (length u + 8))))
        (InternalKey_make u s t @ length_prefixed v))"
    and "drop (length (take 5 (MemTable_entry s t u v)) -
        length (take (5 - length (EncodeVarint32 (of_nat (length u + 8)))) (InternalKey_make u s t @ length_prefixed v)))
      (MemTable_entry s t u v) = InternalKey_make u s t @ length_prefixed v"
proof -
  define e rest where "e = EncodeVarint32 (of_nat (length u + 8))" and "rest = InternalKey_make u s t @ length_prefixed v"
  have entry: "MemTable_entry s t u v = e @ rest"
    by (simp add: MemTable_entry_eq e_def rest_def)
  have len: "length e \<le> 5" by (simp only: e_def length_EncodeVarint32_le)
  show "GetVarint32Ptr (take 5 (MemTable_entry s t u v)) = Some (of_nat (length u + 8),
      take (5 - length (EncodeVarint32 (of_nat (length u + 8)))) (InternalKey_make u s t @ length_prefixed v))"
    unfolding entry unfolding e_def rest_def take_varint_prefix by (rule GetVarint32Ptr_codec)
  show "drop (length (take 5 (MemTable_entry s t u v)) -
        length (take (5 - length (EncodeVarint32 (of_nat (length u + 8)))) (InternalKey_make u s t @ length_prefixed v)))
      (MemTable_entry s t u v) = InternalKey_make u s t @ length_prefixed v"
    unfolding entry e_def [symmetric] rest_def [symmetric] using len by (simp add: min_def)
qed

lemma unat_key_length:
  assumes "length u + 8 < 2 ^ 32"
  shows "unat (of_nat (length u + 8) - 8 :: u32) = length u" and "unat (of_nat (length u + 8) :: u32) = length u + 8"
proof -
  have "(of_nat (length u + 8) - 8 :: u32) = of_nat (length u)" by simp
  then show "unat (of_nat (length u + 8) - 8 :: u32) = length u"
    using assms by (simp only: unat_of_nat_u32)
  show "unat (of_nat (length u + 8) :: u32) = length u + 8"
    using assms by (rule unat_of_nat_u32)
qed

lemma and_0xff_ValueType:
  assumes "s \<le> kMaxSequenceNumber"
  shows "PackSequenceAndType s t AND 0xff = ValueType_num t"
proof -
  have m: "(0xff :: u64) = mask 8" by (simp add: mask_eq_exp_minus_1)
  have "unat (PackSequenceAndType s t AND mask 8) = unat (ValueType_num t)"
    using unat_ValueType_num [of t] unat_and_mask [of "PackSequenceAndType s t" 8]
    by (simp add: unat_PackSequenceAndType assms)
  then show ?thesis
    unfolding m by (simp only: word_unat_eq_iff)
qed

lemma MemTable_Get_entry:
  assumes seek: "Iterator_Seek (MemTable_KeyComparator ucmp) (mem_table mem)
      (LookupKey_memtable_key (LookupKey_make uk sk)) = Some (Some n)"
    and n: "key_of (mem_table mem) n = entry_bytes e" and fits: "entry_fits e"
  shows "MemTable_Get ucmp (LookupKey_make uk sk) value st mem = Some (get_entry ucmp uk value st e)"
proof -
  obtain u s t v where e: "e = (u, s, t, v)" by (cases e)
  have fits': "entry_fits (u, s, t, v)" and s: "s \<le> kMaxSequenceNumber" and u: "length u + 8 < 2 ^ 32"
    and v: "length v < 2 ^ 32"
    using fits by (simp_all add: e)
  have uk: "LookupKey_user_key (LookupKey_make uk sk) = uk"
    by (simp add: LookupKey_user_key_def LookupKey_make_def)
  have k: "Iterator_key (mem_table mem) (Some n) = MemTable_entry s t u v"
    using n by (simp add: Iterator_key_def e)
  have val: "MemTable_GetLengthPrefixedSlice (length_prefixed v) = Some (v, [])"
    using MemTable_GetLengthPrefixedSlice_codec [OF v, of "[]"] by simp
  have tag: "GetFixed64 (Fixed64 (PackSequenceAndType s t) @ length_prefixed v) = PackSequenceAndType s t"
    by simp
  show ?thesis
    unfolding MemTable_Get_def get_entry_def Let_def seek uk option.case k entry_parse [OF fits'] option.sel
      split_conv entry_parse(2) [OF fits'] unat_key_length [OF u]
    by (cases t) (simp_all add: Iterator_Valid_def
        InternalKey_make_eq e get_result_def and_0xff_ValueType [OF s] val tag)
qed

context user_comparator
begin

abbreviation seek_key :: "bytes \<Rightarrow> SequenceNumber \<Rightarrow> bytes" where
  "seek_key u s \<equiv> InternalKey_make u s kTypeValue"

lemma before_seek_iff:
  assumes "entry_fits (u', s', t, v)" "uvalid u'" "uvalid u" "s \<le> kMaxSequenceNumber"
  shows "icmp (entry_key (u', s', t, v)) (seek_key u s) < 0 \<longleftrightarrow> ucmp u' u < 0 \<or> u' = u \<and> s' > s"
  using icmp_make_less_iff [of u' u s' s t kTypeValue] assms by auto

lemma lookup_entry_seek:
  assumes "sorted_wrt (before_entry ucmp) es" "\<forall>e\<in>set es. entry_fits e \<and> uvalid (fst e)"
    and u: "uvalid u" "s \<le> kMaxSequenceNumber"
  shows "lookup_entry u s es =
    (case hd_opt (dropWhile (\<lambda>e. icmp (entry_key e) (seek_key u s) < 0) es) of
       None \<Rightarrow> None | Some e \<Rightarrow> if fst e = u then Some e else None)"
  using assms(1,2)
proof (induction es)
  case (Cons e es)
  obtain u' s' t v where e: "e = (u', s', t, v)" by (cases e)
  have iff: "icmp (entry_key e) (seek_key u s) < 0 \<longleftrightarrow> ucmp u' u < 0 \<or> u' = u \<and> s' > s"
    using before_seek_iff [of u' s' t v u s] Cons.prems u by (simp add: e)
  show ?case
  proof (cases "icmp (entry_key e) (seek_key u s) < 0")
    case True
    then have "\<not> (u' = u \<and> s' \<le> s)" using iff user.weak.cmp_irrefl u by auto
    then have "lookup_entry u s (e # es) = lookup_entry u s es"
      by (auto simp add: lookup_entry_def e)
    moreover have "dropWhile (\<lambda>e. icmp (entry_key e) (seek_key u s) < 0) (e # es) =
        dropWhile (\<lambda>e. icmp (entry_key e) (seek_key u s) < 0) es"
      using True by (simp only: dropWhile.simps if_True)
    ultimately show ?thesis using Cons by simp
  next
    case False
    show ?thesis
    proof (cases "u' = u")
      case True
      then show ?thesis using False iff by (simp add: lookup_entry_def e not_less)
    next
      case neq: False
      have "fst x \<noteq> u" if x: "x \<in> set es" for x
      proof
        assume "fst x = u"
        then obtain sx tx vx where x': "x = (u, sx, tx, vx)" by (cases x) auto
        have "before_entry ucmp e x" using Cons.prems x by simp
        then have "ucmp u' u \<le> 0"
          using Cons.prems u x icmp_user_key(1) [of "entry_key e" "entry_key x"]
          by (simp add: before_entry_def e x' InternalKey_make_eq)
        moreover have "uvalid u'" using Cons.prems by (simp add: e)
        ultimately show False using user.cmp_le_iff [OF _ u(1)] False iff neq by blast
      qed
      then have "lookup_entry u s es = None"
        by (fastforce simp add: lookup_entry_def find_None_iff)
      then show ?thesis using False neq by (simp add: lookup_entry_def e)
    qed
  qed
qed (simp add: lookup_entry_def)

lemma mem_rel_Get:
  assumes rel: "mem_rel ucmp uvalid mem es" and u: "uvalid u" "length u + 8 < 2 ^ 32"
    and s: "s \<le> kMaxSequenceNumber"
  shows "MemTable_Get ucmp (LookupKey_make u s) value st mem =
    Some (get_result (lookup_entry u s es) value st)"
proof -
  let ?cmp = "MemTable_KeyComparator ucmp"
  define mk where "mk = LookupKey_memtable_key (LookupKey_make u s)"
  have mk: "mk = length_prefixed (seek_key u s) @ []"
    by (simp add: mk_def LookupKey_memtable_key_def LookupKey_make_def InternalKey_make_eq kValueTypeForSeek_def)
  have len: "length (seek_key u s) < 2 ^ 32" using u by simp
  have fits: "\<forall>e\<in>set es. entry_fits e \<and> uvalid (fst e)" using mem_rel_sorted(2) [OF rel] .
  have valid: "mem_valid uvalid mk"
    unfolding mem_valid_def mk
    by (rule exI [of _ "seek_key u s"], rule exI [of _ "[]"]) (use u in \<open>simp add: InternalKey_make_eq\<close>)
  obtain node prev where find: "SkipList_FindGreaterOrEqual ?cmp (mem_table mem) mk None = Some (node, prev)"
    and node: "map_option (key_of (mem_table mem)) node = hd_opt (dropWhile (\<lambda>x. ?cmp x mk < 0) (map entry_bytes es))"
    by (rule mem.sl_rel_Seek [OF rel [unfolded mem_rel_def, THEN conjunct1] valid])
  have seek: "Iterator_Seek ?cmp (mem_table mem) (LookupKey_memtable_key (LookupKey_make u s)) = Some node"
    using find by (simp add: Iterator_Seek_def mk_def)
  have "?cmp (entry_bytes e) mk = icmp (entry_key e) (seek_key u s)" if "e \<in> set es" for e
  proof -
    obtain u' s' t v where e: "e = (u', s', t, v)" by (cases e)
    then have "length (InternalKey_make u' s' t) < 2 ^ 32" using fits that by auto
    then show ?thesis
      unfolding mk e entry_bytes.simps MemTable_entry_eq entry_key.simps
      by (rule MemTable_KeyComparator_codec [OF _ len])
  qed
  then have "dropWhile (\<lambda>x. ?cmp x mk < 0) (map entry_bytes es) =
      map entry_bytes (dropWhile (\<lambda>e. icmp (entry_key e) (seek_key u s) < 0) es)"
    by (simp add: dropWhile_map comp_def cong: dropWhile_cong)
  with node have node': "map_option (key_of (mem_table mem)) node =
      map_option entry_bytes (hd_opt (dropWhile (\<lambda>e. icmp (entry_key e) (seek_key u s) < 0) es))"
    by (simp add: map_option_hd_opt)
  note lookup = lookup_entry_seek [OF mem_rel_sorted [OF rel] u(1) s]
  show ?thesis
  proof (cases "hd_opt (dropWhile (\<lambda>e. icmp (entry_key e) (seek_key u s) < 0) es)")
    case None
    then have "node = None" using node' by simp
    then show ?thesis
      unfolding lookup None MemTable_Get_def Let_def seek by (simp add: Iterator_Valid_def get_result_def)
  next
    case (Some e)
    then obtain n where n: "node = Some n" "key_of (mem_table mem) n = entry_bytes e" using node' by auto
    have "e \<in> set es"
      using Some by (auto simp add: hd_opt_def split: list.splits dest: set_dropWhileD)
        (metis list.set_intros(1) set_dropWhileD)
    then have e: "entry_fits e" "uvalid (fst e)" using fits by auto
    have "ucmp (fst e) u = 0 \<longleftrightarrow> fst e = u" using user.cmp_eq_0 e u by simp
    then show ?thesis
      unfolding lookup Some MemTable_Get_entry [OF seek [unfolded n(1)] n(2) e(1)] get_entry_def
      by (simp add: get_result_def)
  qed
qed

text \<open>An entry newer than all others hides the older entries of its user key, and only those.\<close>

lemma lookup_insert_entry:
  assumes es: "\<forall>e\<in>set es. entry_fits e \<and> uvalid (fst e)" and e: "entry_fits (u', s', t, v)" "uvalid u'"
    and newest: "\<forall>e\<in>set es. fst (snd e) < s'"
  shows "lookup_entry u s (insert_entry ucmp (u', s', t, v) es) =
    (if u' = u \<and> s' \<le> s then Some (u', s', t, v) else lookup_entry u s es)"
proof -
  let ?B = "takeWhile (\<lambda>x. before_entry ucmp x (u', s', t, v)) es"
    and ?A = "dropWhile (\<lambda>x. before_entry ucmp x (u', s', t, v)) es"
  have "fst x \<noteq> u'" if "x \<in> set ?B" for x
  proof -
    obtain ux sx tx vx where x: "x = (ux, sx, tx, vx)" by (cases x)
    have "x \<in> set es" "before_entry ucmp x (u', s', t, v)" using set_takeWhileD [OF that] by auto
    then have "ucmp ux u' < 0 \<or> ux = u' \<and> (sx > s' \<or> sx = s' \<and> tx = kTypeValue \<and> t = kTypeDeletion)"
      using icmp_make_less_iff [of ux u' sx s' tx t] es e by (auto simp add: before_entry_def x)
    moreover have "sx < s'" using newest \<open>x \<in> set es\<close> by (auto simp add: x)
    ultimately show ?thesis using user.weak.cmp_irrefl [of u'] e by (auto simp add: x)
  qed
  then have B: "find (\<lambda>(x, s', _, _). x = u' \<and> s' \<le> s) ?B = None"
    by (fastforce simp add: find_None_iff)
  have split: "lookup_entry u s (xs @ ys) =
      (case lookup_entry u s xs of None \<Rightarrow> lookup_entry u s ys | Some e \<Rightarrow> Some e)" for xs ys
    unfolding lookup_entry_def by (induction xs) auto
  have "lookup_entry u s es = lookup_entry u s (?B @ ?A)" by simp
  then show ?thesis
    unfolding insert_entry_def split using B by (auto simp add: lookup_entry_def split: option.split)
qed

end

section \<open>Properties of the memtable\<close>

text \<open>C14. A lookup in a memtable ends and answers with the first entry of its user key, in key
  order, whose sequence number the snapshot sees: the value of a value entry, not-found for a
  deletion, and nothing when there is no such entry. Key order puts newer entries first.\<close>

theorem memtable_get:
  assumes "mem_rel BytewiseComparator_Compare (\<lambda>_. True) mem es"
    and "length u + 8 < 2 ^ 32" and "s \<le> kMaxSequenceNumber"
  shows "MemTable_Get BytewiseComparator_Compare (LookupKey_make u s) value st mem =
      Some (get_result (lookup_entry u s es) value st) \<and>
    sorted_wrt (before_entry BytewiseComparator_Compare) es"
  using bytewise.mem_rel_Get [OF assms(1) TrueI assms(2,3)] bytewise.mem_rel_sorted(1) [OF assms(1)] by simp

theorem memtable_get_witness:
  "MemTable_Get BytewiseComparator_Compare (LookupKey_make [97] 9) [] Status_OK MemTable_make =
     Some (False, [], Status_OK)"
  using memtable_get [OF bytewise.mem_rel_make, of "[97]" 9 "[]" Status_OK]
  by (simp add: kMaxSequenceNumber_def lookup_entry_def get_result_def)

text \<open>C22. Adding an entry under an internal key the memtable does not hold ends, inserts the entry
  at its place in key order and keeps the others; the entry takes exactly the bytes \<^verbatim>\<open>Add\<close>
  allocates for it.\<close>

theorem memtable_add:
  assumes "mem_rel BytewiseComparator_Compare (\<lambda>_. True) mem es" and "entry_fits (u, s, t, v)"
    and "\<forall>e\<in>set es. entry_key e \<noteq> InternalKey_make u s t"
  shows "length (MemTable_entry s t u v) = MemTable_encoded_len u v \<and>
    (\<exists>mem'. MemTable_Add BytewiseComparator_Compare s t u v mem = Some mem' \<and>
      mem_rel BytewiseComparator_Compare (\<lambda>_. True) mem'
        (insert_entry BytewiseComparator_Compare (u, s, t, v) es))"
  using MemTable_entry_length [of u v s t] assms(2)
  by (auto intro: bytewise.mem_rel_Add [OF assms(1,2) TrueI assms(3)])

theorem memtable_add_witness:
  "\<exists>mem'. MemTable_Add BytewiseComparator_Compare 7 kTypeValue [97] [98] MemTable_make = Some mem' \<and>
    mem_rel BytewiseComparator_Compare (\<lambda>_. True) mem' [([97], 7, kTypeValue, [98])]"
  using memtable_add [OF bytewise.mem_rel_make, of "[97]" 7 kTypeValue "[98]"]
  by (simp add: kMaxSequenceNumber_def insert_entry_def)

end
