(* ===== verification/Write_Batch.thy ===== *)
theory Write_Batch
  imports Memtable
begin

text \<open>
  \<^verbatim>\<open>db/write_batch.cc\<close>: a batch of updates, serialised as it is built. Its representation is an
  8-byte sequence number, a 4-byte count and the records. \<^verbatim>\<open>Iterate\<close> replays the records to a
  handler; the handler that matters, \<^verbatim>\<open>MemTableInserter\<close>, adds them to a memtable under
  consecutive sequence numbers.
\<close>

section \<open>The code\<close>

definition kHeader :: nat where
  "kHeader = 12"

text \<open>A batch is its representation \<^verbatim>\<open>rep_\<close>.\<close>

type_synonym WriteBatch = bytes

definition WriteBatch_Clear :: WriteBatch where
  "WriteBatch_Clear = replicate kHeader 0"

definition WriteBatchInternal_Count :: "WriteBatch \<Rightarrow> int" where
  "WriteBatchInternal_Count b = sint (GetFixed32 (drop 8 b))"

definition WriteBatchInternal_SetCount :: "int \<Rightarrow> WriteBatch \<Rightarrow> WriteBatch" where
  "WriteBatchInternal_SetCount n b = take 8 b @ Fixed32 (word_of_int n) @ drop 12 b"

definition WriteBatchInternal_Sequence :: "WriteBatch \<Rightarrow> SequenceNumber" where
  "WriteBatchInternal_Sequence b = GetFixed64 b"

definition WriteBatchInternal_SetSequence :: "SequenceNumber \<Rightarrow> WriteBatch \<Rightarrow> WriteBatch" where
  "WriteBatchInternal_SetSequence seq b = Fixed64 seq @ drop 8 b"

definition WriteBatch_Put :: "bytes \<Rightarrow> bytes \<Rightarrow> WriteBatch \<Rightarrow> WriteBatch" where
  "WriteBatch_Put key value b =
     (let rep = WriteBatchInternal_SetCount (WriteBatchInternal_Count b + 1) b;
          rep = rep @ [ucast (ValueType_num kTypeValue)];
          rep = PutLengthPrefixedSlice rep key
      in PutLengthPrefixedSlice rep value)"

definition WriteBatch_Delete :: "bytes \<Rightarrow> WriteBatch \<Rightarrow> WriteBatch" where
  "WriteBatch_Delete key b =
     (let rep = WriteBatchInternal_SetCount (WriteBatchInternal_Count b + 1) b;
          rep = rep @ [ucast (ValueType_num kTypeDeletion)]
      in PutLengthPrefixedSlice rep key)"

definition WriteBatchInternal_Append :: "WriteBatch \<Rightarrow> WriteBatch \<Rightarrow> WriteBatch" where
  "WriteBatchInternal_Append dst src =
     WriteBatchInternal_SetCount (WriteBatchInternal_Count dst + WriteBatchInternal_Count src) dst @
     drop kHeader src"

text \<open>
  The loop of \<^verbatim>\<open>Iterate\<close>: \<^const>\<open>Inl\<close> is an early return with its status, \<^const>\<open>Inr\<close> the
  number of records found. A handler is a pair of functions on its state.
\<close>

function WriteBatch_Iterate_loop ::
  "(bytes \<Rightarrow> bytes \<Rightarrow> 's \<Rightarrow> 's) \<Rightarrow> (bytes \<Rightarrow> 's \<Rightarrow> 's) \<Rightarrow> bytes \<Rightarrow> int \<Rightarrow> 's \<Rightarrow> (status + int) \<times> 's" where
  "WriteBatch_Iterate_loop put del [] found h = (Inr found, h)"
| "WriteBatch_Iterate_loop put del (tag # input) found h =
     (if tag = ucast (ValueType_num kTypeValue) then
        (case GetLengthPrefixedSlice input of
           (None, _) \<Rightarrow> (Inl (Corruption ''bad WriteBatch Put''), h)
         | (Some key, input1) \<Rightarrow>
             (case GetLengthPrefixedSlice input1 of
                (None, _) \<Rightarrow> (Inl (Corruption ''bad WriteBatch Put''), h)
              | (Some value, input2) \<Rightarrow>
                  WriteBatch_Iterate_loop put del input2 (found + 1) (put key value h)))
      else if tag = ucast (ValueType_num kTypeDeletion) then
        (case GetLengthPrefixedSlice input of
           (None, _) \<Rightarrow> (Inl (Corruption ''bad WriteBatch Delete''), h)
         | (Some key, input1) \<Rightarrow> WriteBatch_Iterate_loop put del input1 (found + 1) (del key h))
      else (Inl (Corruption ''unknown WriteBatch tag''), h))"
  by pat_completeness auto
termination
  by (relation "measure (\<lambda>(_, _, input, _, _). length input)")
    (auto dest!: GetLengthPrefixedSlice_length sym [of _ "GetLengthPrefixedSlice _"])

definition WriteBatch_Iterate ::
  "(bytes \<Rightarrow> bytes \<Rightarrow> 's \<Rightarrow> 's) \<Rightarrow> (bytes \<Rightarrow> 's \<Rightarrow> 's) \<Rightarrow> WriteBatch \<Rightarrow> 's \<Rightarrow> status \<times> 's" where
  "WriteBatch_Iterate put del b h =
     (if length b < kHeader then (Corruption ''malformed WriteBatch (too small)'', h)
      else
        (case WriteBatch_Iterate_loop put del (drop kHeader b) 0 h of
           (Inl s, h) \<Rightarrow> (s, h)
         | (Inr found, h) \<Rightarrow>
             if found \<noteq> WriteBatchInternal_Count b
             then (Corruption ''WriteBatch has wrong count'', h)
             else (Status_OK, h)))"

text \<open>The memtable of the inserter is \<^const>\<open>None\<close> once an insertion has not returned.\<close>

record MemTableInserter =
  ins_sequence :: SequenceNumber
  ins_mem :: "MemTable option"

definition MemTableInserter_Put ::
  "(bytes \<Rightarrow> bytes \<Rightarrow> int) \<Rightarrow> bytes \<Rightarrow> bytes \<Rightarrow> MemTableInserter \<Rightarrow> MemTableInserter" where
  "MemTableInserter_Put ucmp key value h =
     h\<lparr>ins_mem := Option.bind (ins_mem h) (MemTable_Add ucmp (ins_sequence h) kTypeValue key value),
       ins_sequence := ins_sequence h + 1\<rparr>"

definition MemTableInserter_Delete ::
  "(bytes \<Rightarrow> bytes \<Rightarrow> int) \<Rightarrow> bytes \<Rightarrow> MemTableInserter \<Rightarrow> MemTableInserter" where
  "MemTableInserter_Delete ucmp key h =
     h\<lparr>ins_mem := Option.bind (ins_mem h) (MemTable_Add ucmp (ins_sequence h) kTypeDeletion key []),
       ins_sequence := ins_sequence h + 1\<rparr>"

definition WriteBatchInternal_InsertInto ::
  "(bytes \<Rightarrow> bytes \<Rightarrow> int) \<Rightarrow> WriteBatch \<Rightarrow> MemTable \<Rightarrow> status \<times> MemTable option" where
  "WriteBatchInternal_InsertInto ucmp b mem =
     (let (s, h) = WriteBatch_Iterate (MemTableInserter_Put ucmp) (MemTableInserter_Delete ucmp) b
                     \<lparr>ins_sequence = WriteBatchInternal_Sequence b, ins_mem = Some mem\<rparr>
      in (s, ins_mem h))"

definition WriteBatchInternal_SetContents :: "bytes \<Rightarrow> WriteBatch" where
  "WriteBatchInternal_SetContents contents = contents"

definition WriteBatch_ApproximateSize :: "WriteBatch \<Rightarrow> nat" where
  "WriteBatch_ApproximateSize b = length b"

section \<open>Batches as lists of updates\<close>

datatype BatchOp = Op_Put bytes bytes | Op_Delete bytes

fun op_key :: "BatchOp \<Rightarrow> bytes" where
  "op_key (Op_Put k v) = k"
| "op_key (Op_Delete k) = k"

fun op_fits :: "BatchOp \<Rightarrow> bool" where
  "op_fits (Op_Put k v) = (length k + 8 < 2 ^ 32 \<and> length v < 2 ^ 32)"
| "op_fits (Op_Delete k) = (length k + 8 < 2 ^ 32)"

fun op_record :: "BatchOp \<Rightarrow> bytes" where
  "op_record (Op_Put k v) = 1 # length_prefixed k @ length_prefixed v"
| "op_record (Op_Delete k) = 0 # length_prefixed k"

fun op_write :: "BatchOp \<Rightarrow> WriteBatch \<Rightarrow> WriteBatch" where
  "op_write (Op_Put k v) b = WriteBatch_Put k v b"
| "op_write (Op_Delete k) b = WriteBatch_Delete k b"

fun op_handle :: "(bytes \<Rightarrow> bytes \<Rightarrow> 's \<Rightarrow> 's) \<Rightarrow> (bytes \<Rightarrow> 's \<Rightarrow> 's) \<Rightarrow> BatchOp \<Rightarrow> 's \<Rightarrow> 's" where
  "op_handle put del (Op_Put k v) h = put k v h"
| "op_handle put del (Op_Delete k) h = del k h"

definition batch_rel :: "WriteBatch \<Rightarrow> SequenceNumber \<Rightarrow> BatchOp list \<Rightarrow> bool" where
  "batch_rel b seq ops \<longleftrightarrow>
     b = Fixed64 seq @ Fixed32 (of_nat (length ops)) @ concat (map op_record ops)"

lemma batch_rel_Clear: "batch_rel WriteBatch_Clear 0 []"
  by (simp add: batch_rel_def WriteBatch_Clear_def kHeader_def EncodeFixed64_endian EncodeFixed32_endian
      object_bytes64_def object_bytes32_def numeral_eq_Suc)

lemma batch_rel_Count:
  assumes "batch_rel b seq ops" "length ops < 2 ^ 31"
  shows "WriteBatchInternal_Count b = int (length ops)"
proof -
  have "GetFixed32 (drop 8 b) = of_nat (length ops)"
    using assms(1) by (simp add: batch_rel_def)
  moreover have "sint (of_nat n :: u32) = int n" if "n < 2 ^ 31" for n
    using that by (simp add: signed_of_nat signed_take_bit_int_eq_self)
  ultimately show ?thesis using assms(2) by (simp add: WriteBatchInternal_Count_def)
qed

lemma batch_rel_SetCount:
  assumes "batch_rel b seq ops"
  shows "WriteBatchInternal_SetCount n b = Fixed64 seq @ Fixed32 (word_of_int n) @ concat (map op_record ops)"
  using assms by (simp add: batch_rel_def WriteBatchInternal_SetCount_def)

lemma batch_rel_write:
  assumes "batch_rel b seq ops" "length ops < 2 ^ 31"
  shows "batch_rel (op_write op b) seq (ops @ [op])"
proof -
  have "word_of_int (int (length ops) + 1) = (of_nat (Suc (length ops)) :: u32)" by simp
  then show ?thesis
    using batch_rel_SetCount [OF assms(1), of "int (length ops) + 1"] batch_rel_Count [OF assms]
    by (cases op) (simp_all add: batch_rel_def WriteBatch_Put_def WriteBatch_Delete_def
        PutLengthPrefixedSlice_eq Let_def)
qed

lemma batch_rel_fold_write:
  assumes "batch_rel b seq ys" "length ys + length xs < 2 ^ 31"
  shows "batch_rel (fold op_write xs b) seq (ys @ xs)"
  using assms
proof (induction xs arbitrary: ys b)
  case (Cons x xs)
  then have "batch_rel (op_write x b) seq (ys @ [x])" by (intro batch_rel_write) simp_all
  from Cons.IH [OF this] Cons.prems show ?case by simp
qed simp

lemma batch_rel_Append:
  assumes "batch_rel b seq ops" "batch_rel b' seq' ops'" "length ops < 2 ^ 31" "length ops' < 2 ^ 31"
  shows "batch_rel (WriteBatchInternal_Append b b') seq (ops @ ops')"
proof -
  have "drop kHeader b' = concat (map op_record ops')"
    using assms(2) by (simp add: batch_rel_def kHeader_def)
  moreover have "word_of_int (int (length ops) + int (length ops')) = (of_nat (length ops + length ops') :: u32)"
    by simp
  ultimately show ?thesis
    using batch_rel_SetCount [OF assms(1)] batch_rel_Count [OF assms(1,3)] batch_rel_Count [OF assms(2,4)]
    by (simp add: WriteBatchInternal_Append_def batch_rel_def)
qed

lemma batch_rel_SetSequence:
  assumes "batch_rel b seq ops"
  shows "batch_rel (WriteBatchInternal_SetSequence seq' b) seq' ops"
    and "WriteBatchInternal_Sequence b = seq"
  using assms by (simp_all add: batch_rel_def WriteBatchInternal_SetSequence_def WriteBatchInternal_Sequence_def)

lemma Iterate_loop_record:
  assumes "op_fits op"
  shows "WriteBatch_Iterate_loop put del (op_record op @ rest) found h =
    WriteBatch_Iterate_loop put del rest (found + 1) (op_handle put del op h)"
  using assms by (cases op) simp_all

lemma Iterate_loop_records:
  assumes "\<forall>op\<in>set ops. op_fits op"
  shows "WriteBatch_Iterate_loop put del (concat (map op_record ops)) found h =
    (Inr (found + int (length ops)), fold (op_handle put del) ops h)"
  using assms by (induction ops arbitrary: found h) (simp_all add: Iterate_loop_record)

lemma batch_rel_Iterate:
  assumes "batch_rel b seq ops" "length ops < 2 ^ 31" "\<forall>op\<in>set ops. op_fits op"
  shows "WriteBatch_Iterate put del b h = (Status_OK, fold (op_handle put del) ops h)"
proof -
  have "drop kHeader b = concat (map op_record ops)" "\<not> length b < kHeader"
    using assms(1) by (simp_all add: batch_rel_def kHeader_def)
  then show ?thesis
    using batch_rel_Count [OF assms(1,2)] Iterate_loop_records [OF assms(3), of put del 0 h]
    by (simp add: WriteBatch_Iterate_def)
qed

section \<open>Inserting a batch into a memtable\<close>

fun op_entry :: "SequenceNumber \<Rightarrow> BatchOp \<Rightarrow> mem_entry" where
  "op_entry seq (Op_Put k v) = (k, seq, kTypeValue, v)"
| "op_entry seq (Op_Delete k) = (k, seq, kTypeDeletion, [])"

text \<open>The newest entry visible at \<open>s\<close> once the updates are applied from \<open>seq\<close> on.\<close>

fun overlay ::
  "bytes \<Rightarrow> SequenceNumber \<Rightarrow> SequenceNumber \<Rightarrow> BatchOp list \<Rightarrow> mem_entry option \<Rightarrow> mem_entry option" where
  "overlay u s seq [] r = r"
| "overlay u s seq (op # ops) r =
     overlay u s (seq + 1) ops (if op_key op = u \<and> seq \<le> s then Some (op_entry seq op) else r)"

lemma op_entry_simps [simp]:
  "fst (op_entry seq op) = op_key op" "fst (snd (op_entry seq op)) = seq"
  by (cases op; simp)+

lemma op_entry_fits: "op_fits op \<Longrightarrow> seq \<le> kMaxSequenceNumber \<Longrightarrow> entry_fits (op_entry seq op)"
  by (cases op) simp_all

lemma op_handle_inserter:
  "op_handle (MemTableInserter_Put ucmp) (MemTableInserter_Delete ucmp) op h =
     (case op_entry (ins_sequence h) op of (u, s, t, v) \<Rightarrow>
        h\<lparr>ins_mem := Option.bind (ins_mem h) (MemTable_Add ucmp s t u v), ins_sequence := ins_sequence h + 1\<rparr>)"
  by (cases op) (simp_all add: MemTableInserter_Put_def MemTableInserter_Delete_def)

lemma seq_Suc:
  fixes seq :: SequenceNumber
  assumes "unat seq + Suc n \<le> 2 ^ 56"
  shows "seq \<le> kMaxSequenceNumber" "unat (seq + 1) = unat seq + 1" "x < seq \<Longrightarrow> x < seq + 1" "seq < seq + 1"
  using assms by (simp_all add: word_le_nat_alt word_less_nat_alt kMaxSequenceNumber_unat unat_word_ariths)

lemma entry_key_seq:
  assumes "entry_fits (u, s, t, v)" "entry_fits (u', s', t', v')" "s \<noteq> s'"
  shows "InternalKey_make u s t \<noteq> InternalKey_make u' s' t'"
  using assms by (auto simp add: InternalKey_make_eq PackSequenceAndType_inj)

context user_comparator
begin

lemma inserter_run:
  assumes "mem_rel ucmp uvalid mem es" and "\<forall>e\<in>set es. fst (snd e) < seq"
    and "unat seq + length ops \<le> 2 ^ 56" and "\<forall>op\<in>set ops. op_fits op \<and> uvalid (op_key op)"
  shows "\<exists>mem' es'. ins_mem (fold (op_handle (MemTableInserter_Put ucmp) (MemTableInserter_Delete ucmp)) ops
        \<lparr>ins_sequence = seq, ins_mem = Some mem\<rparr>) = Some mem' \<and>
      mem_rel ucmp uvalid mem' es' \<and> (\<forall>u s. lookup_entry u s es' = overlay u s seq ops (lookup_entry u s es))"
  using assms
proof (induction ops arbitrary: mem es seq)
  case (Cons op ops)
  obtain u s t v where e: "op_entry seq op = (u, s, t, v)" by (cases "op_entry seq op")
  have s: "s = seq" "u = op_key op" using op_entry_simps [of seq op] by (simp_all add: e)
  note seq = seq_Suc [of seq "length ops"]
  have fits: "entry_fits (u, s, t, v)" "uvalid u"
    using op_entry_fits [of op seq] Cons.prems seq e s by auto
  have es: "\<forall>e\<in>set es. entry_fits e \<and> uvalid (fst e)" using mem_rel_sorted(2) [OF Cons.prems(1)] .
  have "\<forall>e\<in>set es. entry_key e \<noteq> InternalKey_make u s t"
  proof
    fix e' assume e': "e' \<in> set es"
    obtain u' s' t' v' where e'_def: "e' = (u', s', t', v')" by (cases e')
    have "entry_fits (u', s', t', v')" "s' < s"
      using es Cons.prems(2) e' s(1) by (fastforce simp add: e'_def)+
    then show "entry_key e' \<noteq> InternalKey_make u s t"
      unfolding e'_def entry_key.simps by (intro entry_key_seq [OF _ fits(1)]) auto
  qed
  then obtain mem' where add: "MemTable_Add ucmp s t u v mem = Some mem'"
    and rel: "mem_rel ucmp uvalid mem' (insert_entry ucmp (u, s, t, v) es)"
    by (rule mem_rel_Add [OF Cons.prems(1) fits])
  have "\<forall>e\<in>set (insert_entry ucmp (u, s, t, v) es). fst (snd e) < seq + 1"
    using Cons.prems(2,3) seq s by (auto simp add: insert_entry_def dest!: set_takeWhileD set_dropWhileD)
  moreover have "unat (seq + 1) + length ops \<le> 2 ^ 56" using Cons.prems(3) seq by simp
  ultimately obtain mem2 es2 where run: "ins_mem (fold (op_handle (MemTableInserter_Put ucmp) (MemTableInserter_Delete ucmp)) ops
        \<lparr>ins_sequence = seq + 1, ins_mem = Some mem'\<rparr>) = Some mem2"
    and rel2: "mem_rel ucmp uvalid mem2 es2"
    and look: "\<forall>u' s'. lookup_entry u' s' es2 =
      overlay u' s' (seq + 1) ops (lookup_entry u' s' (insert_entry ucmp (u, s, t, v) es))"
    using Cons.IH [OF rel, of "seq + 1"] Cons.prems(4) by auto
  have "\<forall>u' s'. lookup_entry u' s' es2 = overlay u' s' seq (op # ops) (lookup_entry u' s' es)"
    using look lookup_insert_entry [OF es fits] Cons.prems(2) s e by (simp add: s)
  moreover have "op_handle (MemTableInserter_Put ucmp) (MemTableInserter_Delete ucmp) op
      \<lparr>ins_sequence = seq, ins_mem = Some mem\<rparr> = \<lparr>ins_sequence = seq + 1, ins_mem = Some mem'\<rparr>"
    using add by (simp add: op_handle_inserter e)
  ultimately show ?case
    using run rel2 by (simp only: fold_simps) blast
qed auto

end

lemma overlay_old:
  "s < seq \<Longrightarrow> unat seq + length ops \<le> 2 ^ 56 \<Longrightarrow> overlay u s seq ops r = r"
proof (induction ops arbitrary: seq)
  case (Cons op ops)
  then have "\<not> seq \<le> s" by simp
  then show ?case using Cons seq_Suc [of seq "length ops"] by simp
qed simp

definition op_result :: "BatchOp \<Rightarrow> bytes \<Rightarrow> status \<Rightarrow> bool \<times> bytes \<times> status" where
  "op_result op value st =
     (case op of Op_Put k v \<Rightarrow> (True, v, st) | Op_Delete k \<Rightarrow> (True, value, NotFound []))"

lemma get_result_op: "get_result (Some (op_entry seq op)) value st = op_result op value st"
  by (cases op) (simp_all add: get_result_def op_result_def)

lemma find_append: "find P (xs @ ys) = (case find P xs of None \<Rightarrow> find P ys | Some x \<Rightarrow> Some x)"
  by (induction xs) auto

lemma overlay_new:
  assumes "unat seq + length ops \<le> Suc (unat s)" "unat seq + length ops \<le> 2 ^ 56"
  shows "get_result (overlay u s seq ops r) value st =
     (case find (\<lambda>op. op_key op = u) (rev ops) of
        None \<Rightarrow> get_result r value st | Some op \<Rightarrow> op_result op value st)"
  using assms
proof (induction ops arbitrary: seq r)
  case (Cons op ops)
  have "seq \<le> s" using Cons.prems by (simp add: word_le_nat_alt)
  then show ?case
    using Cons seq_Suc [of seq "length ops"]
    by (simp add: find_append get_result_op split: option.split)
qed simp

section \<open>Properties of write batches\<close>

text \<open>C23. Replaying a batch calls the handler once for every update, in the order the updates were
  put into it, and reports success; batches are built by \<^verbatim>\<open>Put\<close> and \<^verbatim>\<open>Delete\<close> from the empty one,
  and \<^verbatim>\<open>Append\<close> joins two of them.\<close>

theorem write_batch_round_trip:
  assumes "length ops + length ops' < 2 ^ 31" "\<forall>op\<in>set (ops @ ops'). op_fits op"
  shows "WriteBatch_Iterate put del
      (WriteBatchInternal_Append (fold op_write ops WriteBatch_Clear) (fold op_write ops' WriteBatch_Clear)) h =
    (Status_OK, fold (op_handle put del) (ops @ ops') h)"
proof -
  have "batch_rel (WriteBatchInternal_Append (fold op_write ops WriteBatch_Clear) (fold op_write ops' WriteBatch_Clear))
      0 (ops @ ops')"
    using batch_rel_fold_write [OF batch_rel_Clear, of ops] batch_rel_fold_write [OF batch_rel_Clear, of ops'] assms(1)
    by (intro batch_rel_Append) simp_all
  then show ?thesis
    by (rule batch_rel_Iterate) (use assms in simp_all)
qed

theorem write_batch_round_trip_witness:
  "WriteBatch_Iterate (\<lambda>k v h. h @ [(k, Some v)]) (\<lambda>k h. h @ [(k, None)])
      (WriteBatchInternal_Append (WriteBatch_Put [1] [2] WriteBatch_Clear) (WriteBatch_Delete [3] WriteBatch_Clear)) [] =
    (Status_OK, [([1], Some [2]), ([3], None)])"
  using write_batch_round_trip [of "[Op_Put [1] [2]]" "[Op_Delete [3]]"
      "\<lambda>k v h. h @ [(k, Some v)]" "\<lambda>k h. h @ [(k, None)]" "[]"] by simp

text \<open>C6. Inserting a batch into a memtable whose entries are all older reports success and gives
  the updates consecutive sequence numbers: a reader at the batch's last sequence number or later
  sees, for each user key, its last update in the batch, a deletion as not found, and what the
  memtable held where the batch has no update; a reader at a snapshot before the batch sees the
  memtable unchanged.\<close>

theorem write_batch_insert:
  assumes mem: "mem_rel BytewiseComparator_Compare (\<lambda>_. True) mem es" "\<forall>e\<in>set es. fst (snd e) < seq"
    and ops: "length ops < 2 ^ 31" "\<forall>op\<in>set ops. op_fits op" "unat seq + length ops \<le> 2 ^ 56"
    and u: "length u + 8 < 2 ^ 32" "s \<le> kMaxSequenceNumber"
  shows "\<exists>mem'. WriteBatchInternal_InsertInto BytewiseComparator_Compare
      (WriteBatchInternal_SetSequence seq (fold op_write ops WriteBatch_Clear)) mem = (Status_OK, Some mem') \<and>
    (unat seq + length ops \<le> Suc (unat s) \<longrightarrow>
       MemTable_Get BytewiseComparator_Compare (LookupKey_make u s) value st mem' =
         (case find (\<lambda>op. op_key op = u) (rev ops) of
            None \<Rightarrow> MemTable_Get BytewiseComparator_Compare (LookupKey_make u s) value st mem
          | Some op \<Rightarrow> Some (op_result op value st))) \<and>
    (s < seq \<longrightarrow>
       MemTable_Get BytewiseComparator_Compare (LookupKey_make u s) value st mem' =
         MemTable_Get BytewiseComparator_Compare (LookupKey_make u s) value st mem)"
proof -
  define b where "b = WriteBatchInternal_SetSequence seq (fold op_write ops WriteBatch_Clear)"
  have "batch_rel (fold op_write ops WriteBatch_Clear) 0 ops"
    using batch_rel_fold_write [OF batch_rel_Clear, of ops] ops(1) by simp
  then have b: "batch_rel b seq ops" unfolding b_def by (rule batch_rel_SetSequence(1))
  obtain mem' es' where run: "ins_mem (fold (op_handle (MemTableInserter_Put BytewiseComparator_Compare)
        (MemTableInserter_Delete BytewiseComparator_Compare)) ops \<lparr>ins_sequence = seq, ins_mem = Some mem\<rparr>) = Some mem'"
    and mem': "mem_rel BytewiseComparator_Compare (\<lambda>_. True) mem' es'"
    and look: "\<forall>u s. lookup_entry u s es' = overlay u s seq ops (lookup_entry u s es)"
    using bytewise.inserter_run [OF mem ops(3)] ops(2) by auto
  have "WriteBatchInternal_InsertInto BytewiseComparator_Compare b mem = (Status_OK, Some mem')"
    using run by (simp add: WriteBatchInternal_InsertInto_def batch_rel_Iterate [OF b ops(1,2)]
        batch_rel_SetSequence(2) [OF b])
  then show ?thesis
    using bytewise.mem_rel_Get [OF mem' TrueI u, of "value" st] bytewise.mem_rel_Get [OF mem(1) TrueI u, of "value" st] look overlay_new [of seq ops s u "lookup_entry u s es" "value" st] ops(3)
      overlay_old [of s seq ops u "lookup_entry u s es"]
    by (auto simp add: b_def split: option.split)
qed

theorem write_batch_insert_witness:
  "\<exists>mem'. WriteBatchInternal_InsertInto BytewiseComparator_Compare
      (WriteBatchInternal_SetSequence 7 (WriteBatch_Delete [3] (WriteBatch_Put [1] [2] WriteBatch_Clear)))
      MemTable_make = (Status_OK, Some mem') \<and>
    MemTable_Get BytewiseComparator_Compare (LookupKey_make [1] 9) [] Status_OK mem' = Some (True, [2], Status_OK)"
proof -
  have "unat (7 :: u64) + length [Op_Put [1] [2], Op_Delete [3]] \<le> Suc (unat (9 :: u64))" by simp
  then show ?thesis
    using write_batch_insert [OF bytewise.mem_rel_make, of 7 "[Op_Put [1] [2], Op_Delete [3]]" "[1]" 9 "[]" Status_OK]
    by (auto simp add: kMaxSequenceNumber_def op_result_def)
qed

end
