(* ===== verification/File_Names.thy ===== *)
theory File_Names
  imports Slices "HOL-Library.Char_ord"
begin

text \<open>
  \<^verbatim>\<open>util/logging.cc\<close> and \<^verbatim>\<open>db/filename.cc\<close>: numbers in text and the names of the files of a
  database. Names are strings of characters; a character is read as an unsigned number, as the
  parser does. Building a name and parsing it are inverse, and the number parser accepts exactly the
  numbers of 64 bits.
\<close>

section \<open>Numbers and escaped strings\<close>

definition AppendNumberTo :: "string \<Rightarrow> u64 \<Rightarrow> string" where
  "AppendNumberTo str num = str @ decimal (unat num)"

definition NumberToString :: "u64 \<Rightarrow> string" where
  "NumberToString num = AppendNumberTo [] num"

text \<open>\<^verbatim>\<open>%02x\<close> of a byte.\<close>

definition hex_digit :: "nat \<Rightarrow> char" where
  "hex_digit d = (if d < 10 then char_of (48 + d) else char_of (87 + d))"

definition hex_byte :: "byte \<Rightarrow> string" where
  "hex_byte b = [hex_digit (unat b div 16), hex_digit (unat b mod 16)]"

text \<open>The characters of the slice are signed.\<close>

definition AppendEscapedStringTo :: "string \<Rightarrow> bytes \<Rightarrow> string" where
  "AppendEscapedStringTo str value =
     foldl (\<lambda>str c. if 32 \<le>s c \<and> c \<le>s 126 then str @ [char_of (unat c)]
                     else str @ [CHR 0x5C, CHR ''x''] @ hex_byte c) str value"

definition EscapeString :: "bytes \<Rightarrow> string" where
  "EscapeString value = AppendEscapedStringTo [] value"

definition kMaxUint64 :: u64 where
  "kMaxUint64 = - 1"

definition kLastDigitOfMaxUint64 :: nat where
  "kLastDigitOfMaxUint64 = 48 + unat (kMaxUint64 mod 10)"

text \<open>The loop stops at the first character that is not a digit; \<^const>\<open>None\<close> is the overflow.\<close>

fun ConsumeDecimalNumber_loop :: "string \<Rightarrow> u64 \<Rightarrow> nat \<Rightarrow> (string \<times> u64 \<times> nat) option" where
  "ConsumeDecimalNumber_loop [] num n = Some ([], num, n)"
| "ConsumeDecimalNumber_loop (c # cs) num n =
     (let ch = of_char c :: nat in
      if ch < 48 \<or> ch > 57 then Some (c # cs, num, n)
      else if num > kMaxUint64 div 10 \<or> num = kMaxUint64 div 10 \<and> ch > kLastDigitOfMaxUint64 then None
      else ConsumeDecimalNumber_loop cs (num * 10 + word_of_nat (ch - 48)) (n + 1))"

definition ConsumeDecimalNumber :: "string \<Rightarrow> (u64 \<times> string) option" where
  "ConsumeDecimalNumber input =
     (case ConsumeDecimalNumber_loop input 0 0 of
        None \<Rightarrow> None
      | Some (rest, num, digits_consumed) \<Rightarrow> if digits_consumed \<noteq> 0 then Some (num, rest) else None)"

section \<open>File names\<close>

datatype FileType = kLogFile | kDBLockFile | kTableFile | kDescriptorFile | kCurrentFile | kTempFile
  | kInfoLogFile | kVTableFile

text \<open>\<^verbatim>\<open>%06llu\<close> pads with zeros; every name fits the buffer of 100 characters.\<close>

definition padded :: "u64 \<Rightarrow> string" where
  "padded number = (let ds = decimal (unat number) in replicate (6 - length ds) (CHR ''0'') @ ds)"

definition MakeFileName :: "string \<Rightarrow> u64 \<Rightarrow> string \<Rightarrow> string" where
  "MakeFileName dbname number ext = dbname @ ''/'' @ padded number @ ''.'' @ ext"

definition LogFileName :: "string \<Rightarrow> u64 \<Rightarrow> string" where
  "LogFileName dbname number = MakeFileName dbname number ''log''"

definition TableFileName :: "string \<Rightarrow> u64 \<Rightarrow> string" where
  "TableFileName dbname number = MakeFileName dbname number ''ldb''"

definition VTableFileName :: "string \<Rightarrow> u64 \<Rightarrow> string" where
  "VTableFileName dbname number = MakeFileName dbname number ''vldb''"

definition SSTTableFileName :: "string \<Rightarrow> u64 \<Rightarrow> string" where
  "SSTTableFileName dbname number = MakeFileName dbname number ''sst''"

definition DescriptorFileName :: "string \<Rightarrow> u64 \<Rightarrow> string" where
  "DescriptorFileName dbname number = dbname @ ''/MANIFEST-'' @ padded number"

definition CurrentFileName :: "string \<Rightarrow> string" where
  "CurrentFileName dbname = dbname @ ''/CURRENT''"

definition LockFileName :: "string \<Rightarrow> string" where
  "LockFileName dbname = dbname @ ''/LOCK''"

definition TempFileName :: "string \<Rightarrow> u64 \<Rightarrow> string" where
  "TempFileName dbname number = MakeFileName dbname number ''dbtmp''"

definition InfoLogFileName :: "string \<Rightarrow> string" where
  "InfoLogFileName dbname = dbname @ ''/LOG''"

definition OldInfoLogFileName :: "string \<Rightarrow> string" where
  "OldInfoLogFileName dbname = dbname @ ''/LOG.old''"

definition DependencyGraphFileName :: "string \<Rightarrow> string" where
  "DependencyGraphFileName dbname = dbname @ ''/DEPENDENCY''"

definition ParseFileName :: "string \<Rightarrow> (u64 \<times> FileType) option" where
  "ParseFileName filename =
     (if filename = ''CURRENT'' then Some (0, kCurrentFile)
      else if filename = ''LOCK'' then Some (0, kDBLockFile)
      else if filename = ''LOG'' \<or> filename = ''LOG.old'' then Some (0, kInfoLogFile)
      else if prefix ''MANIFEST-'' filename then
        (case ConsumeDecimalNumber (drop (length ''MANIFEST-'') filename) of
           None \<Rightarrow> None
         | Some (num, rest) \<Rightarrow> if rest \<noteq> [] then None else Some (num, kDescriptorFile))
      else
        (case ConsumeDecimalNumber filename of
           None \<Rightarrow> None
         | Some (num, ext) \<Rightarrow>
             if ext = ''.log'' then Some (num, kLogFile)
             else if ext = ''.sst'' \<or> ext = ''.ldb'' then Some (num, kTableFile)
             else if ext = ''.vldb'' then Some (num, kVTableFile)
             else if ext = ''.dbtmp'' then Some (num, kTempFile)
             else None))"

section \<open>Digits\<close>

definition is_digit :: "char \<Rightarrow> bool" where
  "is_digit c \<longleftrightarrow> 48 \<le> (of_char c :: nat) \<and> (of_char c :: nat) \<le> 57"

definition digits_value :: "string \<Rightarrow> nat" where
  "digits_value ds = foldl (\<lambda>n c. n * 10 + (of_char c - 48)) 0 ds"

lemma digits_value_snoc [simp]: "digits_value (ds @ [c]) = digits_value ds * 10 + (of_char c - 48)"
  by (simp add: digits_value_def)

lemma digits_value_zeros [simp]: "digits_value (replicate k (CHR ''0'') @ ds) = digits_value ds"
  by (induction k) (simp_all add: digits_value_def)

lemma digit_of_nat: "n < 10 \<Longrightarrow> of_char (char_of (48 + n)) = 48 + n" for n :: nat
  by (simp add: of_char_of)

lemma is_digit_of_nat: "n < 10 \<Longrightarrow> is_digit (char_of (48 + n))" for n :: nat
  unfolding is_digit_def digit_of_nat by simp

lemma decimal_digits: "list_all is_digit (decimal n) \<and> digits_value (decimal n) = n \<and> decimal n \<noteq> []"
proof (induction n rule: decimal.induct)
  case (1 n)
  show ?case
  proof (cases "n < 10")
    case True
    then show ?thesis
      by (subst (1 2 3) decimal.simps) (simp add: is_digit_of_nat digit_of_nat digits_value_def)
  next
    case False
    then show ?thesis
      using 1 by (subst (1 2 3) decimal.simps) (simp add: is_digit_of_nat digit_of_nat)
  qed
qed

lemma padded_digits: "list_all is_digit (padded n) \<and> digits_value (padded n) = unat n \<and> padded n \<noteq> []"
  using decimal_digits [of "unat n"] by (auto simp add: padded_def Let_def list_all_iff is_digit_def)

section \<open>Parsing numbers\<close>

lemma foldl_digits_ge: "n \<le> foldl (\<lambda>n c. n * 10 + (of_char c - 48)) n ds" for n :: nat
proof (induction ds arbitrary: n)
  case (Cons c ds)
  show ?case
    using Cons.IH [of "n * 10 + (of_char c - 48)"] by simp
qed simp

lemma overflow_test:
  fixes num :: u64
  assumes "ch \<le> 57" "48 \<le> ch"
  shows "(num > kMaxUint64 div 10 \<or> num = kMaxUint64 div 10 \<and> ch > kLastDigitOfMaxUint64) \<longleftrightarrow>
    2 ^ 64 \<le> unat num * 10 + (ch - 48)"
proof -
  have max: "unat kMaxUint64 = 18446744073709551615"
    by (simp add: kMaxUint64_def unsigned_minus_1_eq_mask mask_eq_exp_minus_1)
  have "unat (kMaxUint64 div 10) = 1844674407370955161" "kLastDigitOfMaxUint64 = 53"
    unfolding kLastDigitOfMaxUint64_def unat_div unat_mod_distrib by (simp_all add: max)
  then show ?thesis
    using assms by (auto simp add: word_less_nat_alt word_unat_eq_iff)
qed

lemma ConsumeDecimalNumber_loop_value:
  "ConsumeDecimalNumber_loop s num n =
    (let ds = takeWhile is_digit s; v = foldl (\<lambda>n c. n * 10 + (of_char c - 48)) (unat num) ds
     in if v < 2 ^ 64 then Some (dropWhile is_digit s, word_of_nat v, n + length ds) else None)"
proof (induction s num n rule: ConsumeDecimalNumber_loop.induct)
  case (1 num n)
  have "unat num < 2 ^ LENGTH(64)" by (rule unsigned_less)
  then show ?case by simp
next
  case (2 c cs num n)
  let ?ch = "of_char c :: nat"
  have num: "unat num < 18446744073709551616"
    using unsigned_less [of num] by simp
  show ?case
  proof (cases "is_digit c")
    case False
    then show ?thesis
      using num by (auto simp add: is_digit_def)
  next
    case True
    then have ch: "?ch \<le> 57" "48 \<le> ?ch" "\<not> (?ch < 48 \<or> 57 < ?ch)"
      by (auto simp add: is_digit_def)
    show ?thesis
    proof (cases "2 ^ 64 \<le> unat num * 10 + (?ch - 48)")
      case True
      then show ?thesis
        using overflow_test [OF ch(1,2), of num] ch(3) \<open>is_digit c\<close>
          foldl_digits_ge [of "unat num * 10 + (?ch - 48)" "takeWhile is_digit cs"]
        by (simp add: Let_def)
    next
      case False
      then have over: "\<not> (num > kMaxUint64 div 10 \<or> num = kMaxUint64 div 10 \<and> ?ch > kLastDigitOfMaxUint64)"
        using overflow_test [OF ch(1,2), of num] by simp
      have "unat (num * 10 + word_of_nat (?ch - 48)) = unat num * 10 + (?ch - 48)"
        using False by (simp add: unat_word_ariths unsigned_of_nat take_bit_eq_mod del: of_nat_diff)
      moreover have "ConsumeDecimalNumber_loop (c # cs) num n =
          ConsumeDecimalNumber_loop cs (num * 10 + word_of_nat (?ch - 48)) (n + 1)"
        by (simp only: ConsumeDecimalNumber_loop.simps Let_def ch(3) over if_False)
      moreover have "ConsumeDecimalNumber_loop cs (num * 10 + word_of_nat (?ch - 48)) (n + 1) =
        (let ds = takeWhile is_digit cs;
             v = foldl (\<lambda>n c. n * 10 + (of_char c - 48)) (unat (num * 10 + word_of_nat (?ch - 48))) ds
         in if v < 2 ^ 64 then Some (dropWhile is_digit cs, word_of_nat v, n + 1 + length ds) else None)"
        by (rule 2 [OF refl ch(3) over])
      ultimately show ?thesis
        using \<open>is_digit c\<close> by (simp add: Let_def del: ConsumeDecimalNumber_loop.simps)
    qed
  qed
qed

lemma ConsumeDecimalNumber_value:
  "ConsumeDecimalNumber s =
    (let ds = takeWhile is_digit s
     in if ds = [] \<or> 2 ^ 64 \<le> digits_value ds then None
        else Some (word_of_nat (digits_value ds), dropWhile is_digit s))"
  by (simp add: ConsumeDecimalNumber_def ConsumeDecimalNumber_loop_value digits_value_def Let_def)

lemma ConsumeDecimalNumber_digits:
  assumes "list_all is_digit ds" "ds \<noteq> []" "rest = [] \<or> \<not> is_digit (hd rest)"
  shows "ConsumeDecimalNumber (ds @ rest) =
    (if digits_value ds < 2 ^ 64 then Some (word_of_nat (digits_value ds), rest) else None)"
proof -
  have "takeWhile is_digit rest = []" "dropWhile is_digit rest = rest"
    using assms(3) by (cases rest; simp)+
  then have "takeWhile is_digit (ds @ rest) = ds" "dropWhile is_digit (ds @ rest) = rest"
    using assms(1) by (simp_all add: list_all_iff takeWhile_append dropWhile_append)
  then show ?thesis
    using assms(2) by (simp add: ConsumeDecimalNumber_value Let_def)
qed

lemma ConsumeDecimalNumber_padded:
  assumes "rest = [] \<or> \<not> is_digit (hd rest)"
  shows "ConsumeDecimalNumber (padded n @ rest) = Some (n, rest)"
proof -
  have "unat n < 2 ^ LENGTH(64)" by (rule unsigned_less)
  then show ?thesis
    using ConsumeDecimalNumber_digits [OF _ _ assms] padded_digits [of n] by simp
qed

text \<open>C38. The number parser is exact: it takes the longest prefix of digits and gives its value,
  and it fails exactly if there are no digits or the value does not fit into 64 bits.\<close>

theorem consume_decimal_number:
  "ConsumeDecimalNumber s =
    (let ds = takeWhile is_digit s
     in if ds = [] \<or> 2 ^ 64 \<le> digits_value ds then None
        else Some (word_of_nat (digits_value ds), dropWhile is_digit s))"
  by (rule ConsumeDecimalNumber_value)

section \<open>Parsing names\<close>

lemma padded_not_special:
  "padded n @ rest \<noteq> ''CURRENT''" "padded n @ rest \<noteq> ''LOCK''" "padded n @ rest \<noteq> ''LOG''"
  "padded n @ rest \<noteq> ''LOG.old''" "\<not> prefix ''MANIFEST-'' (padded n @ rest)"
proof -
  obtain c cs where "padded n = c # cs" "is_digit c"
    using padded_digits [of n] by (cases "padded n") auto
  then show "padded n @ rest \<noteq> ''CURRENT''" "padded n @ rest \<noteq> ''LOCK''" "padded n @ rest \<noteq> ''LOG''"
    "padded n @ rest \<noteq> ''LOG.old''" "\<not> prefix ''MANIFEST-'' (padded n @ rest)"
    by (auto simp add: is_digit_def)
qed

lemma ParseFileName_numbered:
  "ParseFileName (padded n @ CHR ''.'' # ext) =
    (if ext = ''log'' then Some (n, kLogFile)
     else if ext = ''sst'' \<or> ext = ''ldb'' then Some (n, kTableFile)
     else if ext = ''vldb'' then Some (n, kVTableFile)
     else if ext = ''dbtmp'' then Some (n, kTempFile) else None)"
  using padded_not_special [of n "CHR ''.'' # ext"] ConsumeDecimalNumber_padded [of "CHR ''.'' # ext" n]
  by (simp add: ParseFileName_def is_digit_def)

text \<open>C37. The names of the files of a database parse back to their numbers and types, for every
  number of 64 bits; the name of the dependency graph is not a name the parser knows.\<close>

theorem file_name_round_trip:
  "ParseFileName (drop (length db + 1) (LogFileName db n)) = Some (n, kLogFile) \<and>
   ParseFileName (drop (length db + 1) (TableFileName db n)) = Some (n, kTableFile) \<and>
   ParseFileName (drop (length db + 1) (SSTTableFileName db n)) = Some (n, kTableFile) \<and>
   ParseFileName (drop (length db + 1) (VTableFileName db n)) = Some (n, kVTableFile) \<and>
   ParseFileName (drop (length db + 1) (TempFileName db n)) = Some (n, kTempFile) \<and>
   ParseFileName (drop (length db + 1) (DescriptorFileName db n)) = Some (n, kDescriptorFile) \<and>
   ParseFileName (drop (length db + 1) (CurrentFileName db)) = Some (0, kCurrentFile) \<and>
   ParseFileName (drop (length db + 1) (LockFileName db)) = Some (0, kDBLockFile) \<and>
   ParseFileName (drop (length db + 1) (InfoLogFileName db)) = Some (0, kInfoLogFile) \<and>
   ParseFileName (drop (length db + 1) (OldInfoLogFileName db)) = Some (0, kInfoLogFile) \<and>
   ParseFileName (drop (length db + 1) (DependencyGraphFileName db)) = None"
proof -
  have "ParseFileName (''MANIFEST-'' @ padded n) = Some (n, kDescriptorFile)"
    using ConsumeDecimalNumber_padded [of "[]" n] by (simp add: ParseFileName_def)
  then show ?thesis
    by (simp add: LogFileName_def TableFileName_def SSTTableFileName_def VTableFileName_def TempFileName_def
        MakeFileName_def DescriptorFileName_def CurrentFileName_def LockFileName_def InfoLogFileName_def
        OldInfoLogFileName_def DependencyGraphFileName_def ParseFileName_numbered)
      (simp add: ParseFileName_def ConsumeDecimalNumber_value is_digit_def)
qed

end
