(* ===== verification/Dependency_Graph.thy ===== *)
theory Dependency_Graph
  imports Coding "HOL-Library.AList"
begin

text \<open>
  \<^verbatim>\<open>impl/dependency.h\<close>: where the blocks of value tables have moved. \<^verbatim>\<open>DependencyGraph\<close> maps the
  location of a block to its next location and is kept in a file; \<^verbatim>\<open>Dependency\<close> is a union-find
  structure over file numbers. An unordered map is the list of its entries in some order; only the
  order in which the file lists the entries depends on it.
\<close>

section \<open>Block locations\<close>

record BlockRange =
  start_block :: u32
  end_block :: u32

definition BlockRange_Contains :: "BlockRange \<Rightarrow> u32 \<Rightarrow> bool" where
  "BlockRange_Contains r block_id = (block_id \<ge> start_block r \<and> block_id \<le> end_block r)"

definition BlockRange_Size :: "BlockRange \<Rightarrow> u32" where
  "BlockRange_Size r = end_block r - start_block r + 1"

record MappingEntry =
  new_file_number :: u64
  new_block_range :: BlockRange
  ref_count :: u32

record BlockLocation =
  file_number :: u64
  block_id :: u32

definition BlockLocation_eq :: "BlockLocation \<Rightarrow> BlockLocation \<Rightarrow> bool" where
  "BlockLocation_eq a b = (file_number a = file_number b \<and> block_id a = block_id b)"

definition BlockLocation_less :: "BlockLocation \<Rightarrow> BlockLocation \<Rightarrow> bool" where
  "BlockLocation_less a b =
     (if file_number a \<noteq> file_number b then file_number a < file_number b
      else block_id a < block_id b)"

type_synonym DependencyGraph = "(BlockLocation \<times> MappingEntry) list"

section \<open>Operations\<close>

text \<open>\<^verbatim>\<open>AddRangeMapping\<close> has the same body as \<^verbatim>\<open>AddMapping\<close>.\<close>

definition AddMapping_block :: "u64 \<Rightarrow> BlockRange \<Rightarrow> u64 \<Rightarrow> BlockRange \<Rightarrow> u32 \<Rightarrow> DependencyGraph \<Rightarrow> DependencyGraph" where
  "AddMapping_block origin_file origin_range new_file new_range i g =
     (let origin_loc = \<lparr>file_number = origin_file, block_id = start_block origin_range + i\<rparr>;
          single_block = \<lparr>start_block = start_block new_range + i, end_block = start_block new_range + i\<rparr>
      in AList.update origin_loc \<lparr>new_file_number = new_file, new_block_range = single_block, ref_count = 1\<rparr> g)"

definition AddMapping :: "u64 \<Rightarrow> BlockRange \<Rightarrow> u64 \<Rightarrow> BlockRange \<Rightarrow> DependencyGraph \<Rightarrow> DependencyGraph" where
  "AddMapping origin_file origin_range new_file new_range g =
     foldl (\<lambda>g i. AddMapping_block origin_file origin_range new_file new_range (word_of_nat i) g) g
       [0..<unat (BlockRange_Size origin_range)]"

definition AddRangeMapping :: "u64 \<Rightarrow> BlockRange \<Rightarrow> u64 \<Rightarrow> BlockRange \<Rightarrow> DependencyGraph \<Rightarrow> DependencyGraph" where
  "AddRangeMapping origin_file origin_range new_file new_range g =
     foldl (\<lambda>g i. AddMapping_block origin_file origin_range new_file new_range (word_of_nat i) g) g
       [0..<unat (BlockRange_Size origin_range)]"

definition max_redirect :: nat where
  "max_redirect = 10"

text \<open>The loop of \<^verbatim>\<open>LookupBlock\<close>; its first argument is the number of redirects that are left.\<close>

primrec LookupBlock_loop :: "nat \<Rightarrow> DependencyGraph \<Rightarrow> BlockLocation \<Rightarrow> BlockLocation \<Rightarrow> nat \<Rightarrow> bool \<times> BlockLocation \<times> nat" where
  "LookupBlock_loop 0 g original loc redirects = (True, loc, redirects)"
| "LookupBlock_loop (Suc n) g original loc redirects =
     (case map_of g loc of
        None \<Rightarrow> (file_number loc \<noteq> file_number original \<or> block_id loc \<noteq> block_id original, loc, redirects)
      | Some entry \<Rightarrow>
          let offset = block_id loc - block_id loc
          in if offset \<ge> BlockRange_Size (new_block_range entry)
             then (file_number loc \<noteq> file_number original \<or> block_id loc \<noteq> block_id original, loc, redirects)
             else LookupBlock_loop n g original
                    \<lparr>file_number = new_file_number entry, block_id = start_block (new_block_range entry) + offset\<rparr>
                    (redirects + 1))"

definition LookupBlock :: "u64 \<Rightarrow> u32 \<Rightarrow> DependencyGraph \<Rightarrow> bool \<times> BlockLocation \<times> nat" where
  "LookupBlock file block g =
     (let loc = \<lparr>file_number = file, block_id = block\<rparr> in LookupBlock_loop max_redirect g loc loc 0)"

definition DecrementRef :: "u64 \<Rightarrow> u32 \<Rightarrow> DependencyGraph \<Rightarrow> DependencyGraph" where
  "DecrementRef file block g =
     (let loc = \<lparr>file_number = file, block_id = block\<rparr> in
      case map_of g loc of
        None \<Rightarrow> g
      | Some entry \<Rightarrow>
          let entry = entry\<lparr>ref_count := ref_count entry - 1\<rparr>
          in if ref_count entry = 0 then AList.delete loc g else AList.update loc entry g)"

partial_function (option) DecrementRangeRef_loop ::
  "u64 \<Rightarrow> u32 \<Rightarrow> u32 \<Rightarrow> DependencyGraph \<Rightarrow> DependencyGraph option" where
  "DecrementRangeRef_loop file block last_block g =
     (if block \<le> last_block then DecrementRangeRef_loop file (block + 1) last_block (DecrementRef file block g)
      else Some g)"

definition DecrementRangeRef :: "u64 \<Rightarrow> BlockRange \<Rightarrow> DependencyGraph \<Rightarrow> DependencyGraph option" where
  "DecrementRangeRef file blocks g = DecrementRangeRef_loop file (start_block blocks) (end_block blocks) g"

definition GarbageCollect :: "DependencyGraph \<Rightarrow> nat \<times> DependencyGraph" where
  "GarbageCollect g =
     (length (filter (\<lambda>e. ref_count (snd e) = 0) g), filter (\<lambda>e. ref_count (snd e) \<noteq> 0) g)"

section \<open>The file\<close>

text \<open>
  The fields are written as they lie in memory. \<open>SaveToFile\<close> gives the new contents of the file, or
  \<^const>\<open>None\<close> when it cannot be opened; the stream reports no other error.
\<close>

definition mapping_bytes :: "BlockLocation \<times> MappingEntry \<Rightarrow> bytes" where
  "mapping_bytes e =
     (case e of (loc, entry) \<Rightarrow>
        object_bytes64 kLittleEndian (file_number loc) @ object_bytes32 kLittleEndian (block_id loc) @
        object_bytes64 kLittleEndian (new_file_number entry) @
        object_bytes32 kLittleEndian (start_block (new_block_range entry)) @
        object_bytes32 kLittleEndian (end_block (new_block_range entry)) @
        object_bytes32 kLittleEndian (ref_count entry))"

definition graph_bytes :: "DependencyGraph \<Rightarrow> bytes" where
  "graph_bytes g =
     object_bytes32 kLittleEndian 1 @ object_bytes32 kLittleEndian (word_of_nat (length g)) @
     concat (map mapping_bytes g)"

definition SaveToFile :: "bool \<Rightarrow> DependencyGraph \<Rightarrow> bool \<times> bytes option" where
  "SaveToFile can_open g = (if \<not> can_open then (False, None) else (True, Some (graph_bytes g)))"

text \<open>Reading a field fails when the rest of the file is too short.\<close>

definition read32 :: "bytes \<Rightarrow> (u32 \<times> bytes) option" where
  "read32 p = (if length p < 4 then None else Some (object_value32 kLittleEndian p, drop 4 p))"

definition read64 :: "bytes \<Rightarrow> (u64 \<times> bytes) option" where
  "read64 p = (if length p < 8 then None else Some (object_value64 kLittleEndian p, drop 8 p))"

definition read_mapping :: "bytes \<Rightarrow> ((BlockLocation \<times> MappingEntry) \<times> bytes) option" where
  "read_mapping p =
     (case read64 p of None \<Rightarrow> None | Some (file, p) \<Rightarrow>
     (case read32 p of None \<Rightarrow> None | Some (block, p) \<Rightarrow>
     (case read64 p of None \<Rightarrow> None | Some (new_file, p) \<Rightarrow>
     (case read32 p of None \<Rightarrow> None | Some (first, p) \<Rightarrow>
     (case read32 p of None \<Rightarrow> None | Some (final, p) \<Rightarrow>
     (case read32 p of None \<Rightarrow> None | Some (n, p) \<Rightarrow>
        Some ((\<lparr>file_number = file, block_id = block\<rparr>,
               \<lparr>new_file_number = new_file, new_block_range = \<lparr>start_block = first, end_block = final\<rparr>,
                ref_count = n\<rparr>), p)))))))"

primrec LoadFromFile_entries :: "nat \<Rightarrow> bytes \<Rightarrow> DependencyGraph \<Rightarrow> DependencyGraph option" where
  "LoadFromFile_entries 0 p g = Some g"
| "LoadFromFile_entries (Suc n) p g =
     (case read_mapping p of None \<Rightarrow> None
      | Some ((loc, entry), p) \<Rightarrow> LoadFromFile_entries n p (AList.update loc entry g))"

text \<open>
  \<open>contents\<close> is \<^const>\<open>None\<close> when the file cannot be opened for reading, and \<open>can_save\<close> tells whether it
  can be opened for writing. The result has the graph and the contents that the file is left with.
\<close>

definition LoadFromFile_reset :: "bool \<Rightarrow> bytes option \<Rightarrow> bool \<times> DependencyGraph \<times> bytes option" where
  "LoadFromFile_reset can_save contents =
     (let (saved, new_contents) = SaveToFile can_save [] in
      if \<not> saved then (False, [], contents) else (True, [], new_contents))"

definition LoadFromFile :: "bool \<Rightarrow> bytes option \<Rightarrow> bool \<times> DependencyGraph \<times> bytes option" where
  "LoadFromFile can_save contents =
     (case contents of
        None \<Rightarrow> LoadFromFile_reset can_save contents
      | Some p \<Rightarrow>
          (case read32 p of
             None \<Rightarrow> LoadFromFile_reset can_save contents
           | Some (version, p) \<Rightarrow>
               if version \<noteq> 1 then LoadFromFile_reset can_save contents
               else
                 (case read32 p of
                    None \<Rightarrow> LoadFromFile_reset can_save contents
                  | Some (n, p) \<Rightarrow>
                      (case LoadFromFile_entries (unat n) p [] of
                         None \<Rightarrow> LoadFromFile_reset can_save contents
                       | Some g \<Rightarrow> (True, g, contents)))))"

definition ApproxMemoryUsageBytes :: "nat \<Rightarrow> nat \<Rightarrow> DependencyGraph \<Rightarrow> nat" where
  "ApproxMemoryUsageBytes sizeof_location sizeof_entry g = length g * (sizeof_location + sizeof_entry)"

section \<open>Union-find over files\<close>

text \<open>
  \<open>FindParent\<close> compresses the path it follows. On a cyclic map it would not return.
\<close>

type_synonym dep_map = "(u64 \<times> u64) list"

partial_function (option) FindParent :: "u64 \<Rightarrow> dep_map \<Rightarrow> (u64 \<times> dep_map) option" where
  "FindParent child m =
     (let m = (if map_of m child = None then AList.update child child m else m);
          parent = the (map_of m child)
      in if parent \<noteq> child
         then Option.bind (FindParent parent m) (\<lambda>(root, m). Some (root, AList.update child root m))
         else Some (parent, m))"

definition SetParent :: "u64 \<Rightarrow> u64 \<Rightarrow> dep_map \<Rightarrow> dep_map option" where
  "SetParent parent child m =
     Option.bind (FindParent parent m) (\<lambda>(root1, m).
     Option.bind (FindParent child m) (\<lambda>(root2, m).
     if root1 = root2 then Some m else Some (AList.update root2 root1 m)))"

section \<open>Lookup\<close>

text \<open>
  The graphs that the operations build: every location has one entry, for a single block, that is
  referenced. \<open>follow\<close> takes one step of a chain of moves.
\<close>

definition graph_inv :: "DependencyGraph \<Rightarrow> bool" where
  "graph_inv g \<longleftrightarrow> distinct (map fst g) \<and>
     (\<forall>(loc, e)\<in>set g. start_block (new_block_range e) = end_block (new_block_range e) \<and> ref_count e \<noteq> 0)"

definition next_location :: "MappingEntry \<Rightarrow> BlockLocation" where
  "next_location e = \<lparr>file_number = new_file_number e, block_id = start_block (new_block_range e)\<rparr>"

definition follow :: "DependencyGraph \<Rightarrow> BlockLocation \<Rightarrow> BlockLocation option" where
  "follow g loc = map_option next_location (map_of g loc)"

inductive chain :: "DependencyGraph \<Rightarrow> BlockLocation \<Rightarrow> nat \<Rightarrow> BlockLocation \<Rightarrow> bool" for g where
  stay: "chain g loc 0 loc"
| move: "follow g loc = Some loc' \<Longrightarrow> chain g loc' n dest \<Longrightarrow> chain g loc (Suc n) dest"

lemma graph_invD: "graph_inv g \<Longrightarrow> map_of g loc = Some e \<Longrightarrow> BlockRange_Size (new_block_range e) = 1"
  by (auto simp add: graph_inv_def BlockRange_Size_def dest!: map_of_SomeD)

lemma location_neq:
  fixes a b :: BlockLocation
  shows "(file_number a \<noteq> file_number b \<or> block_id a \<noteq> block_id b) = (a \<noteq> b)"
  by (cases a; cases b) auto

lemma location_eta: "\<lparr>file_number = file_number loc, block_id = block_id loc\<rparr> = (loc :: BlockLocation)"
  by (cases loc) simp

lemma LookupBlock_loop_step:
  assumes "graph_inv g"
  shows "LookupBlock_loop (Suc n) g original loc r =
    (case follow g loc of None \<Rightarrow> (loc \<noteq> original, loc, r) | Some loc' \<Rightarrow> LookupBlock_loop n g original loc' (r + 1))"
  using graph_invD [OF assms, of loc]
  by (auto simp add: follow_def next_location_def location_neq split: option.splits)

lemma LookupBlock_loop_chain:
  assumes "graph_inv g" "chain g loc k dest" "k \<le> n"
  shows "LookupBlock_loop n g original loc r = LookupBlock_loop (n - k) g original dest (r + k)"
  using assms(2,3)
proof (induction arbitrary: n r rule: chain.induct)
  case (move loc loc' k dest)
  then obtain n' where "n = Suc n'" "k \<le> n'"
    by (cases n) auto
  then show ?case
    using move by (simp add: LookupBlock_loop_step [OF assms(1)] del: LookupBlock_loop.simps)
qed simp

lemma LookupBlock_chain:
  assumes "graph_inv g" "chain g loc k dest" "k \<le> 10"
  shows "LookupBlock (file_number loc) (block_id loc) g =
    (if k = 10 then (True, dest, 10) else LookupBlock_loop (Suc (9 - k)) g loc dest k)"
proof -
  have "LookupBlock (file_number loc) (block_id loc) g = LookupBlock_loop (10 - k) g loc dest k"
    using LookupBlock_loop_chain [OF assms, of loc 0] by (simp add: LookupBlock_def max_redirect_def location_eta Let_def)
  moreover have "k \<noteq> 10 \<Longrightarrow> 10 - k = Suc (9 - k)"
    using assms(3) by simp
  ultimately show ?thesis
    by (cases "k = 10") (simp_all del: LookupBlock_loop.simps(2))
qed

lemma LookupBlock_final:
  assumes "graph_inv g" "chain g loc k dest" "k < 10" "follow g dest = None"
  shows "LookupBlock (file_number loc) (block_id loc) g = (dest \<noteq> loc, dest, k)"
  using LookupBlock_chain [OF assms(1,2)] LookupBlock_loop_step [OF assms(1)] assms(3,4)
  by (simp del: LookupBlock_loop.simps)

text \<open>C30. A lookup follows the moves of a block: it returns the end of the chain of moves and its
  length whenever the chain has at most ten moves, and reports a redirection exactly if the block is
  not at its original place; for a longer chain it returns the place after the tenth move.\<close>

theorem lookup_follows_moves:
  assumes "graph_inv g" "chain g \<lparr>file_number = file, block_id = block\<rparr> k dest"
  shows "(k < 10 \<longrightarrow> follow g dest = None \<longrightarrow>
      LookupBlock file block g = (dest \<noteq> \<lparr>file_number = file, block_id = block\<rparr>, dest, k)) \<and>
    (k = 10 \<longrightarrow> LookupBlock file block g = (True, dest, 10))"
  using LookupBlock_final [OF assms] LookupBlock_chain [OF assms] by simp

theorem lookup_follows_moves_witness:
  "LookupBlock 100 5
     [(\<lparr>file_number = 100, block_id = 5\<rparr>, \<lparr>new_file_number = 200, new_block_range = \<lparr>start_block = 10, end_block = 10\<rparr>, ref_count = 1\<rparr>),
      (\<lparr>file_number = 200, block_id = 10\<rparr>, \<lparr>new_file_number = 300, new_block_range = \<lparr>start_block = 7, end_block = 7\<rparr>, ref_count = 1\<rparr>)] =
     (True, \<lparr>file_number = 300, block_id = 7\<rparr>, 2)"
  (is "LookupBlock 100 5 ?g = _")
proof -
  have "chain ?g \<lparr>file_number = 100, block_id = 5\<rparr> (Suc (Suc 0)) \<lparr>file_number = 300, block_id = 7\<rparr>"
    by (rule chain.move, simp add: follow_def next_location_def)+ (rule chain.stay)
  then have "chain ?g \<lparr>file_number = 100, block_id = 5\<rparr> 2 \<lparr>file_number = 300, block_id = 7\<rparr>"
    by (simp only: numeral_2_eq_2)
  moreover have "graph_inv ?g"
    by (simp add: graph_inv_def)
  ultimately show ?thesis
    using lookup_follows_moves [of ?g 100 5 2 "\<lparr>file_number = 300, block_id = 7\<rparr>"]
    by (simp add: follow_def)
qed

section \<open>The operations keep the graph well formed\<close>

lemma graph_inv_update:
  assumes "graph_inv g" "start_block (new_block_range e) = end_block (new_block_range e)" "ref_count e \<noteq> 0"
  shows "graph_inv (AList.update loc e g)"
proof -
  have "set (AList.update loc e g) \<subseteq> insert (loc, e) (set g)"
    by (induction g) (auto split: if_splits)
  then show ?thesis
    using assms unfolding graph_inv_def by (auto intro: distinct_update)
qed

lemma graph_inv_filter: "graph_inv g \<Longrightarrow> graph_inv (filter P g)"
  by (auto simp add: graph_inv_def distinct_map_filter)

lemma graph_inv_AddMapping_block: "graph_inv g \<Longrightarrow> graph_inv (AddMapping_block f r f' r' i g)"
  by (simp add: AddMapping_block_def graph_inv_update)

lemma graph_inv_DecrementRef:
  assumes "graph_inv g"
  shows "graph_inv (DecrementRef file block g)"
proof (cases "map_of g \<lparr>file_number = file, block_id = block\<rparr>")
  case None
  then show ?thesis
    using assms by (simp add: DecrementRef_def)
next
  case (Some e)
  then have "start_block (new_block_range e) = end_block (new_block_range e)"
    using assms by (auto simp add: graph_inv_def dest!: map_of_SomeD)
  then show ?thesis
    using assms Some by (auto simp add: DecrementRef_def Let_def graph_inv_update AList.delete_eq graph_inv_filter)
qed

lemma graph_inv_AddMapping: "graph_inv g \<Longrightarrow> graph_inv (AddMapping f r f' r' g)"
proof -
  have "graph_inv g \<Longrightarrow> graph_inv (foldl (\<lambda>g i. AddMapping_block f r f' r' (word_of_nat i) g) g xs)" for xs
    by (induction xs arbitrary: g) (simp_all add: graph_inv_AddMapping_block)
  then show "graph_inv g \<Longrightarrow> graph_inv (AddMapping f r f' r' g)"
    by (simp add: AddMapping_def)
qed

lemma DecrementRangeRef_loop_inv:
  "DecrementRangeRef_loop fl block final g = Some g' \<Longrightarrow> graph_inv g \<longrightarrow> graph_inv g'"
  by (rule DecrementRangeRef_loop.raw_induct [where P = "\<lambda>_ _ _ g g'. graph_inv g \<longrightarrow> graph_inv g'", rotated], assumption)
    (metis graph_inv_DecrementRef option.sel)

inductive graph_reach :: "DependencyGraph \<Rightarrow> bool" where
  empty: "graph_reach []"
| add: "graph_reach g \<Longrightarrow> graph_reach (AddMapping f r f' r' g)"
| add_range: "graph_reach g \<Longrightarrow> graph_reach (AddRangeMapping f r f' r' g)"
| decrement: "graph_reach g \<Longrightarrow> graph_reach (DecrementRef fl block g)"
| decrement_range: "graph_reach g \<Longrightarrow> DecrementRangeRef fl blocks g = Some g' \<Longrightarrow> graph_reach g'"
| collect: "graph_reach g \<Longrightarrow> graph_reach (snd (GarbageCollect g))"



text \<open>C34. Dropping the references of a range of blocks ends exactly if the range does not reach the
  largest block number: the loop counter of a range that ends there wraps around and the loop runs
  forever.\<close>

theorem decrement_range_terminates:
  "DecrementRangeRef fl blocks g \<noteq> None \<longleftrightarrow> end_block blocks \<noteq> 0xffffffff"
proof -
  have none: "DecrementRangeRef_loop fl block final g = Some g' \<Longrightarrow> final \<noteq> - 1" for block final g g'
    by (rule DecrementRangeRef_loop.raw_induct [where P = "\<lambda>_ _ final _ _. final \<noteq> - 1", rotated], assumption)
      (metis word_order.extremum)
  have some: "DecrementRangeRef_loop fl block final g \<noteq> None" if "final \<noteq> - 1" for block final g
  proof (induction "unat final + 1 - unat block" arbitrary: block g)
    case 0
    then have "\<not> block \<le> final"
      by (simp add: word_le_nat_alt)
    then show ?case
      by (subst DecrementRangeRef_loop.simps) simp
  next
    case (Suc n)
    then have le: "block \<le> final"
      by (simp add: word_le_nat_alt)
    then have "block \<noteq> - 1"
      using that word_order.extremum_uniqueI by blast
    then have "1 + block \<noteq> 0"
      by (metis add.commute eq_neg_iff_add_eq_0)
    then have "unat (block + 1) = unat block + 1"
      using unatSuc [of block] by (simp add: add.commute)
    then have "DecrementRangeRef_loop fl (block + 1) final (DecrementRef fl block g) \<noteq> None"
      using Suc by (intro Suc(1)) simp
    then show ?case
      using le by (subst DecrementRangeRef_loop.simps) simp
  qed
  have max: "(- 1 :: u32) = 0xffffffff"
    by (simp add: word_unat_eq_iff unsigned_minus_1_eq_mask mask_eq_exp_minus_1)
  show ?thesis
    unfolding max [symmetric] DecrementRangeRef_def using none some by blast
qed

section \<open>Saving and loading\<close>

lemma length_object_bytes [simp]: "length (object_bytes32 le v) = 4" "length (object_bytes64 le w) = 8"
  by (simp_all add: object_bytes32_def object_bytes64_def Let_def)

lemma read_fields [simp]:
  "read32 (object_bytes32 kLittleEndian v @ p) = Some (v, p)"
  "read64 (object_bytes64 kLittleEndian w @ p) = Some (w, p)"
  by (simp_all add: read32_def read64_def kLittleEndian_def object_value32_bytes object_value64_bytes)

lemma length_mapping_bytes [simp]: "length (mapping_bytes e) = 32"
  by (cases e) (simp add: mapping_bytes_def)

lemma read_mapping_bytes [simp]: "read_mapping (mapping_bytes e @ p) = Some (e, p)"
  by (cases e) (simp add: mapping_bytes_def read_mapping_def)

lemma read_mapping_short: "length p < 32 \<Longrightarrow> read_mapping p = None"
  by (auto simp add: read_mapping_def read32_def read64_def split: option.split if_splits)

lemma update_fresh: "k \<notin> fst ` set al \<Longrightarrow> AList.update k v al = al @ [(k, v)]"
  by (induction al) auto

lemma load_entries:
  assumes "distinct (map fst (acc @ g))"
  shows "LoadFromFile_entries (length g) (concat (map mapping_bytes g) @ p) acc = Some (acc @ g)"
  using assms
proof (induction g arbitrary: acc)
  case (Cons e g)
  then have "AList.update (fst e) (snd e) acc = acc @ [e]"
    by (simp add: update_fresh)
  then show ?case
    using Cons.IH [of "acc @ [e]"] Cons.prems by (cases e) simp
qed simp

lemma load_entries_short:
  "k < length (concat (map mapping_bytes g)) \<Longrightarrow>
   LoadFromFile_entries (length g) (take k (concat (map mapping_bytes g))) acc = None"
proof (induction g arbitrary: k acc)
  case (Cons e g)
  show ?case
  proof (cases "k < 32")
    case True
    then show ?thesis
      by (simp add: read_mapping_short)
  next
    case False
    then show ?thesis
      using Cons by (cases e) (simp add: less_diff_conv2)
  qed
qed simp

text \<open>C32. A saved graph is loaded unchanged; but if the file lost any bytes at its end, loading
  reports success with an empty graph and overwrites the file with it.\<close>

theorem graph_save_load:
  assumes "graph_inv g" "length g < 2 ^ 32" "SaveToFile True g = (ok, contents)"
  shows "ok \<and> LoadFromFile can_save contents = (True, g, contents) \<and>
    (k < length (the contents) \<longrightarrow>
      LoadFromFile True (Some (take k (the contents))) = (True, [], Some (graph_bytes [])))"
proof -
  let ?body = "concat (map mapping_bytes g)"
  have c: "ok" "contents = Some (object_bytes32 kLittleEndian 1 @ object_bytes32 kLittleEndian (word_of_nat (length g)) @ ?body)"
    using assms(3) by (auto simp add: SaveToFile_def graph_bytes_def)
  have n: "unat (word_of_nat (length g) :: u32) = length g"
    using assms(2) by (simp add: unsigned_of_nat take_bit_nat_eq_self)
  have "LoadFromFile_entries (length g) ?body [] = Some g"
    using load_entries [of "[]" g "[]"] assms(1) by (simp add: graph_inv_def)
  then have load: "LoadFromFile can_save contents = (True, g, contents)"
    by (simp add: LoadFromFile_def c n)
  have "LoadFromFile True (Some (take k (the contents))) = (True, [], Some (graph_bytes []))" if k: "k < length (the contents)"
  proof -
    consider "k < 4" | "4 \<le> k" "k < 8" | "8 \<le> k" by linarith
    then show ?thesis
    proof cases
      case 1
      then show ?thesis
        by (simp add: LoadFromFile_def read32_def LoadFromFile_reset_def SaveToFile_def c)
    next
      case 2
      then have "take k (the contents) = object_bytes32 kLittleEndian 1 @ take (k - 4) (object_bytes32 kLittleEndian (word_of_nat (length g)) @ ?body)"
        by (simp add: c)
      moreover have "read32 (take (k - 4) (object_bytes32 kLittleEndian (word_of_nat (length g)) @ ?body)) = None"
        using 2 by (simp add: read32_def)
      ultimately show ?thesis
        by (simp add: LoadFromFile_def LoadFromFile_reset_def SaveToFile_def)
    next
      case 3
      then have "take k (the contents) =
          object_bytes32 kLittleEndian 1 @ object_bytes32 kLittleEndian (word_of_nat (length g)) @ take (k - 8) ?body"
        by (simp add: c)
      moreover have "LoadFromFile_entries (length g) (take (k - 8) ?body) [] = None"
        using 3 k c by (intro load_entries_short) simp
      ultimately show ?thesis
        by (simp add: LoadFromFile_def LoadFromFile_reset_def SaveToFile_def n)
    qed
  qed
  with c(1) load show ?thesis by blast
qed

theorem graph_save_load_witness:
  "\<exists>g contents. length g = 2 \<and> SaveToFile True g = (True, Some contents) \<and>
     LoadFromFile True (Some contents) = (True, g, Some contents) \<and>
     LoadFromFile True (Some (take 9 contents)) = (True, [], Some (graph_bytes []))"
proof -
  let ?g = "AddMapping 100 \<lparr>start_block = 5, end_block = 6\<rparr> 200 \<lparr>start_block = 10, end_block = 11\<rparr> []"
  have len: "length ?g = 2"
    by (simp add: AddMapping_def AddMapping_block_def BlockRange_Size_def Let_def upt_rec)
  then have "9 < length (graph_bytes ?g)"
    by (cases ?g) (simp_all add: graph_bytes_def)
  moreover have "graph_inv ?g"
    by (intro graph_inv_AddMapping) (simp add: graph_inv_def)
  ultimately show ?thesis
    using graph_save_load [of ?g True "Some (graph_bytes ?g)" True 9] len by (auto simp add: SaveToFile_def)
qed

section \<open>Adding mappings\<close>

lemma map_of_AddMapping_fold:
  assumes "n \<le> 2 ^ 32"
  shows "map_of (foldl (\<lambda>g i. AddMapping_block f r f' r' (word_of_nat i) g) g [0..<n]) loc =
    (let i = block_id loc - start_block r in
     if file_number loc = f \<and> unat i < n
     then Some \<lparr>new_file_number = f', new_block_range = \<lparr>start_block = start_block r' + i, end_block = start_block r' + i\<rparr>,
                ref_count = 1\<rparr>
     else map_of g loc)"
  using assms
proof (induction n)
  case (Suc n)
  let ?i = "block_id loc - start_block r"
  have n: "unat (word_of_nat n :: u32) = n"
    using Suc.prems by (simp add: unsigned_of_nat take_bit_nat_eq_self)
  have loc: "\<lparr>file_number = f, block_id = start_block r + word_of_nat n\<rparr> = loc \<longleftrightarrow> file_number loc = f \<and> unat ?i = n"
  proof -
    have "block_id loc = start_block r + word_of_nat n \<longleftrightarrow> ?i = word_of_nat n"
      by (metis add_diff_cancel_left' diff_add_cancel add.commute)
    also have "\<dots> \<longleftrightarrow> unat ?i = n"
      using n by (metis of_nat_unat word_unat_eq_iff)
    finally show ?thesis
      by (cases loc) auto
  qed
  have i: "unat ?i = n \<Longrightarrow> word_of_nat n = ?i"
    using n by (simp add: word_unat_eq_iff)
  show ?case
    using Suc loc i by (auto simp add: AddMapping_block_def update_conv' Let_def)
qed simp

text \<open>After a range of blocks has been recorded as moved to blocks of another file that have
  not moved themselves, every block of the range is found at its place in the new file after one
  redirect, and the entries of all other blocks are as before.\<close>

lemma add_mapping_lookup:
  assumes "graph_inv g" "f' \<noteq> f" "i < BlockRange_Size r"
    and "map_of g \<lparr>file_number = f', block_id = start_block r' + i\<rparr> = None"
  shows "LookupBlock f (start_block r + i) (AddMapping f r f' r' g) =
      (True, \<lparr>file_number = f', block_id = start_block r' + i\<rparr>, 1) \<and>
    (file_number loc \<noteq> f \<or> block_id loc - start_block r \<ge> BlockRange_Size r \<longrightarrow>
      map_of (AddMapping f r f' r' g) loc = map_of g loc)"
proof -
  let ?g = "AddMapping f r f' r' g" and ?from = "\<lparr>file_number = f, block_id = start_block r + i\<rparr>"
    and ?to = "\<lparr>file_number = f', block_id = start_block r' + i\<rparr>"
  have "unat (BlockRange_Size r) < 2 ^ LENGTH(32)"
    by (rule unsigned_less)
  then have size: "unat (BlockRange_Size r) \<le> 2 ^ 32"
    by simp
  have map: "map_of ?g loc =
      (let i = block_id loc - start_block r in
       if file_number loc = f \<and> i < BlockRange_Size r
       then Some \<lparr>new_file_number = f', new_block_range = \<lparr>start_block = start_block r' + i, end_block = start_block r' + i\<rparr>,
                  ref_count = 1\<rparr>
       else map_of g loc)" for loc
    using map_of_AddMapping_fold [OF size, of f r f' r' g loc] by (simp add: AddMapping_def word_less_nat_alt Let_def)
  have follow: "follow ?g ?from = Some ?to" "follow ?g ?to = None"
    using assms(2-4) by (simp_all add: follow_def map next_location_def)
  then have "chain ?g ?from (Suc 0) ?to"
    using chain.move chain.stay by blast
  then have "LookupBlock f (start_block r + i) ?g = (True, ?to, 1)"
    using LookupBlock_final [OF graph_inv_AddMapping [OF assms(1)], of f r f' r' ?from 1 ?to] follow(2) assms(2) by simp
  then show ?thesis
    by (auto simp add: map Let_def dest: leD)
qed

section \<open>Union-find\<close>

text \<open>
  A number without an entry is its own parent. \<open>root_of m x r\<close>: following the parents from \<open>x\<close> ends
  at \<open>r\<close>. A map where that holds of every number is a forest.
\<close>

definition parent_of :: "dep_map \<Rightarrow> u64 \<Rightarrow> u64" where
  "parent_of m x = (case map_of m x of None \<Rightarrow> x | Some y \<Rightarrow> y)"

inductive root_of :: "dep_map \<Rightarrow> u64 \<Rightarrow> u64 \<Rightarrow> bool" for m where
  root: "parent_of m x = x \<Longrightarrow> root_of m x x"
| step: "parent_of m x \<noteq> x \<Longrightarrow> root_of m (parent_of m x) r \<Longrightarrow> root_of m x r"

definition forest :: "dep_map \<Rightarrow> bool" where
  "forest m \<longleftrightarrow> (\<forall>x. \<exists>r. root_of m x r)"

lemma parent_of_update [simp]: "parent_of (AList.update c p m) = (parent_of m)(c := p)"
  by (auto simp add: parent_of_def update_conv')

lemma root_of_mono:
  assumes "parent_of m' = parent_of m" "root_of m x r"
  shows "root_of m' x r"
  using assms(2) by (induction rule: root_of.induct) (simp_all add: root_of.intros assms(1))

lemma root_of_cong: "parent_of m' = parent_of m \<Longrightarrow> root_of m' = root_of m"
  by (intro ext iffI; elim root_of_mono [rotated]) simp_all

lemma root_of_unique: "root_of m x r \<Longrightarrow> root_of m x s \<Longrightarrow> r = s"
proof (induction arbitrary: s rule: root_of.induct)
  case (root x)
  from root(2) show ?case
    by (cases rule: root_of.cases) (use root(1) in simp_all)
next
  case (step x r)
  from step.prems step.hyps(1) have "root_of m (parent_of m x) s"
    by (cases rule: root_of.cases) simp_all
  then show ?case
    by (rule step.IH)
qed

lemma root_of_root: "root_of m x r \<Longrightarrow> parent_of m r = r"
  by (induction rule: root_of.induct)

lemma root_of_self: "root_of m x r \<Longrightarrow> root_of m r r"
  by (rule root_of.root) (rule root_of_root)

lemma root_of_transfer:
  assumes "forest m" and trans: "\<And>y s. root_of m y s \<Longrightarrow> root_of m' y (g y s)"
  shows "forest m' \<and> (root_of m' y t \<longleftrightarrow> (\<exists>s. root_of m y s \<and> t = g y s))"
proof
  show "forest m'"
    unfolding forest_def
  proof
    fix x
    obtain r where "root_of m x r"
      using assms(1) unfolding forest_def by blast
    then show "\<exists>r. root_of m' x r"
      using trans by blast
  qed
  obtain s where s: "root_of m y s"
    using assms(1) unfolding forest_def by blast
  show "root_of m' y t \<longleftrightarrow> (\<exists>s. root_of m y s \<and> t = g y s)"
    using root_of_unique [OF _ trans [OF s]] s trans by blast
qed

text \<open>Adding a self-loop, compressing a path and linking one root to another.\<close>

lemma root_of_touch: "map_of m c = None \<Longrightarrow> root_of (AList.update c c m) = root_of m"
  by (rule root_of_cong) (auto simp add: parent_of_def)

lemma root_of_link:
  assumes "forest m" "root_of m p rp" "parent_of m c = c" "c \<noteq> rp"
  shows "forest (AList.update c p m) \<and>
    (root_of (AList.update c p m) y t \<longleftrightarrow> (\<exists>s. root_of m y s \<and> t = (if s = c then rp else s)))"
proof (rule root_of_transfer [OF assms(1)])
  have keep: "root_of (AList.update c p m) x s" if "root_of m x s" "s \<noteq> c" for x s
    using that
  proof (induction rule: root_of.induct)
    case (step x r)
    then have "x \<noteq> c"
      using assms(3) by auto
    then show ?case
      using step by - (rule root_of.step, simp_all)
  qed (simp add: root_of.root)
  have "p \<noteq> c"
    using assms(2-4) root_of.root root_of_unique by blast
  then have c: "root_of (AList.update c p m) c rp"
    using keep [OF assms(2)] assms(4) by - (rule root_of.step, simp_all)
  have link: "root_of (AList.update c p m) x rp" if "root_of m x s" "s = c" for x s
    using that
  proof (induction rule: root_of.induct)
    case (step x r)
    then have "x \<noteq> c"
      using assms(3) by auto
    then show ?case
      using step by - (rule root_of.step, simp_all)
  qed (simp add: c)
  fix y s assume "root_of m y s"
  then show "root_of (AList.update c p m) y (if s = c then rp else s)"
    using keep [of y s] link [of y s] by (cases "s = c") simp_all
qed

lemma root_of_compress:
  assumes "forest m" "root_of m x r" "x \<noteq> r"
  shows "root_of (AList.update x r m) = root_of m"
proof -
  have r: "root_of (AList.update x r m) r r"
    using root_of_root [OF assms(2)] assms(3) by (intro root_of.root) simp
  have "root_of (AList.update x r m) y s" if "root_of m y s" for y s
    using that
  proof (induction rule: root_of.induct)
    case (root y)
    then have "y \<noteq> x"
      using assms(2,3) root_of_unique root_of.root by blast
    then show ?case
      using root by (intro root_of.root) simp
  next
    case (step y s)
    show ?case
    proof (cases "y = x")
      case True
      have "s = r"
        using root_of_unique [OF root_of.step [OF step(1,2)]] assms(2) True by blast
      then show ?thesis
        using True r assms(3) by - (rule root_of.step, simp_all)
    next
      case False
      then show ?thesis
        using step by - (rule root_of.step, simp_all)
    qed
  qed
  then show ?thesis
    using root_of_transfer [OF assms(1), of "AList.update x r m" "\<lambda>_ s. s"] by (intro ext) auto
qed

lemma FindParent_step:
  "FindParent x m =
    (let m' = if map_of m x = None then AList.update x x m else m in
     if parent_of m x \<noteq> x then Option.bind (FindParent (parent_of m x) m') (\<lambda>(root, m). Some (root, AList.update x root m))
     else Some (x, m'))"
  by (subst FindParent.simps) (simp add: parent_of_def update_conv' Let_def split: option.split)

lemma FindParent_root:
  assumes "root_of m x r" "forest m"
  shows "\<exists>m'. FindParent x m = Some (r, m') \<and> root_of m' = root_of m"
  using assms
proof (induction rule: root_of.induct)
  case (root x)
  then show ?case
    by (subst FindParent_step) (auto simp add: root_of_touch Let_def)
next
  case (step x r)
  then obtain m' where m': "FindParent (parent_of m x) m = Some (r, m')" "root_of m' = root_of m"
    by blast
  have "map_of m x \<noteq> None"
    using step(1) by (auto simp add: parent_of_def split: option.splits)
  moreover have "root_of m x r"
    using step(1,2) by (rule root_of.step)
  moreover have "x \<noteq> r"
    using root_of_root [OF step(2)] step(1) by auto
  ultimately have "map_of m x \<noteq> None" "root_of (AList.update x r m') = root_of m"
    using root_of_compress [of m' x r] step.prems m'(2) by (simp_all add: forest_def)
  then show ?case
    using step(1) m'(1) by (subst FindParent_step) auto
qed

lemma SetParent_links:
  assumes "forest m" "root_of m p rp" "root_of m c rc"
  shows "\<exists>m'. SetParent p c m = Some m' \<and> forest m' \<and>
    (\<forall>y t. root_of m' y t \<longleftrightarrow> (\<exists>s. root_of m y s \<and> t = (if s = rc then rp else s)))"
proof -
  obtain m1 where m1: "FindParent p m = Some (rp, m1)" "root_of m1 = root_of m"
    using FindParent_root [OF assms(2,1)] by blast
  obtain m2 where m2: "FindParent c m1 = Some (rc, m2)" "root_of m2 = root_of m"
    using FindParent_root [of m1 c rc] assms(1,3) m1(2) by (auto simp add: forest_def)
  have f2: "forest m2"
    using assms(1) m2(2) by (simp add: forest_def)
  show ?thesis
  proof (cases "rp = rc")
    case True
    then show ?thesis
      using m1(1) m2 f2 by (auto simp add: SetParent_def)
  next
    case False
    have "forest (AList.update rc rp m2) \<and>
        (root_of (AList.update rc rp m2) y t \<longleftrightarrow> (\<exists>s. root_of m2 y s \<and> t = (if s = rc then rp else s)))" for y t
      using root_of_self [OF assms(2)] root_of_root [of m2 c rc] assms(3) m2(2) False by (intro root_of_link [OF f2]) auto
    then show ?thesis
      using m1(1) m2 False by (auto simp add: SetParent_def)
  qed
qed

text \<open>The maps that the operations build.\<close>

inductive dep_reach :: "dep_map \<Rightarrow> bool" where
  empty: "dep_reach []"
| find: "dep_reach m \<Longrightarrow> FindParent x m = Some (r, m') \<Longrightarrow> dep_reach m'"
| set: "dep_reach m \<Longrightarrow> SetParent p c m = Some m' \<Longrightarrow> dep_reach m'"

lemma dep_reach_forest: "dep_reach m \<Longrightarrow> forest m"
proof (induction rule: dep_reach.induct)
  case empty
  have "root_of [] x x" for x
    by (rule root_of.root) (simp add: parent_of_def)
  then show ?case
    by (auto simp add: forest_def)
next
  case (find m x r m')
  then obtain s where "root_of m x s"
    by (auto simp add: forest_def)
  then show ?case
    using FindParent_root [of m x s] find by (auto simp add: forest_def)
next
  case (set m p c m')
  then obtain rp rc where "root_of m p rp" "root_of m c rc"
    unfolding forest_def by blast
  then show ?case
    using SetParent_links [of m p rp c rc] set by auto
qed

text \<open>C31. The union-find structure over files: on every map built from the empty one by \<open>FindParent\<close>
  and \<open>SetParent\<close> both operations return; \<open>FindParent\<close> gives the root of its file and compressing the
  path changes no root; \<open>SetParent\<close> gives the files of the child's class the root of the parent and
  leaves the roots of all other files.\<close>

theorem union_find_classes:
  assumes "dep_reach m"
  shows "\<exists>rp rc m1 m2. root_of m p rp \<and> root_of m c rc \<and>
    FindParent p m = Some (rp, m1) \<and> root_of m1 = root_of m \<and>
    SetParent p c m = Some m2 \<and>
    (\<forall>y t. root_of m2 y t \<longleftrightarrow> (\<exists>s. root_of m y s \<and> t = (if s = rc then rp else s)))"
proof -
  have f: "forest m"
    using assms by (rule dep_reach_forest)
  then obtain rp rc where "root_of m p rp" "root_of m c rc"
    unfolding forest_def by blast
  then show ?thesis
    using FindParent_root [of m p rp] SetParent_links [of m p rp c rc] f by blast
qed

theorem union_find_classes_witness:
  "root_of [(3, 3), (2, 3)] 2 3 \<and> root_of [(3, 3), (2, 3)] 1 1 \<and>
   (\<exists>m. SetParent 2 1 [(3, 3), (2, 3)] = Some m \<and> root_of m 1 3 \<and> root_of m 2 3)"
proof -
  let ?m = "[(3, 3), (2, 3)] :: dep_map"
  have find: "FindParent 3 [] = Some (3, [(3, 3)])" "FindParent 2 [(3, 3)] = Some (2, [(3, 3), (2, 2)])"
    by (simp_all add: FindParent.simps)
  then have "SetParent 3 2 [] = Some ?m"
    by (simp add: SetParent_def)
  then have reach: "dep_reach ?m"
    by (rule dep_reach.set [OF dep_reach.empty])
  have roots: "root_of ?m 2 3" "root_of ?m 1 1"
    by (auto intro!: root_of.step [of ?m 2] root_of.root simp add: parent_of_def)
  then show ?thesis
    using union_find_classes [OF reach, of 2 1] root_of_unique [of ?m] by (metis (full_types))
qed

section \<open>Replaying a map\<close>

text \<open>
  Setting the parents of a forest one entry after the other, in any order, builds a map with the same
  roots: every entry is replayed when its child is still a root.
\<close>

definition follows :: "dep_map \<Rightarrow> u64 \<Rightarrow> u64 \<Rightarrow> bool" where
  "follows m a b \<longleftrightarrow> parent_of m a = b \<and> b \<noteq> a"

lemma root_of_acyclic: "root_of m x r \<Longrightarrow> \<not> (follows m)\<^sup>+\<^sup>+ x x"
proof (induction rule: root_of.induct)
  case (root x)
  then have "\<not> follows m x y" for y
    by (auto simp add: follows_def)
  then show ?case
    using tranclpD [of "follows m" x x] by blast
next
  case (step x r)
  show ?case
  proof
    assume "(follows m)\<^sup>+\<^sup>+ x x"
    then obtain y where "follows m x y" "(follows m)\<^sup>*\<^sup>* y x"
      using tranclpD by metis
    then have "(follows m)\<^sup>*\<^sup>* (parent_of m x) x"
      unfolding follows_def by blast
    moreover have "follows m x (parent_of m x)"
      using step(1) by (simp add: follows_def)
    ultimately have "(follows m)\<^sup>+\<^sup>+ (parent_of m x) (parent_of m x)"
      by (rule rtranclp_into_tranclp1)
    then show False
      using step.IH by blast
  qed
qed

lemma root_of_follows: "root_of m x r \<Longrightarrow> (follows m)\<^sup>*\<^sup>* x r"
  by (induction rule: root_of.induct) (auto simp add: follows_def intro: converse_rtranclp_into_rtranclp)

lemma parent_of_snoc:
  assumes "c \<notin> fst ` set pre"
  shows "parent_of (pre @ [(c, p)]) = (parent_of pre)(c := p)" "parent_of pre c = c"
proof -
  have "map_of pre c = None"
    using assms by (simp add: map_of_eq_None_iff)
  then show "parent_of (pre @ [(c, p)]) = (parent_of pre)(c := p)" "parent_of pre c = c"
    by (auto simp add: parent_of_def map_add_def split: option.split)
qed

lemma root_of_snoc: "c \<notin> fst ` set pre \<Longrightarrow> root_of (pre @ [(c, p)]) = root_of (AList.update c p pre)"
  by (rule root_of_cong) (simp add: parent_of_snoc(1))

lemma forest_prefix:
  assumes "forest m" "m = pre @ post"
  shows "forest pre"
proof -
  have "\<exists>s. root_of pre x s" if "root_of m x r" for x r
    using that
  proof (induction rule: root_of.induct)
    case (root x)
    then have "parent_of pre x = x"
      using assms(2) by (auto simp add: parent_of_def map_add_def split: option.splits)
    then show ?case
      using root_of.root by blast
  next
    case (step x r)
    show ?case
    proof (cases "parent_of pre x = x")
      case True
      then show ?thesis
        using root_of.root by blast
    next
      case False
      then have "parent_of pre x = parent_of m x"
        using assms(2) by (auto simp add: parent_of_def map_add_def split: option.splits)
      then show ?thesis
        using step False root_of.step [of pre x] by auto
    qed
  qed
  then show ?thesis
    using assms(1) unfolding forest_def by blast
qed


text \<open>The loop of a reader that sets the parent of every entry it reads.\<close>

primrec replay :: "(u64 \<times> u64) list \<Rightarrow> dep_map \<Rightarrow> dep_map option" where
  "replay [] m = Some m"
| "replay (e # es) m = Option.bind (SetParent (snd e) (fst e) m) (replay es)"

lemma replay_append: "replay (xs @ ys) m = Option.bind (replay xs m) (replay ys)"
  by (induction xs arbitrary: m) (simp_all split: Option.bind_split)

lemma replay_forest:
  assumes "forest m" "distinct (map fst m)" "m = pre @ post"
  shows "\<exists>m'. replay pre [] = Some m' \<and> root_of m' = root_of pre"
  using assms(3)
proof (induction pre arbitrary: post rule: rev_induct)
  case (snoc e pre)
  obtain c p where e: "e = (c, p)" by fastforce
  obtain m' where m': "replay pre [] = Some m'" "root_of m' = root_of pre"
    using snoc.IH [of "e # post"] snoc.prems by auto
  have c: "c \<notin> fst ` set pre"
    using assms(2) snoc.prems e by auto
  have forest: "forest pre" "forest m'"
    using forest_prefix [OF assms(1), of pre "e # post"] snoc.prems m'(2) by (simp_all add: forest_def)
  obtain rp where rp: "root_of pre p rp"
    using forest(1) unfolding forest_def by blast
  have rc: "root_of pre c c"
    using parent_of_snoc(2) [OF c] by (rule root_of.root)
  obtain m'' where m'': "SetParent p c m' = Some m''"
      "\<And>y t. root_of m'' y t \<longleftrightarrow> (\<exists>s. root_of pre y s \<and> t = (if s = c then rp else s))"
    using SetParent_links [OF forest(2), of p rp c c] m'(2) rp rc by auto
  have "root_of m'' = root_of (pre @ [(c, p)])"
  proof (cases "rp = c")
    case True
    have "p = c"
    proof (rule ccontr)
      assume "p \<noteq> c"
      have sub: "follows pre a b \<Longrightarrow> follows m a b" for a b
        using snoc.prems by (auto simp add: follows_def parent_of_def map_add_def split: option.splits)
      have "(follows m)\<^sup>*\<^sup>* p c"
        using root_of_follows [OF rp] True rtranclp_mono [of "follows pre" "follows m"] sub by blast
      moreover have "map_of pre c = None"
        using c by (simp add: map_of_eq_None_iff)
      then have "follows m c p"
        using snoc.prems \<open>p \<noteq> c\<close> by (simp add: follows_def parent_of_def e map_add_def)
      ultimately have "(follows m)\<^sup>+\<^sup>+ c c"
        by (rule rtranclp_into_tranclp2 [rotated])
      moreover obtain r where "root_of m c r"
        using assms(1) unfolding forest_def by blast
      ultimately show False
        using root_of_acyclic by blast
    qed
    then have "root_of (pre @ [(c, p)]) = root_of pre"
      using parent_of_snoc [OF c] by (intro root_of_cong) auto
    moreover have "root_of m'' y t \<longleftrightarrow> root_of pre y t" for y t
      unfolding m''(2) True by (metis (full_types))
    ultimately show ?thesis
      by (intro ext) simp
  next
    case False
    then show ?thesis
      using root_of_link [OF forest(1) rp parent_of_snoc(2) [OF c]] m''(2) by (intro ext) (simp add: root_of_snoc [OF c])
  qed
  then show ?case
    using m'(1) m''(1) by (simp add: replay_append e)
qed simp

lemma FindParent_distinct:
  assumes "FindParent x m = Some rm" "distinct (map fst m)"
  shows "distinct (map fst (snd rm))"
proof -
  have "distinct (map fst m) \<longrightarrow> distinct (map fst (snd rm))"
  proof (rule FindParent.raw_induct [where P = "\<lambda>_ m rm. distinct (map fst m) \<longrightarrow> distinct (map fst (snd rm))", rotated])
    fix find x m rm
    assume IH: "\<And>x m rm. find x m = Some rm \<Longrightarrow> distinct (map fst m) \<longrightarrow> distinct (map fst (snd rm))"
      and eq: "(let m = if map_of m x = None then AList.update x x m else m; parent = the (map_of m x)
         in if parent \<noteq> x then Option.bind (find parent m) (\<lambda>(root, m). Some (root, AList.update x root m))
            else Some (parent, m)) = Some rm"
    define m1 where "m1 = (if map_of m x = None then AList.update x x m else m)"
    have m1: "distinct (map fst m) \<Longrightarrow> distinct (map fst m1)"
      by (simp add: m1_def distinct_update)
    have "rm = (x, m1) \<or> (\<exists>root m2. find (the (map_of m1 x)) m1 = Some (root, m2) \<and> rm = (root, AList.update x root m2))"
      using eq unfolding m1_def [symmetric] Let_def by (auto split: Option.bind_splits if_splits)
    then show "distinct (map fst m) \<longrightarrow> distinct (map fst (snd rm))"
      using m1 IH by (auto intro!: distinct_update)
  qed (rule assms(1))
  then show ?thesis
    using assms(2) by blast
qed

lemma dep_reach_distinct: "dep_reach m \<Longrightarrow> distinct (map fst m)"
proof (induction rule: dep_reach.induct)
  case (find m x r m')
  then show ?case
    using FindParent_distinct [of x m "(r, m')"] by simp
next
  case (set m p c m')
  then obtain r1 m1 r2 m2 where "FindParent p m = Some (r1, m1)" "FindParent c m1 = Some (r2, m2)"
      "m' = m2 \<or> m' = AList.update r2 r1 m2"
    by (auto simp add: SetParent_def split: Option.bind_splits if_splits)
  then show ?case
    using FindParent_distinct [of p m "(r1, m1)"] FindParent_distinct [of c m1 "(r2, m2)"] set.IH
    by (auto intro: distinct_update)
qed simp

lemma replay_dep_reach:
  assumes "dep_reach m"
  shows "\<exists>m'. replay m [] = Some m' \<and> root_of m' = root_of m"
  using replay_forest [OF dep_reach_forest [OF assms] dep_reach_distinct [OF assms], of m "[]"] by simp

end
