(* ===== verification/Version_Edit.thy ===== *)
theory Version_Edit
  imports Internal_Keys File_Names Dependency_Graph "HOL-Library.Product_Lexorder"
begin

text \<open>
  \<^verbatim>\<open>db/version_edit.h\<close> and \<^verbatim>\<open>db/version_edit.cc\<close>: the changes from one version of the database to the
  next, the records of the manifest. An edit is written as a sequence of tagged fields. Levels are
  natural numbers; a \<^verbatim>\<open>std::set\<close> is the sorted list of its elements, a \<^verbatim>\<open>std::vector\<close> the list. Internal
  keys are their representations. Writing an invalid key aborts, which is \<^const>\<open>None\<close>.
\<close>

section \<open>The code\<close>

definition kNumLevels :: nat where
  "kNumLevels = 7"

record FileMetaData =
  fm_refs :: int
  fm_allowed_seeks :: int
  fm_number :: u64
  fm_file_size :: u64
  fm_smallest :: bytes
  fm_largest :: bytes
  fm_num_keys :: int
  fm_invalid_count :: int

definition FileMetaData_make :: FileMetaData where
  "FileMetaData_make =
     \<lparr>fm_refs = 0, fm_allowed_seeks = 2 ^ 30, fm_number = 0, fm_file_size = 0, fm_smallest = [], fm_largest = [],
      fm_num_keys = 0, fm_invalid_count = 0\<rparr>"

type_synonym DeletedFileSet = "(nat \<times> u64) list"

record VersionEdit =
  ve_comparator :: bytes
  ve_log_number :: u64
  ve_prev_log_number :: u64
  ve_next_file_number :: u64
  ve_last_sequence :: SequenceNumber
  ve_has_comparator :: bool
  ve_has_log_number :: bool
  ve_has_prev_log_number :: bool
  ve_has_next_file_number :: bool
  ve_has_last_sequence :: bool
  ve_compact_pointers :: "(nat \<times> bytes) list"
  ve_compact_vpointers :: "(nat \<times> bytes) list"
  ve_deleted_files :: DeletedFileSet
  ve_deleted_vfiles :: DeletedFileSet
  ve_new_files :: "(nat \<times> FileMetaData) list"
  ve_new_vfiles :: "(nat \<times> FileMetaData) list"
  ve_dep :: dep_map

text \<open>\<^verbatim>\<open>Clear\<close> leaves the compaction pointers and the dependencies as they are.\<close>

definition VersionEdit_Clear :: "VersionEdit \<Rightarrow> VersionEdit" where
  "VersionEdit_Clear e =
     e\<lparr>ve_comparator := [], ve_log_number := 0, ve_prev_log_number := 0, ve_last_sequence := 0,
       ve_next_file_number := 0, ve_has_comparator := False, ve_has_log_number := False,
       ve_has_prev_log_number := False, ve_has_next_file_number := False, ve_has_last_sequence := False,
       ve_deleted_files := [], ve_deleted_vfiles := [], ve_new_files := [], ve_new_vfiles := []\<rparr>"

definition VersionEdit_make :: VersionEdit where
  "VersionEdit_make =
     VersionEdit_Clear
       \<lparr>ve_comparator = [], ve_log_number = 0, ve_prev_log_number = 0, ve_next_file_number = 0,
        ve_last_sequence = 0, ve_has_comparator = False, ve_has_log_number = False,
        ve_has_prev_log_number = False, ve_has_next_file_number = False, ve_has_last_sequence = False,
        ve_compact_pointers = [], ve_compact_vpointers = [], ve_deleted_files = [], ve_deleted_vfiles = [],
        ve_new_files = [], ve_new_vfiles = [], ve_dep = []\<rparr>"

definition SetComparatorName :: "bytes \<Rightarrow> VersionEdit \<Rightarrow> VersionEdit" where
  "SetComparatorName name e = e\<lparr>ve_has_comparator := True, ve_comparator := name\<rparr>"

definition SetLogNumber :: "u64 \<Rightarrow> VersionEdit \<Rightarrow> VersionEdit" where
  "SetLogNumber num e = e\<lparr>ve_has_log_number := True, ve_log_number := num\<rparr>"

definition SetPrevLogNumber :: "u64 \<Rightarrow> VersionEdit \<Rightarrow> VersionEdit" where
  "SetPrevLogNumber num e = e\<lparr>ve_has_prev_log_number := True, ve_prev_log_number := num\<rparr>"

definition SetNextFile :: "u64 \<Rightarrow> VersionEdit \<Rightarrow> VersionEdit" where
  "SetNextFile num e = e\<lparr>ve_has_next_file_number := True, ve_next_file_number := num\<rparr>"

definition SetLastSequence :: "SequenceNumber \<Rightarrow> VersionEdit \<Rightarrow> VersionEdit" where
  "SetLastSequence seq e = e\<lparr>ve_has_last_sequence := True, ve_last_sequence := seq\<rparr>"

definition SetCompactPointer :: "nat \<Rightarrow> bytes \<Rightarrow> VersionEdit \<Rightarrow> VersionEdit" where
  "SetCompactPointer level key e = e\<lparr>ve_compact_pointers := ve_compact_pointers e @ [(level, key)]\<rparr>"

definition SetCompactVPointer :: "nat \<Rightarrow> bytes \<Rightarrow> VersionEdit \<Rightarrow> VersionEdit" where
  "SetCompactVPointer level key e = e\<lparr>ve_compact_vpointers := ve_compact_vpointers e @ [(level, key)]\<rparr>"

definition AddFile :: "nat \<Rightarrow> u64 \<Rightarrow> u64 \<Rightarrow> bytes \<Rightarrow> bytes \<Rightarrow> VersionEdit \<Rightarrow> VersionEdit" where
  "AddFile level file_num file_size smallest largest e =
     (let f = FileMetaData_make\<lparr>fm_number := file_num, fm_file_size := file_size, fm_smallest := smallest, fm_largest := largest\<rparr>
      in e\<lparr>ve_new_files := ve_new_files e @ [(level, f)]\<rparr>)"

definition AddVFile :: "nat \<Rightarrow> u64 \<Rightarrow> u64 \<Rightarrow> bytes \<Rightarrow> bytes \<Rightarrow> VersionEdit \<Rightarrow> VersionEdit" where
  "AddVFile level file_num file_size smallest largest e =
     (let f = FileMetaData_make\<lparr>fm_number := file_num, fm_file_size := file_size, fm_smallest := smallest, fm_largest := largest\<rparr>
      in e\<lparr>ve_new_vfiles := ve_new_vfiles e @ [(level, f)]\<rparr>)"

definition VersionEdit_DeleteFile :: "nat \<Rightarrow> u64 \<Rightarrow> VersionEdit \<Rightarrow> VersionEdit" where
  "VersionEdit_DeleteFile level file_num e = e\<lparr>ve_deleted_files := insort_insert (level, file_num) (ve_deleted_files e)\<rparr>"

definition DeleteVFile :: "nat \<Rightarrow> u64 \<Rightarrow> VersionEdit \<Rightarrow> VersionEdit" where
  "DeleteVFile level file_num e = e\<lparr>ve_deleted_vfiles := insort_insert (level, file_num) (ve_deleted_vfiles e)\<rparr>"

definition AddDependency :: "u64 \<Rightarrow> u64 \<Rightarrow> VersionEdit \<Rightarrow> VersionEdit option" where
  "AddDependency parent child e = map_option (\<lambda>d. e\<lparr>ve_dep := d\<rparr>) (SetParent parent child (ve_dep e))"

subsection \<open>Encoding\<close>

definition kComparator :: u32 where "kComparator = 1"
definition kLogNumber :: u32 where "kLogNumber = 2"
definition kNextFileNumber :: u32 where "kNextFileNumber = 3"
definition kLastSequence :: u32 where "kLastSequence = 4"
definition kCompactPointer :: u32 where "kCompactPointer = 5"
definition kDeletedFile :: u32 where "kDeletedFile = 6"
definition kNewFile :: u32 where "kNewFile = 7"
definition kPrevLogNumber :: u32 where "kPrevLogNumber = 9"
definition kCompactVPointer :: u32 where "kCompactVPointer = 10"
definition kDeletedVFile :: u32 where "kDeletedVFile = 11"
definition kNewVFile :: u32 where "kNewVFile = 12"
definition kDependency :: u32 where "kDependency = 13"

lemmas Tag_defs = kComparator_def kLogNumber_def kNextFileNumber_def kLastSequence_def kCompactPointer_def
  kDeletedFile_def kNewFile_def kPrevLogNumber_def kCompactVPointer_def kDeletedVFile_def kNewVFile_def
  kDependency_def

definition PutInternalKey :: "bytes \<Rightarrow> bytes \<Rightarrow> bytes option" where
  "PutInternalKey dst key = map_option (PutLengthPrefixedSlice dst) (InternalKey_Encode key)"

definition EncodeTo_numbers :: "VersionEdit \<Rightarrow> bytes \<Rightarrow> bytes" where
  "EncodeTo_numbers e dst =
     (let dst = (if ve_has_comparator e then PutLengthPrefixedSlice (PutVarint32 dst kComparator) (ve_comparator e) else dst);
          dst = (if ve_has_log_number e then PutVarint64 (PutVarint32 dst kLogNumber) (ve_log_number e) else dst);
          dst = (if ve_has_prev_log_number e then PutVarint64 (PutVarint32 dst kPrevLogNumber) (ve_prev_log_number e) else dst);
          dst = (if ve_has_next_file_number e then PutVarint64 (PutVarint32 dst kNextFileNumber) (ve_next_file_number e) else dst)
      in if ve_has_last_sequence e then PutVarint64 (PutVarint32 dst kLastSequence) (ve_last_sequence e) else dst)"

primrec EncodeTo_pointers :: "u32 \<Rightarrow> (nat \<times> bytes) list \<Rightarrow> bytes \<Rightarrow> bytes option" where
  "EncodeTo_pointers tag [] dst = Some dst"
| "EncodeTo_pointers tag (p # ps) dst =
     Option.bind (PutInternalKey (PutVarint32 (PutVarint32 dst tag) (word_of_nat (fst p))) (snd p)) (EncodeTo_pointers tag ps)"

primrec EncodeTo_deleted :: "u32 \<Rightarrow> DeletedFileSet \<Rightarrow> bytes \<Rightarrow> bytes" where
  "EncodeTo_deleted tag [] dst = dst"
| "EncodeTo_deleted tag (d # ds) dst =
     EncodeTo_deleted tag ds (PutVarint64 (PutVarint32 (PutVarint32 dst tag) (word_of_nat (fst d))) (snd d))"

primrec EncodeTo_files :: "u32 \<Rightarrow> (nat \<times> FileMetaData) list \<Rightarrow> bytes \<Rightarrow> bytes option" where
  "EncodeTo_files tag [] dst = Some dst"
| "EncodeTo_files tag (nf # fs) dst =
     (let f = snd nf;
          dst = PutVarint64 (PutVarint64 (PutVarint32 (PutVarint32 dst tag) (word_of_nat (fst nf))) (fm_number f)) (fm_file_size f)
      in Option.bind (PutInternalKey dst (fm_smallest f)) (\<lambda>dst.
         Option.bind (PutInternalKey dst (fm_largest f)) (EncodeTo_files tag fs)))"

primrec EncodeTo_dependencies :: "dep_map \<Rightarrow> bytes \<Rightarrow> bytes" where
  "EncodeTo_dependencies [] dst = dst"
| "EncodeTo_dependencies (d # ds) dst =
     EncodeTo_dependencies ds (PutVarint64 (PutVarint64 (PutVarint32 dst kDependency) (fst d)) (snd d))"

definition VersionEdit_EncodeTo :: "VersionEdit \<Rightarrow> bytes \<Rightarrow> bytes option" where
  "VersionEdit_EncodeTo e dst =
     Option.bind (EncodeTo_pointers kCompactPointer (ve_compact_pointers e) (EncodeTo_numbers e dst)) (\<lambda>dst.
     Option.bind (EncodeTo_pointers kCompactVPointer (ve_compact_vpointers e) dst) (\<lambda>dst.
     let dst = EncodeTo_deleted kDeletedVFile (ve_deleted_vfiles e) (EncodeTo_deleted kDeletedFile (ve_deleted_files e) dst) in
     Option.bind (EncodeTo_files kNewFile (ve_new_files e) dst) (\<lambda>dst.
     Option.bind (EncodeTo_files kNewVFile (ve_new_vfiles e) dst) (\<lambda>dst.
     Some (EncodeTo_dependencies (ve_dep e) dst)))))"

subsection \<open>Decoding\<close>

definition GetInternalKey :: "bytes \<Rightarrow> (bytes \<times> bytes) option" where
  "GetInternalKey input =
     (case GetLengthPrefixedSlice input of (None, _) \<Rightarrow> None | (Some str, input) \<Rightarrow> Some (str, input))"

definition GetLevel :: "bytes \<Rightarrow> (nat \<times> bytes) option" where
  "GetLevel input =
     (case GetVarint32 input of
        None \<Rightarrow> None
      | Some (v, input) \<Rightarrow> if unat v < kNumLevels then Some (unat v, input) else None)"

definition GetPointer :: "bytes \<Rightarrow> ((nat \<times> bytes) \<times> bytes) option" where
  "GetPointer input =
     Option.bind (GetLevel input) (\<lambda>(level, input).
     Option.bind (GetInternalKey input) (\<lambda>(key, input). Some ((level, key), input)))"

definition GetDeleted :: "bytes \<Rightarrow> ((nat \<times> u64) \<times> bytes) option" where
  "GetDeleted input =
     Option.bind (GetLevel input) (\<lambda>(level, input).
     Option.bind (GetVarint64 input) (\<lambda>(number, input). Some ((level, number), input)))"

definition GetNewFile :: "bytes \<Rightarrow> ((nat \<times> FileMetaData) \<times> bytes) option" where
  "GetNewFile input =
     Option.bind (GetLevel input) (\<lambda>(level, input).
     Option.bind (GetVarint64 input) (\<lambda>(number, input).
     Option.bind (GetVarint64 input) (\<lambda>(file_size, input).
     Option.bind (GetInternalKey input) (\<lambda>(smallest, input).
     Option.bind (GetInternalKey input) (\<lambda>(largest, input).
     Some ((level, FileMetaData_make\<lparr>fm_number := number, fm_file_size := file_size, fm_smallest := smallest,
                    fm_largest := largest\<rparr>), input))))))"

text \<open>
  One turn of the loop after the tag has been read: \<open>Inl\<close> is the message of an error, \<open>Inr\<close> the edit and
  the rest of the input. \<^const>\<open>None\<close> would be a search for a parent that does not end.
\<close>

definition DecodeFrom_field :: "u32 \<Rightarrow> bytes \<Rightarrow> VersionEdit \<Rightarrow> (string + VersionEdit \<times> bytes) option" where
  "DecodeFrom_field tag input e =
     (if tag = kComparator then
        (case GetLengthPrefixedSlice input of
           (None, _) \<Rightarrow> Some (Inl ''comparator name'')
         | (Some str, input) \<Rightarrow> Some (Inr (e\<lparr>ve_comparator := str, ve_has_comparator := True\<rparr>, input)))
      else if tag = kLogNumber then
        (case GetVarint64 input of
           None \<Rightarrow> Some (Inl ''log number'')
         | Some (n, input) \<Rightarrow> Some (Inr (e\<lparr>ve_log_number := n, ve_has_log_number := True\<rparr>, input)))
      else if tag = kPrevLogNumber then
        (case GetVarint64 input of
           None \<Rightarrow> Some (Inl ''previous log number'')
         | Some (n, input) \<Rightarrow> Some (Inr (e\<lparr>ve_prev_log_number := n, ve_has_prev_log_number := True\<rparr>, input)))
      else if tag = kNextFileNumber then
        (case GetVarint64 input of
           None \<Rightarrow> Some (Inl ''next file number'')
         | Some (n, input) \<Rightarrow> Some (Inr (e\<lparr>ve_next_file_number := n, ve_has_next_file_number := True\<rparr>, input)))
      else if tag = kLastSequence then
        (case GetVarint64 input of
           None \<Rightarrow> Some (Inl ''last sequence number'')
         | Some (n, input) \<Rightarrow> Some (Inr (e\<lparr>ve_last_sequence := n, ve_has_last_sequence := True\<rparr>, input)))
      else if tag = kCompactPointer then
        (case GetPointer input of
           None \<Rightarrow> Some (Inl ''compaction pointer'')
         | Some (p, input) \<Rightarrow> Some (Inr (e\<lparr>ve_compact_pointers := ve_compact_pointers e @ [p]\<rparr>, input)))
      else if tag = kCompactVPointer then
        (case GetPointer input of
           None \<Rightarrow> Some (Inl ''compaction vpointer'')
         | Some (p, input) \<Rightarrow> Some (Inr (e\<lparr>ve_compact_vpointers := ve_compact_vpointers e @ [p]\<rparr>, input)))
      else if tag = kDeletedFile then
        (case GetDeleted input of
           None \<Rightarrow> Some (Inl ''deleted file'')
         | Some (d, input) \<Rightarrow> Some (Inr (e\<lparr>ve_deleted_files := insort_insert d (ve_deleted_files e)\<rparr>, input)))
      else if tag = kDeletedVFile then
        (case GetDeleted input of
           None \<Rightarrow> Some (Inl ''deleted vfile'')
         | Some (d, input) \<Rightarrow> Some (Inr (e\<lparr>ve_deleted_vfiles := insort_insert d (ve_deleted_vfiles e)\<rparr>, input)))
      else if tag = kNewFile then
        (case GetNewFile input of
           None \<Rightarrow> Some (Inl ''new-file entry'')
         | Some (nf, input) \<Rightarrow> Some (Inr (e\<lparr>ve_new_files := ve_new_files e @ [nf]\<rparr>, input)))
      else if tag = kNewVFile then
        (case GetNewFile input of
           None \<Rightarrow> Some (Inl ''new-vfile entry'')
         | Some (nf, input) \<Rightarrow> Some (Inr (e\<lparr>ve_new_vfiles := ve_new_vfiles e @ [nf]\<rparr>, input)))
      else if tag = kDependency then
        (case Option.bind (GetVarint64 input) (\<lambda>(child, input).
              Option.bind (GetVarint64 input) (\<lambda>(parent, input). Some (child, parent, input))) of
           None \<Rightarrow> Some (Inl ''dependency'')
         | Some (child, parent, input) \<Rightarrow>
             map_option (\<lambda>d. Inr (e\<lparr>ve_dep := d\<rparr>, input)) (SetParent parent child (ve_dep e)))
      else Some (Inl ''unknown tag''))"

lemma GetLevel_length: "GetLevel input = Some (l, rest) \<Longrightarrow> length rest \<le> length input"
  by (auto simp add: GetLevel_def dest: GetVarint32_length split: option.splits if_splits)

lemma GetInternalKey_length: "GetInternalKey input = Some (k, rest) \<Longrightarrow> length rest \<le> length input"
  using GetLengthPrefixedSlice_length [of input] by (auto simp add: GetInternalKey_def split: prod.splits option.splits)

lemmas field_lengths = GetLevel_length GetInternalKey_length GetVarint64_length

lemma GetPointer_length: "GetPointer input = Some (p, rest) \<Longrightarrow> length rest \<le> length input"
  by (auto simp add: GetPointer_def bind_eq_Some_conv dest!: field_lengths)

lemma GetDeleted_length: "GetDeleted input = Some (d, rest) \<Longrightarrow> length rest \<le> length input"
  by (auto simp add: GetDeleted_def bind_eq_Some_conv dest!: field_lengths)

lemma GetNewFile_length: "GetNewFile input = Some (nf, rest) \<Longrightarrow> length rest \<le> length input"
  by (auto simp add: GetNewFile_def bind_eq_Some_conv dest!: field_lengths)

lemma DecodeFrom_field_length:
  assumes "DecodeFrom_field tag input e = Some (Inr (e', rest))"
  shows "length rest \<le> length input"
  using assms GetLengthPrefixedSlice_length [of input] unfolding DecodeFrom_field_def
  by (auto simp add: bind_eq_Some_conv split: if_splits option.splits prod.splits
      dest!: GetPointer_length GetDeleted_length GetNewFile_length GetVarint64_length)

function DecodeFrom_loop :: "bytes \<Rightarrow> VersionEdit \<Rightarrow> (string option \<times> bytes \<times> VersionEdit) option" where
  "DecodeFrom_loop input e =
     (case GetVarint32 input of
        None \<Rightarrow> Some (None, input, e)
      | Some (tag, input) \<Rightarrow>
          (case DecodeFrom_field tag input e of
             None \<Rightarrow> None
           | Some (Inl msg) \<Rightarrow> Some (Some msg, input, e)
           | Some (Inr (e, input)) \<Rightarrow> DecodeFrom_loop input e))"
  by pat_completeness auto
termination
  by (relation "measure (\<lambda>(input, _). length input)")
    (auto dest!: GetVarint32_consumes DecodeFrom_field_length)

declare DecodeFrom_loop.simps [simp del]

definition VersionEdit_DecodeFrom :: "bytes \<Rightarrow> VersionEdit \<Rightarrow> (status \<times> VersionEdit) option" where
  "VersionEdit_DecodeFrom src e =
     map_option
       (\<lambda>(msg, input, e).
          let msg = (if msg = None \<and> input \<noteq> [] then Some ''invalid tag'' else msg)
          in (case msg of None \<Rightarrow> Status_OK | Some msg \<Rightarrow> Status_make kCorruption ''VersionEdit'' msg, e))
       (DecodeFrom_loop src (VersionEdit_Clear e))"

subsection \<open>Debug output\<close>

definition ParsedInternalKey_DebugString :: "ParsedInternalKey \<Rightarrow> string" where
  "ParsedInternalKey_DebugString p =
     [CHR 0x27] @ EscapeString (user_key p) @ [CHR 0x27] @ '' @ '' @ decimal (unat (sequence p)) @ '' : '' @
     decimal (unat (ValueType_num (type p)))"

definition InternalKey_DebugString :: "bytes \<Rightarrow> string" where
  "InternalKey_DebugString rep =
     (case ParseInternalKey rep \<lparr>user_key = [], sequence = 0, type = kTypeDeletion, sort_key = 0\<rparr> of
        Some parsed \<Rightarrow> ParsedInternalKey_DebugString parsed
      | None \<Rightarrow> ''(bad)'' @ EscapeString rep)"

definition line :: "string \<Rightarrow> string" where
  "line label = [CHR 0x0A] @ ''  '' @ label @ '': ''"

definition file_line :: "string \<Rightarrow> nat \<times> FileMetaData \<Rightarrow> string" where
  "file_line label nf =
     (let f = snd nf in
      line label @ decimal (fst nf) @ '' '' @ decimal (unat (fm_number f)) @ '' '' @ decimal (unat (fm_file_size f)) @ '' '' @
      InternalKey_DebugString (fm_smallest f) @ '' .. '' @ InternalKey_DebugString (fm_largest f))"

definition VersionEdit_DebugString :: "VersionEdit \<Rightarrow> string" where
  "VersionEdit_DebugString e =
     ''VersionEdit {'' @
     (if ve_has_comparator e then line ''Comparator'' @ map (\<lambda>b. char_of (unat b)) (ve_comparator e) else []) @
     (if ve_has_log_number e then AppendNumberTo (line ''LogNumber'') (ve_log_number e) else []) @
     (if ve_has_prev_log_number e then AppendNumberTo (line ''PrevLogNumber'') (ve_prev_log_number e) else []) @
     (if ve_has_next_file_number e then AppendNumberTo (line ''NextFile'') (ve_next_file_number e) else []) @
     (if ve_has_last_sequence e then AppendNumberTo (line ''LastSeq'') (ve_last_sequence e) else []) @
     concat (map (\<lambda>p. line ''CompactPointer'' @ decimal (fst p) @ '' '' @ InternalKey_DebugString (snd p)) (ve_compact_pointers e)) @
     concat (map (\<lambda>p. line ''CompactVPointer'' @ decimal (fst p) @ '' '' @ InternalKey_DebugString (snd p)) (ve_compact_vpointers e)) @
     concat (map (\<lambda>d. line ''DeleteFile'' @ decimal (fst d) @ '' '' @ decimal (unat (snd d))) (ve_deleted_files e)) @
     concat (map (\<lambda>d. line ''DeleteVFile'' @ decimal (fst d) @ '' '' @ decimal (unat (snd d))) (ve_deleted_vfiles e)) @
     concat (map (file_line ''AddFile'') (ve_new_files e)) @
     concat (map (file_line ''AddVFile'') (ve_new_vfiles e)) @
     [CHR 0x0A] @ ''}'' @ [CHR 0x0A]"

section \<open>Edits that the setters build\<close>

abbreviation key_fits :: "bytes \<Rightarrow> bool" where
  "key_fits key \<equiv> key \<noteq> [] \<and> length key < 2 ^ 32"

inductive edit_reach :: "VersionEdit \<Rightarrow> bool" where
  fresh: "edit_reach VersionEdit_make"
| comparator: "edit_reach e \<Longrightarrow> length name < 2 ^ 32 \<Longrightarrow> edit_reach (SetComparatorName name e)"
| log_number: "edit_reach e \<Longrightarrow> edit_reach (SetLogNumber n e)"
| prev_log_number: "edit_reach e \<Longrightarrow> edit_reach (SetPrevLogNumber n e)"
| next_file: "edit_reach e \<Longrightarrow> edit_reach (SetNextFile n e)"
| last_sequence: "edit_reach e \<Longrightarrow> edit_reach (SetLastSequence n e)"
| pointer: "edit_reach e \<Longrightarrow> level < kNumLevels \<Longrightarrow> key_fits key \<Longrightarrow> edit_reach (SetCompactPointer level key e)"
| vpointer: "edit_reach e \<Longrightarrow> level < kNumLevels \<Longrightarrow> key_fits key \<Longrightarrow> edit_reach (SetCompactVPointer level key e)"
| add_file: "edit_reach e \<Longrightarrow> level < kNumLevels \<Longrightarrow> key_fits smallest \<Longrightarrow> key_fits largest \<Longrightarrow>
    edit_reach (AddFile level n file_size smallest largest e)"
| add_vfile: "edit_reach e \<Longrightarrow> level < kNumLevels \<Longrightarrow> key_fits smallest \<Longrightarrow> key_fits largest \<Longrightarrow>
    edit_reach (AddVFile level n file_size smallest largest e)"
| delete_file: "edit_reach e \<Longrightarrow> level < kNumLevels \<Longrightarrow> edit_reach (VersionEdit_DeleteFile level n e)"
| delete_vfile: "edit_reach e \<Longrightarrow> level < kNumLevels \<Longrightarrow> edit_reach (DeleteVFile level n e)"
| dependency: "edit_reach e \<Longrightarrow> AddDependency parent child e = Some e' \<Longrightarrow> edit_reach e'"

text \<open>
  What they have in common: a number without its flag is 0, keys and levels can be written, the sets
  are sorted, the files have only the fields that are written, and the dependencies are a forest.
\<close>

definition numbers_ok :: "VersionEdit \<Rightarrow> bool" where
  "numbers_ok e \<longleftrightarrow> (ve_has_comparator e \<or> ve_comparator e = []) \<and> length (ve_comparator e) < 2 ^ 32 \<and>
     (ve_has_log_number e \<or> ve_log_number e = 0) \<and> (ve_has_prev_log_number e \<or> ve_prev_log_number e = 0) \<and>
     (ve_has_next_file_number e \<or> ve_next_file_number e = 0) \<and> (ve_has_last_sequence e \<or> ve_last_sequence e = 0)"

definition pointers_ok :: "(nat \<times> bytes) list \<Rightarrow> bool" where
  "pointers_ok ps \<longleftrightarrow> (\<forall>p\<in>set ps. fst p < kNumLevels \<and> key_fits (snd p))"

definition deleted_ok :: "DeletedFileSet \<Rightarrow> bool" where
  "deleted_ok ds \<longleftrightarrow> sorted ds \<and> distinct ds \<and> (\<forall>d\<in>set ds. fst d < kNumLevels)"

definition files_ok :: "(nat \<times> FileMetaData) list \<Rightarrow> bool" where
  "files_ok fs \<longleftrightarrow> (\<forall>nf\<in>set fs. fst nf < kNumLevels \<and> key_fits (fm_smallest (snd nf)) \<and> key_fits (fm_largest (snd nf)) \<and>
     fm_refs (snd nf) = 0 \<and> fm_allowed_seeks (snd nf) = 2 ^ 30 \<and> fm_num_keys (snd nf) = 0 \<and> fm_invalid_count (snd nf) = 0)"

definition edit_ok :: "VersionEdit \<Rightarrow> bool" where
  "edit_ok e \<longleftrightarrow> numbers_ok e \<and> pointers_ok (ve_compact_pointers e) \<and> pointers_ok (ve_compact_vpointers e) \<and>
     deleted_ok (ve_deleted_files e) \<and> deleted_ok (ve_deleted_vfiles e) \<and>
     files_ok (ve_new_files e) \<and> files_ok (ve_new_vfiles e) \<and> dep_reach (ve_dep e)"

lemma deleted_ok_insert: "deleted_ok ds \<Longrightarrow> fst d < kNumLevels \<Longrightarrow> deleted_ok (insort_insert d ds)"
  by (auto simp add: deleted_ok_def sorted_insort_insert distinct_insort_insert set_insort_insert)

lemmas edit_parts = numbers_ok_def pointers_ok_def files_ok_def

lemma edit_reach_ok: "edit_reach e \<Longrightarrow> edit_ok e"
proof (induction rule: edit_reach.induct)
  case fresh
  show ?case
    by (simp add: edit_ok_def edit_parts deleted_ok_def VersionEdit_make_def VersionEdit_Clear_def dep_reach.empty)
next
  case (dependency e parent child e')
  then obtain d where d: "SetParent parent child (ve_dep e) = Some d" "e' = e\<lparr>ve_dep := d\<rparr>"
    by (auto simp add: AddDependency_def)
  then have "dep_reach d"
    using dependency.IH dep_reach.set [of "ve_dep e"] by (simp add: edit_ok_def)
  then show ?case
    using dependency.IH d(2) by (simp add: edit_ok_def numbers_ok_def)
qed (simp_all add: edit_ok_def edit_parts SetComparatorName_def SetLogNumber_def SetPrevLogNumber_def
    SetNextFile_def SetLastSequence_def SetCompactPointer_def SetCompactVPointer_def AddFile_def AddVFile_def
    VersionEdit_DeleteFile_def DeleteVFile_def deleted_ok_insert FileMetaData_make_def Let_def)

section \<open>Round trip\<close>

lemma DecodeFrom_loop_field:
  assumes "DecodeFrom_field tag (body @ rest) e = Some (Inr (e', rest))"
  shows "DecodeFrom_loop (EncodeVarint32 tag @ body @ rest) e = DecodeFrom_loop rest e'"
  using assms by (subst DecodeFrom_loop.simps) simp

lemma DecodeFrom_loop_fields:
  assumes "\<And>x rest e. x \<in> set xs \<Longrightarrow> DecodeFrom_field tag (enc x @ rest) e = Some (Inr (upd x e, rest))"
  shows "DecodeFrom_loop (concat (map (\<lambda>x. EncodeVarint32 tag @ enc x) xs) @ rest) e = DecodeFrom_loop rest (fold upd xs e)"
  using assms
proof (induction xs arbitrary: e)
  case (Cons x xs)
  have "DecodeFrom_loop (EncodeVarint32 tag @ enc x @ concat (map (\<lambda>x. EncodeVarint32 tag @ enc x) xs) @ rest) e =
      DecodeFrom_loop (concat (map (\<lambda>x. EncodeVarint32 tag @ enc x) xs) @ rest) (upd x e)"
    by (intro DecodeFrom_loop_field Cons.prems) simp
  then show ?case
    using Cons by simp
qed simp

abbreviation pointer_bytes :: "nat \<times> bytes \<Rightarrow> bytes" where
  "pointer_bytes p \<equiv> EncodeVarint32 (word_of_nat (fst p)) @ length_prefixed (snd p)"

abbreviation deleted_bytes :: "nat \<times> u64 \<Rightarrow> bytes" where
  "deleted_bytes d \<equiv> EncodeVarint32 (word_of_nat (fst d)) @ EncodeVarint64 (snd d)"

abbreviation file_bytes :: "nat \<times> FileMetaData \<Rightarrow> bytes" where
  "file_bytes nf \<equiv> EncodeVarint32 (word_of_nat (fst nf)) @ EncodeVarint64 (fm_number (snd nf)) @
     EncodeVarint64 (fm_file_size (snd nf)) @ length_prefixed (fm_smallest (snd nf)) @ length_prefixed (fm_largest (snd nf))"

abbreviation fields_bytes :: "u32 \<Rightarrow> ('a \<Rightarrow> bytes) \<Rightarrow> 'a list \<Rightarrow> bytes" where
  "fields_bytes tag enc xs \<equiv> concat (map (\<lambda>x. EncodeVarint32 tag @ enc x) xs)"

lemma PutInternalKey_Some: "key \<noteq> [] \<Longrightarrow> PutInternalKey dst key = Some (dst @ length_prefixed key)"
  by (simp add: PutInternalKey_def InternalKey_Encode_def PutLengthPrefixedSlice_eq)

lemma EncodeTo_pointers_bytes:
  "pointers_ok ps \<Longrightarrow> EncodeTo_pointers tag ps dst = Some (dst @ fields_bytes tag pointer_bytes ps)"
  by (induction ps arbitrary: dst) (simp_all add: pointers_ok_def PutInternalKey_Some PutVarint32_def)

lemma EncodeTo_deleted_bytes: "EncodeTo_deleted tag ds dst = dst @ fields_bytes tag deleted_bytes ds"
  by (induction ds arbitrary: dst) (simp_all add: PutVarint32_def PutVarint64_def)

lemma EncodeTo_files_bytes:
  "files_ok fs \<Longrightarrow> EncodeTo_files tag fs dst = Some (dst @ fields_bytes tag file_bytes fs)"
  by (induction fs arbitrary: dst) (simp_all add: files_ok_def PutInternalKey_Some PutVarint32_def PutVarint64_def Let_def)

lemma EncodeTo_dependencies_bytes:
  "EncodeTo_dependencies ds dst =
    dst @ fields_bytes kDependency (\<lambda>d. EncodeVarint64 (fst d) @ EncodeVarint64 (snd d)) ds"
  by (induction ds arbitrary: dst) (simp_all add: PutVarint32_def PutVarint64_def)

lemma GetLevel_codec [simp]:
  "level < kNumLevels \<Longrightarrow> GetLevel (EncodeVarint32 (word_of_nat level) @ rest) = Some (level, rest)"
  by (simp add: GetLevel_def kNumLevels_def unsigned_of_nat take_bit_nat_eq_self)

lemma GetInternalKey_codec [simp]:
  "length key < 2 ^ 32 \<Longrightarrow> GetInternalKey (EncodeVarint32 (word_of_nat (length key)) @ key @ rest) = Some (key, rest)"
  by (simp add: GetInternalKey_def)

lemma GetPointer_codec: "pointers_ok ps \<Longrightarrow> p \<in> set ps \<Longrightarrow> GetPointer (pointer_bytes p @ rest) = Some (p, rest)"
  by (simp add: GetPointer_def pointers_ok_def)

lemma GetDeleted_codec: "deleted_ok ds \<Longrightarrow> d \<in> set ds \<Longrightarrow> GetDeleted (deleted_bytes d @ rest) = Some (d, rest)"
  by (simp add: GetDeleted_def deleted_ok_def)

lemma GetNewFile_codec:
  assumes "files_ok fs" "nf \<in> set fs"
  shows "GetNewFile (file_bytes nf @ rest) = Some (nf, rest)"
proof (cases nf)
  case (Pair level f)
  then show ?thesis
    using assms by (cases f) (auto simp add: GetNewFile_def files_ok_def FileMetaData_make_def)
qed

lemmas field_codecs = GetPointer_codec GetDeleted_codec GetNewFile_codec

text \<open>A list-valued field: \<open>update\<close> is the update function of the record field and \<open>add\<close> what one entry does.\<close>

lemma DecodeFrom_loop_list:
  assumes "\<And>x rest e. x \<in> set xs \<Longrightarrow> DecodeFrom_field tag (enc x @ rest) e = Some (Inr (update (add x) e, rest))"
    and "\<And>f g e. update f (update g e) = update (f \<circ> g) e" "\<And>e. update id e = e"
  shows "DecodeFrom_loop (fields_bytes tag enc xs @ rest) e = DecodeFrom_loop rest (update (fold add xs) e)"
proof -
  have "DecodeFrom_loop (fields_bytes tag enc xs @ rest) e = DecodeFrom_loop rest (fold (\<lambda>x. update (add x)) xs e)"
    by (rule DecodeFrom_loop_fields) (rule assms(1))
  moreover have "fold (\<lambda>x. update (add x)) xs e = update (fold add xs) e"
    by (induction xs arbitrary: e) (simp_all add: assms(2,3) comp_def id_def [symmetric])
  ultimately show ?thesis by simp
qed

lemma fold_snoc: "fold (\<lambda>x ys. ys @ [x]) xs = (\<lambda>ys. ys @ xs)"
  by (induction xs) (simp_all add: fun_eq_iff)

lemma decode_pointers:
  assumes "pointers_ok ps"
  shows "DecodeFrom_loop (fields_bytes kCompactPointer pointer_bytes ps @ rest) e =
      DecodeFrom_loop rest (ve_compact_pointers_update (fold (\<lambda>x ys. ys @ [x]) ps) e)"
    and "DecodeFrom_loop (fields_bytes kCompactVPointer pointer_bytes ps @ rest) e =
      DecodeFrom_loop rest (ve_compact_vpointers_update (fold (\<lambda>x ys. ys @ [x]) ps) e)"
  by (rule DecodeFrom_loop_list; use assms in \<open>simp add: DecodeFrom_field_def field_codecs Tag_defs del: append_assoc\<close>)+

lemma decode_files:
  assumes "files_ok fs"
  shows "DecodeFrom_loop (fields_bytes kNewFile file_bytes fs @ rest) e =
      DecodeFrom_loop rest (ve_new_files_update (fold (\<lambda>x ys. ys @ [x]) fs) e)"
    and "DecodeFrom_loop (fields_bytes kNewVFile file_bytes fs @ rest) e =
      DecodeFrom_loop rest (ve_new_vfiles_update (fold (\<lambda>x ys. ys @ [x]) fs) e)"
  by (rule DecodeFrom_loop_list; use assms in \<open>simp add: DecodeFrom_field_def field_codecs Tag_defs del: append_assoc\<close>)+

lemma decode_deleted:
  assumes "deleted_ok ds"
  shows "DecodeFrom_loop (fields_bytes kDeletedFile deleted_bytes ds @ rest) e =
      DecodeFrom_loop rest (ve_deleted_files_update (fold insort_insert ds) e)"
    and "DecodeFrom_loop (fields_bytes kDeletedVFile deleted_bytes ds @ rest) e =
      DecodeFrom_loop rest (ve_deleted_vfiles_update (fold insort_insert ds) e)"
  by (rule DecodeFrom_loop_list; use assms in \<open>simp add: DecodeFrom_field_def field_codecs Tag_defs del: append_assoc\<close>)+

lemma fold_insort_insert:
  "sorted (acc @ ds) \<Longrightarrow> distinct (acc @ ds) \<Longrightarrow> fold insort_insert ds acc = acc @ ds"
proof (induction ds arbitrary: acc)
  case (Cons d ds)
  have "insort_insert d acc = acc @ [d]"
  proof -
    have "insort d acc = acc @ [d]"
      using Cons.prems by (induction acc) (auto simp add: sorted_append)
    then show ?thesis
      using Cons.prems(2) by (simp add: insort_insert_key_def)
  qed
  then show ?case
    using Cons.IH [of "acc @ [d]"] Cons.prems by simp
qed simp

lemma decode_dependencies:
  "DecodeFrom_loop (fields_bytes kDependency (\<lambda>d. EncodeVarint64 (fst d) @ EncodeVarint64 (snd d)) ds @ rest) e =
    Option.bind (replay ds (ve_dep e)) (\<lambda>m. DecodeFrom_loop rest (e\<lparr>ve_dep := m\<rparr>))"
proof (induction ds arbitrary: e)
  case (Cons d ds)
  then show ?case
    by (cases "SetParent (snd d) (fst d) (ve_dep e)"; subst DecodeFrom_loop.simps)
      (simp_all add: DecodeFrom_field_def Tag_defs)
qed simp

text \<open>The numbers are optional fields.\<close>

abbreviation opt_field :: "bool \<Rightarrow> u32 \<Rightarrow> bytes \<Rightarrow> bytes" where
  "opt_field has tag body \<equiv> if has then EncodeVarint32 tag @ body else []"

lemma DecodeFrom_loop_opt:
  assumes "DecodeFrom_field tag (body @ rest) e = Some (Inr (e', rest))"
  shows "DecodeFrom_loop (opt_field has tag body @ rest) e = DecodeFrom_loop rest (if has then e' else e)"
  using DecodeFrom_loop_field [OF assms] by simp

definition numbers_bytes :: "VersionEdit \<Rightarrow> bytes" where
  "numbers_bytes e =
     opt_field (ve_has_comparator e) kComparator (length_prefixed (ve_comparator e)) @
     opt_field (ve_has_log_number e) kLogNumber (EncodeVarint64 (ve_log_number e)) @
     opt_field (ve_has_prev_log_number e) kPrevLogNumber (EncodeVarint64 (ve_prev_log_number e)) @
     opt_field (ve_has_next_file_number e) kNextFileNumber (EncodeVarint64 (ve_next_file_number e)) @
     opt_field (ve_has_last_sequence e) kLastSequence (EncodeVarint64 (ve_last_sequence e))"

lemma EncodeTo_numbers_bytes: "EncodeTo_numbers e dst = dst @ numbers_bytes e"
  by (simp add: EncodeTo_numbers_def numbers_bytes_def PutVarint32_def PutVarint64_def PutLengthPrefixedSlice_eq Let_def)

lemma decode_numbers:
  assumes "numbers_ok e"
  shows "DecodeFrom_loop (numbers_bytes e @ rest) VersionEdit_make =
    DecodeFrom_loop rest (VersionEdit_make\<lparr>
      ve_comparator := ve_comparator e, ve_has_comparator := ve_has_comparator e,
      ve_log_number := ve_log_number e, ve_has_log_number := ve_has_log_number e,
      ve_prev_log_number := ve_prev_log_number e, ve_has_prev_log_number := ve_has_prev_log_number e,
      ve_next_file_number := ve_next_file_number e, ve_has_next_file_number := ve_has_next_file_number e,
      ve_last_sequence := ve_last_sequence e, ve_has_last_sequence := ve_has_last_sequence e\<rparr>)"
proof -
  have c: "DecodeFrom_loop (opt_field (ve_has_comparator e) kComparator (length_prefixed (ve_comparator e)) @ rest) a =
      DecodeFrom_loop rest (if ve_has_comparator e then a\<lparr>ve_comparator := ve_comparator e, ve_has_comparator := True\<rparr> else a)" for rest a
    using assms by (intro DecodeFrom_loop_opt) (simp add: DecodeFrom_field_def numbers_ok_def)
  have l: "DecodeFrom_loop (opt_field (ve_has_log_number e) kLogNumber (EncodeVarint64 (ve_log_number e)) @ rest) a =
      DecodeFrom_loop rest (if ve_has_log_number e then a\<lparr>ve_log_number := ve_log_number e, ve_has_log_number := True\<rparr> else a)" for rest a
    by (intro DecodeFrom_loop_opt) (simp add: DecodeFrom_field_def Tag_defs)
  have p: "DecodeFrom_loop (opt_field (ve_has_prev_log_number e) kPrevLogNumber (EncodeVarint64 (ve_prev_log_number e)) @ rest) a =
      DecodeFrom_loop rest (if ve_has_prev_log_number e then a\<lparr>ve_prev_log_number := ve_prev_log_number e, ve_has_prev_log_number := True\<rparr> else a)" for rest a
    by (intro DecodeFrom_loop_opt) (simp add: DecodeFrom_field_def Tag_defs)
  have n: "DecodeFrom_loop (opt_field (ve_has_next_file_number e) kNextFileNumber (EncodeVarint64 (ve_next_file_number e)) @ rest) a =
      DecodeFrom_loop rest (if ve_has_next_file_number e then a\<lparr>ve_next_file_number := ve_next_file_number e, ve_has_next_file_number := True\<rparr> else a)" for rest a
    by (intro DecodeFrom_loop_opt) (simp add: DecodeFrom_field_def Tag_defs)
  have s: "DecodeFrom_loop (opt_field (ve_has_last_sequence e) kLastSequence (EncodeVarint64 (ve_last_sequence e)) @ rest) a =
      DecodeFrom_loop rest (if ve_has_last_sequence e then a\<lparr>ve_last_sequence := ve_last_sequence e, ve_has_last_sequence := True\<rparr> else a)" for rest a
    by (intro DecodeFrom_loop_opt) (simp add: DecodeFrom_field_def Tag_defs)
  show ?thesis
    unfolding numbers_bytes_def append_assoc c l p n s
    using assms by (intro arg_cong [of _ _ "DecodeFrom_loop rest"])
      (auto simp add: numbers_ok_def VersionEdit_make_def VersionEdit_Clear_def)
qed

lemma version_edit_codec:
  assumes "edit_ok e"
  shows "\<exists>src e'. VersionEdit_EncodeTo e [] = Some src \<and>
    VersionEdit_DecodeFrom src VersionEdit_make = Some (Status_OK, e') \<and>
    e' = e\<lparr>ve_dep := ve_dep e'\<rparr> \<and> root_of (ve_dep e') = root_of (ve_dep e)"
proof -
  have ok: "numbers_ok e" "pointers_ok (ve_compact_pointers e)" "pointers_ok (ve_compact_vpointers e)"
      "deleted_ok (ve_deleted_files e)" "deleted_ok (ve_deleted_vfiles e)"
      "files_ok (ve_new_files e)" "files_ok (ve_new_vfiles e)" "dep_reach (ve_dep e)"
    using assms by (simp_all add: edit_ok_def)
  obtain m where m: "replay (ve_dep e) [] = Some m" "root_of m = root_of (ve_dep e)"
    using replay_dep_reach [OF ok(8)] by blast
  have sets: "fold insort_insert (ve_deleted_files e) [] = ve_deleted_files e"
      "fold insort_insert (ve_deleted_vfiles e) [] = ve_deleted_vfiles e"
    using ok(4,5) fold_insort_insert [of "[]" "ve_deleted_files e"] fold_insort_insert [of "[]" "ve_deleted_vfiles e"]
    by (simp_all add: deleted_ok_def)
  define src where "src = numbers_bytes e @ fields_bytes kCompactPointer pointer_bytes (ve_compact_pointers e) @
    fields_bytes kCompactVPointer pointer_bytes (ve_compact_vpointers e) @
    fields_bytes kDeletedFile deleted_bytes (ve_deleted_files e) @ fields_bytes kDeletedVFile deleted_bytes (ve_deleted_vfiles e) @
    fields_bytes kNewFile file_bytes (ve_new_files e) @ fields_bytes kNewVFile file_bytes (ve_new_vfiles e) @
    fields_bytes kDependency (\<lambda>d. EncodeVarint64 (fst d) @ EncodeVarint64 (snd d)) (ve_dep e) @ []"
  have "VersionEdit_EncodeTo e [] = Some src"
    using ok by (simp add: VersionEdit_EncodeTo_def EncodeTo_numbers_bytes EncodeTo_pointers_bytes EncodeTo_deleted_bytes
        EncodeTo_files_bytes EncodeTo_dependencies_bytes src_def)
  moreover have "DecodeFrom_loop [] a = Some (None, [], a)" for a
    by (subst DecodeFrom_loop.simps) (simp add: GetVarint32_def GetVarint32Ptr_def GetVarint32PtrFallback_def)
  then have "DecodeFrom_loop src VersionEdit_make = Some (None, [], e\<lparr>ve_dep := m\<rparr>)"
    unfolding src_def decode_numbers [OF ok(1)] decode_pointers(1) [OF ok(2)] decode_pointers(2) [OF ok(3)]
      decode_deleted(1) [OF ok(4)] decode_deleted(2) [OF ok(5)] decode_files(1) [OF ok(6)] decode_files(2) [OF ok(7)]
      decode_dependencies
    by (simp add: m(1) sets fold_snoc VersionEdit_make_def VersionEdit_Clear_def)
  moreover have "VersionEdit_Clear VersionEdit_make = VersionEdit_make"
    by (simp add: VersionEdit_make_def VersionEdit_Clear_def)
  ultimately show ?thesis
    using m(2) by (intro exI [of _ src] exI [of _ "e\<lparr>ve_dep := m\<rparr>"]) (simp add: VersionEdit_DecodeFrom_def)
qed

text \<open>C35. Manifest records: every edit that the setters build can be written, and reading the bytes into
  a fresh edit succeeds and gives back all its fields; the dependencies come back as a map with the
  same roots.\<close>

theorem version_edit_round_trip:
  assumes "edit_reach e"
  shows "\<exists>src e'. VersionEdit_EncodeTo e [] = Some src \<and>
    VersionEdit_DecodeFrom src VersionEdit_make = Some (Status_OK, e') \<and>
    e' = e\<lparr>ve_dep := ve_dep e'\<rparr> \<and> root_of (ve_dep e') = root_of (ve_dep e)"
  by (rule version_edit_codec [OF edit_reach_ok [OF assms]])

theorem version_edit_round_trip_witness:
  "\<exists>src e'. VersionEdit_EncodeTo (SetLogNumber 7 (VersionEdit_DeleteFile 3 5 (AddFile 1 9 100 [1] [2, 3] VersionEdit_make))) [] = Some src \<and>
     VersionEdit_DecodeFrom src VersionEdit_make = Some (Status_OK, e') \<and>
     ve_log_number e' = 7 \<and> ve_deleted_files e' = [(3, 5)] \<and> map (fm_largest \<circ> snd) (ve_new_files e') = [[2, 3]]"
proof -
  let ?e = "SetLogNumber 7 (VersionEdit_DeleteFile 3 5 (AddFile 1 9 100 [1] [2, 3] VersionEdit_make))"
  have "edit_reach ?e"
    by (intro edit_reach.intros) (simp_all add: kNumLevels_def)
  then obtain src e' where r: "VersionEdit_EncodeTo ?e [] = Some src"
      "VersionEdit_DecodeFrom src VersionEdit_make = Some (Status_OK, e')" "e' = ?e\<lparr>ve_dep := ve_dep e'\<rparr>"
    using version_edit_round_trip [of ?e] by blast
  have "ve_log_number e' = 7" "ve_deleted_files e' = [(3, 5)]" "map (fm_largest \<circ> snd) (ve_new_files e') = [[2, 3]]"
    unfolding arg_cong [OF r(3), of ve_log_number] arg_cong [OF r(3), of ve_deleted_files] arg_cong [OF r(3), of ve_new_files]
    by (simp_all add: SetLogNumber_def VersionEdit_DeleteFile_def AddFile_def VersionEdit_make_def VersionEdit_Clear_def insort_insert_key_def)
  then show ?thesis
    using r(1,2) by (intro exI [of _ src] exI [of _ e'] conjI)
qed

section \<open>Arbitrary records\<close>

definition edit_typed :: "VersionEdit \<Rightarrow> bool" where
  "edit_typed e \<longleftrightarrow> (\<forall>p\<in>set (ve_compact_pointers e) \<union> set (ve_compact_vpointers e). fst p < kNumLevels) \<and>
     deleted_ok (ve_deleted_files e) \<and> deleted_ok (ve_deleted_vfiles e) \<and>
     (\<forall>nf\<in>set (ve_new_files e) \<union> set (ve_new_vfiles e). fst nf < kNumLevels) \<and> dep_reach (ve_dep e)"

lemma GetLevel_less: "GetLevel input = Some (level, rest) \<Longrightarrow> level < kNumLevels"
  by (auto simp add: GetLevel_def split: option.splits if_splits)

lemma field_levels:
  "GetPointer input = Some (p, rest) \<Longrightarrow> fst p < kNumLevels"
  "GetDeleted input = Some (d, rest) \<Longrightarrow> fst d < kNumLevels"
  "GetNewFile input = Some (nf, rest) \<Longrightarrow> fst nf < kNumLevels"
  by (auto simp add: GetPointer_def GetDeleted_def GetNewFile_def bind_eq_Some_conv dest: GetLevel_less)

lemma SetParent_reach:
  assumes "dep_reach m"
  obtains m' where "SetParent p c m = Some m'" "dep_reach m'"
proof -
  obtain rp rc where "root_of m p rp" "root_of m c rc"
    using dep_reach_forest [OF assms] unfolding forest_def by blast
  then show thesis
    using SetParent_links [OF dep_reach_forest [OF assms]] that dep_reach.set [OF assms] by blast
qed

definition field_typed :: "(string + VersionEdit \<times> bytes) option \<Rightarrow> bool" where
  "field_typed r \<longleftrightarrow> (\<exists>x. r = Some x \<and> (\<forall>e rest. x = Inr (e, rest) \<longrightarrow> edit_typed e))"

lemma field_typed_simps [simp]:
  "field_typed (Some (Inl msg))" "field_typed (Some (Inr (e, rest))) \<longleftrightarrow> edit_typed e"
  by (simp_all add: field_typed_def)

lemma field_typed_if: "(b \<Longrightarrow> field_typed x) \<Longrightarrow> (\<not> b \<Longrightarrow> field_typed y) \<Longrightarrow> field_typed (if b then x else y)"
  by simp

lemma DecodeFrom_field_typed:
  assumes "edit_typed e"
  shows "field_typed (DecodeFrom_field tag input e)"
  unfolding DecodeFrom_field_def
proof (intro field_typed_if)
  have dep: "dep_reach (ve_dep e)"
    using assms by (simp add: edit_typed_def)
  show "field_typed (case Option.bind (GetVarint64 input) (\<lambda>(child, input).
              Option.bind (GetVarint64 input) (\<lambda>(parent, input). Some (child, parent, input))) of
           None \<Rightarrow> Some (Inl ''dependency'')
         | Some (child, parent, input) \<Rightarrow>
             map_option (\<lambda>d. Inr (e\<lparr>ve_dep := d\<rparr>, input)) (SetParent parent child (ve_dep e)))"
  proof (split option.split, intro conjI impI allI)
    fix cpi :: "u64 \<times> u64 \<times> bytes"
    obtain c p i where cpi: "cpi = (c, p, i)" by (metis prod_cases3)
    obtain m where m: "SetParent p c (ve_dep e) = Some m" "dep_reach m"
      using SetParent_reach [OF dep] by blast
    then show "field_typed (case cpi of (child, parent, input) \<Rightarrow>
        map_option (\<lambda>d. Inr (e\<lparr>ve_dep := d\<rparr>, input)) (SetParent parent child (ve_dep e)))"
      using assms by (simp add: cpi edit_typed_def)
  qed simp
qed (use assms in \<open>auto split: option.split prod.split dest!: field_levels simp add: edit_typed_def deleted_ok_insert\<close>)

lemma DecodeFrom_loop_typed:
  "edit_typed e \<Longrightarrow> \<exists>msg rest e'. DecodeFrom_loop input e = Some (msg, rest, e') \<and> edit_typed e'"
proof (induction input e rule: DecodeFrom_loop.induct)
  case (1 input e)
  show ?case
  proof (cases "GetVarint32 input")
    case None
    then show ?thesis
      using 1(2) by (subst DecodeFrom_loop.simps) simp
  next
    case (Some ti)
    obtain tag i where ti: "ti = (tag, i)" by fastforce
    obtain r where r: "DecodeFrom_field tag i e = Some r" "\<And>e' rest. r = Inr (e', rest) \<Longrightarrow> edit_typed e'"
      using DecodeFrom_field_typed [OF 1(2)] unfolding field_typed_def by blast
    show ?thesis
    proof (cases r)
      case (Inl msg)
      then show ?thesis
        using Some ti r(1) 1(2) by (subst DecodeFrom_loop.simps) simp
    next
      case (Inr ei)
      obtain e' rest where ei: "ei = (e', rest)" by fastforce
      have "DecodeFrom_loop input e = DecodeFrom_loop rest e'"
        using Some ti r(1) Inr ei by (subst DecodeFrom_loop.simps) simp
      then show ?thesis
        using 1(1) [OF Some ti [symmetric] r(1) Inr ei [symmetric]] r(2) Inr ei by simp
    qed
  qed
qed

text \<open>C36. Reading any bytes as a manifest record ends, with success or a corruption status; whatever
  they are, all levels of the edit exist, its sets are sorted and its dependencies are a forest.\<close>

theorem version_edit_decode_typed:
  "\<exists>s e. VersionEdit_DecodeFrom src VersionEdit_make = Some (s, e) \<and> (Status_ok s \<or> Status_IsCorruption s) \<and> edit_typed e"
proof -
  have "edit_typed (VersionEdit_Clear VersionEdit_make)"
    by (simp add: edit_typed_def VersionEdit_make_def VersionEdit_Clear_def deleted_ok_def dep_reach.empty)
  then obtain msg rest e where loop: "DecodeFrom_loop src (VersionEdit_Clear VersionEdit_make) = Some (msg, rest, e)" "edit_typed e"
    using DecodeFrom_loop_typed by blast
  show ?thesis
  proof (cases "if msg = None \<and> rest \<noteq> [] then Some ''invalid tag'' else msg")
    case None
    then show ?thesis
      using loop by (simp add: VersionEdit_DecodeFrom_def)
  next
    case (Some m)
    then show ?thesis
      using loop by (simp add: VersionEdit_DecodeFrom_def Status_IsCorruption_def)
  qed
qed

end
