(* ===== verification/Block_Format.thy ===== *)
theory Block_Format
  imports Internal_Keys
begin

text \<open>
  Blocks of a table: \<^verbatim>\<open>table/block_builder.cc\<close> writes them, \<^verbatim>\<open>table/block.h\<close> and \<^verbatim>\<open>table/block.cc\<close>
  read them. A block is a sequence of entries followed by the offsets of its restart points and
  their number. The iterator scans entries, searches the restart points by bisection and moves
  backwards by scanning from a restart point. Offsets into a block are natural numbers: a block is
  shorter than 4 GiB.
\<close>

section \<open>Builder\<close>

record BlockBuilder =
  bb_buffer :: bytes
  bb_restarts :: "nat list"
  bb_counter :: nat
  bb_num_entries :: u32
  bb_finished :: bool
  bb_last_key :: bytes

definition BlockBuilder_make :: BlockBuilder where
  "BlockBuilder_make =
     \<lparr>bb_buffer = [], bb_restarts = [0], bb_counter = 0, bb_num_entries = 0, bb_finished = False,
      bb_last_key = []\<rparr>"

definition BlockBuilder_Reset :: "BlockBuilder \<Rightarrow> BlockBuilder" where
  "BlockBuilder_Reset b =
     b\<lparr>bb_buffer := [], bb_restarts := [0], bb_counter := 0, bb_num_entries := 0,
       bb_finished := False, bb_last_key := []\<rparr>"

definition BlockBuilder_CurrentSizeEstimate :: "BlockBuilder \<Rightarrow> nat" where
  "BlockBuilder_CurrentSizeEstimate b = length (bb_buffer b) + length (bb_restarts b) * 4 + 4"

definition BlockBuilder_BlockOffset :: "BlockBuilder \<Rightarrow> u32" where
  "BlockBuilder_BlockOffset b = bb_num_entries b"

definition BlockBuilder_empty :: "BlockBuilder \<Rightarrow> bool" where
  "BlockBuilder_empty b = (bb_buffer b = [])"

definition BlockBuilder_Finish :: "BlockBuilder \<Rightarrow> bytes \<times> BlockBuilder" where
  "BlockBuilder_Finish b =
     (let buffer = foldl (\<lambda>buffer r. PutFixed32 buffer (word_of_nat r)) (bb_buffer b) (bb_restarts b);
          buffer = PutFixed32 buffer (word_of_nat (length (bb_restarts b)))
      in (buffer, b\<lparr>bb_buffer := buffer, bb_finished := True\<rparr>))"

text \<open>The loop that counts the bytes shared with the previous key is commented out in the code.\<close>

definition BlockBuilder_Add :: "nat \<Rightarrow> bytes \<Rightarrow> bytes \<Rightarrow> BlockBuilder \<Rightarrow> BlockBuilder" where
  "BlockBuilder_Add block_restart_interval key value b =
     (let shared = 0 :: nat;
          b = (if bb_counter b < block_restart_interval then b
               else b\<lparr>bb_restarts := bb_restarts b @ [length (bb_buffer b)], bb_counter := 0\<rparr>);
          non_shared = length key - shared;
          buffer = PutVarint32 (bb_buffer b) (word_of_nat shared);
          buffer = PutVarint32 buffer (word_of_nat non_shared);
          buffer = PutVarint32 buffer (word_of_nat (length value));
          buffer = buffer @ take non_shared (drop shared key);
          buffer = buffer @ value
      in b\<lparr>bb_buffer := buffer, bb_last_key := take shared (bb_last_key b) @ take non_shared (drop shared key),
           bb_counter := bb_counter b + 1, bb_num_entries := bb_num_entries b + 1\<rparr>)"

section \<open>Block\<close>

record Block =
  bl_data :: bytes
  bl_size :: nat
  bl_restart_offset :: nat

definition Block_NumRestarts :: "bytes \<Rightarrow> nat \<Rightarrow> nat" where
  "Block_NumRestarts data sz = unat (GetFixed32 (drop (sz - 4) data))"

text \<open>\<open>bl_size\<close> 0 marks an error; the restart offset is then not set.\<close>

definition Block_make :: "bytes \<Rightarrow> Block" where
  "Block_make contents =
     (let sz = length contents in
      if sz < 4 then \<lparr>bl_data = contents, bl_size = 0, bl_restart_offset = 0\<rparr>
      else
        let max_restarts_allowed = (sz - 4) div 4
        in if Block_NumRestarts contents sz > max_restarts_allowed
           then \<lparr>bl_data = contents, bl_size = 0, bl_restart_offset = 0\<rparr>
           else \<lparr>bl_data = contents, bl_size = sz,
                 bl_restart_offset = sz - (1 + Block_NumRestarts contents sz) * 4\<rparr>)"

text \<open>
  \<^verbatim>\<open>DecodeEntry\<close> on the bytes up to the limit: the three lengths and the number of bytes they take.
  The sum of the lengths is computed in 32 bits.
\<close>

definition DecodeEntry :: "bytes \<Rightarrow> (u32 \<times> u32 \<times> u32 \<times> nat) option" where
  "DecodeEntry p =
     (if length p < 3 then None
      else
        let shared = ucast (p ! 0) :: u32;
            non_shared = ucast (p ! 1);
            value_length = ucast (p ! 2);
            header =
              (if (shared OR non_shared OR value_length) < 128
               then Some (shared, non_shared, value_length, drop 3 p)
               else case GetVarint32Ptr p of None \<Rightarrow> None
                    | Some (shared, q) \<Rightarrow> (case GetVarint32Ptr q of None \<Rightarrow> None
                    | Some (non_shared, q) \<Rightarrow> (case GetVarint32Ptr q of None \<Rightarrow> None
                    | Some (value_length, q) \<Rightarrow> Some (shared, non_shared, value_length, q))))
        in case header of None \<Rightarrow> None
           | Some (shared, non_shared, value_length, q) \<Rightarrow>
               if (word_of_nat (length q) :: u32) < non_shared + value_length then None
               else Some (shared, non_shared, value_length, length p - length q))"

section \<open>Iterator\<close>

text \<open>The value is a range of the data, because the next entry starts where the value ends.\<close>

record BlockIter =
  it_data :: bytes
  it_restarts :: nat
  it_num_restarts :: nat
  it_current :: nat
  it_restart_index :: nat
  it_key :: bytes
  it_value_pos :: nat
  it_value_len :: nat
  it_status :: status

definition BlockIter_make :: "bytes \<Rightarrow> nat \<Rightarrow> nat \<Rightarrow> BlockIter" where
  "BlockIter_make data restarts num_restarts =
     \<lparr>it_data = data, it_restarts = restarts, it_num_restarts = num_restarts, it_current = restarts,
      it_restart_index = num_restarts, it_key = [], it_value_pos = 0, it_value_len = 0,
      it_status = Status_OK\<rparr>"

datatype block_iterator = ErrorIterator status | EmptyIterator | Iter BlockIter

definition Block_NewIterator :: "Block \<Rightarrow> block_iterator" where
  "Block_NewIterator b =
     (if bl_size b < 4 then ErrorIterator (Corruption ''bad block contents'')
      else
        let num_restarts = Block_NumRestarts (bl_data b) (bl_size b)
        in if num_restarts = 0 then EmptyIterator
           else Iter (BlockIter_make (bl_data b) (bl_restart_offset b) num_restarts))"

definition BlockIter_Valid :: "BlockIter \<Rightarrow> bool" where
  "BlockIter_Valid it = (it_current it < it_restarts it)"

definition BlockIter_value :: "BlockIter \<Rightarrow> bytes" where
  "BlockIter_value it = take (it_value_len it) (drop (it_value_pos it) (it_data it))"

definition NextEntryOffset :: "BlockIter \<Rightarrow> nat" where
  "NextEntryOffset it = it_value_pos it + it_value_len it"

definition GetRestartPoint :: "BlockIter \<Rightarrow> nat \<Rightarrow> nat" where
  "GetRestartPoint it index = unat (GetFixed32 (drop (it_restarts it + index * 4) (it_data it)))"

definition SeekToRestartPoint :: "nat \<Rightarrow> BlockIter \<Rightarrow> BlockIter" where
  "SeekToRestartPoint index it =
     it\<lparr>it_key := [], it_restart_index := index, it_value_pos := GetRestartPoint it index, it_value_len := 0\<rparr>"

text \<open>The cleared value points to no data; its position is not used before it is set again.\<close>

definition CorruptionError :: "BlockIter \<Rightarrow> BlockIter" where
  "CorruptionError it =
     it\<lparr>it_current := it_restarts it, it_restart_index := it_num_restarts it,
       it_status := Corruption ''bad entry in block'', it_key := [], it_value_pos := 0, it_value_len := 0\<rparr>"

function advance_restart_index :: "BlockIter \<Rightarrow> BlockIter" where
  "advance_restart_index it =
     (if it_restart_index it + 1 < it_num_restarts it \<and>
         GetRestartPoint it (it_restart_index it + 1) < it_current it
      then advance_restart_index (it\<lparr>it_restart_index := it_restart_index it + 1\<rparr>) else it)"
  by pat_completeness auto
termination
  by (relation "measure (\<lambda>it. it_num_restarts it - it_restart_index it)") auto

declare advance_restart_index.simps [simp del]

definition ParseNextKey :: "BlockIter \<Rightarrow> bool \<times> BlockIter" where
  "ParseNextKey it =
     (let it = it\<lparr>it_current := NextEntryOffset it\<rparr> in
      if it_current it \<ge> it_restarts it then
        (False, it\<lparr>it_current := it_restarts it, it_restart_index := it_num_restarts it\<rparr>)
      else
        case DecodeEntry (drop (it_current it) (take (it_restarts it) (it_data it))) of
          None \<Rightarrow> (False, CorruptionError it)
        | Some (shared, non_shared, value_length, n) \<Rightarrow>
            if length (it_key it) < unat shared then (False, CorruptionError it)
            else
              let p = it_current it + n;
                  it = it\<lparr>it_key := take (unat shared) (it_key it) @ take (unat non_shared) (drop p (it_data it)),
                          it_value_pos := p + unat non_shared, it_value_len := unat value_length\<rparr>
              in (True, advance_restart_index it))"

definition BlockIter_Next :: "BlockIter \<Rightarrow> BlockIter" where
  "BlockIter_Next it = snd (ParseNextKey it)"

definition BlockIter_SeekToFirst :: "BlockIter \<Rightarrow> BlockIter" where
  "BlockIter_SeekToFirst it = snd (ParseNextKey (SeekToRestartPoint 0 it))"

text \<open>A step that finds an entry moves forward, which is why the scans below end.\<close>

lemma GetVarint32Ptr_length: "GetVarint32Ptr p = Some (v, q) \<Longrightarrow> length q < length p"
proof -
  have "varint_loop n s r p = Some (v, q) \<Longrightarrow> length q < length p" for n s r
    by (induction n s r p rule: varint_loop.induct) (auto simp add: Let_def split: if_splits)
  then show "GetVarint32Ptr p = Some (v, q) \<Longrightarrow> length q < length p"
    by (simp add: GetVarint32Ptr_varint_loop)
qed

lemma DecodeEntry_length: "DecodeEntry p = Some (s, n, v, k) \<Longrightarrow> 0 < k"
  by (auto simp add: DecodeEntry_def Let_def dest!: GetVarint32Ptr_length split: if_splits option.splits prod.splits)

lemma advance_restart_index_simps [simp]:
  "it_data (advance_restart_index it) = it_data it"
  "it_restarts (advance_restart_index it) = it_restarts it"
  "it_num_restarts (advance_restart_index it) = it_num_restarts it"
  "it_current (advance_restart_index it) = it_current it"
  "it_key (advance_restart_index it) = it_key it"
  "it_value_pos (advance_restart_index it) = it_value_pos it"
  "it_value_len (advance_restart_index it) = it_value_len it"
  "it_status (advance_restart_index it) = it_status it"
  by (induction it rule: advance_restart_index.induct; subst advance_restart_index.simps; simp)+

lemma ParseNextKey_progress:
  assumes "ParseNextKey it = (True, it')"
  shows "NextEntryOffset it < it_restarts it \<and> NextEntryOffset it < NextEntryOffset it' \<and> it_restarts it' = it_restarts it"
  using assms
  by (auto simp add: ParseNextKey_def NextEntryOffset_def Let_def dest!: DecodeEntry_length split: if_splits option.splits prod.splits)

definition scan_measure :: "BlockIter \<Rightarrow> nat" where
  "scan_measure it = it_restarts it - NextEntryOffset it"

lemma ParseNextKey_measure: "ParseNextKey it = (True, it') \<Longrightarrow> scan_measure it' < scan_measure it"
  using ParseNextKey_progress [of it it'] by (auto simp add: scan_measure_def)

function Prev_restart :: "nat \<Rightarrow> BlockIter \<Rightarrow> bool \<times> BlockIter" where
  "Prev_restart original it =
     (if GetRestartPoint it (it_restart_index it) \<ge> original then
        if it_restart_index it = 0 then
          (False, it\<lparr>it_current := it_restarts it, it_restart_index := it_num_restarts it\<rparr>)
        else Prev_restart original (it\<lparr>it_restart_index := it_restart_index it - 1\<rparr>)
      else (True, it))"
  by pat_completeness auto
termination
  by (relation "measure (\<lambda>(_, it). it_restart_index it)") auto

declare Prev_restart.simps [simp del]

function Prev_scan :: "nat \<Rightarrow> BlockIter \<Rightarrow> BlockIter" where
  "Prev_scan original it =
     (case ParseNextKey it of
        (found, it') \<Rightarrow> if found \<and> NextEntryOffset it' < original then Prev_scan original it' else it')"
  by pat_completeness auto
termination
  by (relation "measure (\<lambda>(_, it). scan_measure it)") (auto intro: ParseNextKey_measure)

declare Prev_scan.simps [simp del]

definition BlockIter_Prev :: "BlockIter \<Rightarrow> BlockIter" where
  "BlockIter_Prev it =
     (let original = it_current it;
          (more, it) = Prev_restart original it
      in if \<not> more then it else Prev_scan original (SeekToRestartPoint (it_restart_index it) it))"

text \<open>
  The bisection of \<^verbatim>\<open>Seek\<close>: the restart point where the scan starts, or \<^const>\<open>None\<close> for a bad entry.
\<close>

function Seek_bisect :: "(bytes \<Rightarrow> bytes \<Rightarrow> int) \<Rightarrow> bytes \<Rightarrow> BlockIter \<Rightarrow> nat \<Rightarrow> nat \<Rightarrow> nat option" where
  "Seek_bisect cmp target it left right =
     (if left < right then
        let mid = (left + right + 1) div 2;
            region_offset = GetRestartPoint it mid
        in case DecodeEntry (drop region_offset (take (it_restarts it) (it_data it))) of
             None \<Rightarrow> None
           | Some (shared, non_shared, value_length, n) \<Rightarrow>
               if shared \<noteq> 0 then None
               else
                 let mid_key = take (unat non_shared) (drop (region_offset + n) (it_data it))
                 in if cmp mid_key target < 0 then Seek_bisect cmp target it mid right
                    else Seek_bisect cmp target it left (mid - 1)
      else Some left)"
  by pat_completeness auto
termination
  by (relation "measure (\<lambda>(_, _, _, left, right). right - left)") auto

declare Seek_bisect.simps [simp del]

function Seek_scan :: "(bytes \<Rightarrow> bytes \<Rightarrow> int) \<Rightarrow> bytes \<Rightarrow> BlockIter \<Rightarrow> BlockIter" where
  "Seek_scan cmp target it =
     (case ParseNextKey it of
        (found, it') \<Rightarrow> if \<not> found \<or> cmp (it_key it') target \<ge> 0 then it' else Seek_scan cmp target it')"
  by pat_completeness auto
termination
  by (relation "measure (\<lambda>(_, _, it). scan_measure it)") (auto intro: ParseNextKey_measure)

declare Seek_scan.simps [simp del]

definition BlockIter_Seek :: "(bytes \<Rightarrow> bytes \<Rightarrow> int) \<Rightarrow> bytes \<Rightarrow> BlockIter \<Rightarrow> BlockIter" where
  "BlockIter_Seek cmp target it =
     (case Seek_bisect cmp target it 0 (it_num_restarts it - 1) of
        None \<Rightarrow> CorruptionError it
      | Some left \<Rightarrow> Seek_scan cmp target (SeekToRestartPoint left it))"

function SeekToLast_scan :: "BlockIter \<Rightarrow> BlockIter" where
  "SeekToLast_scan it =
     (case ParseNextKey it of
        (found, it') \<Rightarrow> if found \<and> NextEntryOffset it' < it_restarts it' then SeekToLast_scan it' else it')"
  by pat_completeness auto
termination
  by (relation "measure scan_measure") (auto intro: ParseNextKey_measure)

declare SeekToLast_scan.simps [simp del]

definition BlockIter_SeekToLast :: "BlockIter \<Rightarrow> BlockIter" where
  "BlockIter_SeekToLast it = SeekToLast_scan (SeekToRestartPoint (it_num_restarts it - 1) it)"

text \<open>
  \<^verbatim>\<open>Seek\<close> between two restart points, for the model-guided lookup. It takes the entry at a restart
  point and does not scan.
\<close>

function Seek_range_bisect :: "(bytes \<Rightarrow> bytes \<Rightarrow> int) \<Rightarrow> bytes \<Rightarrow> BlockIter \<Rightarrow> nat \<Rightarrow> nat \<Rightarrow> nat option" where
  "Seek_range_bisect cmp target it left right =
     (if left < right then
        let mid = (left + right) div 2;
            region_offset = GetRestartPoint it mid
        in case DecodeEntry (drop region_offset (take (it_restarts it) (it_data it))) of
             None \<Rightarrow> None
           | Some (shared, non_shared, value_length, n) \<Rightarrow>
               if shared \<noteq> 0 then None
               else
                 let mid_key = take (unat non_shared) (drop (region_offset + n) (it_data it));
                     comp = cmp mid_key target
                 in if comp < 0 then Seek_range_bisect cmp target it (mid + 1) right
                    else Seek_range_bisect cmp target it left mid
      else Some left)"
  by pat_completeness auto
termination
  by (relation "measure (\<lambda>(_, _, _, left, right). right - left)") auto

declare Seek_range_bisect.simps [simp del]

definition BlockIter_Seek_range :: "(bytes \<Rightarrow> bytes \<Rightarrow> int) \<Rightarrow> nat \<Rightarrow> nat \<Rightarrow> bytes \<Rightarrow> BlockIter \<Rightarrow> BlockIter" where
  "BlockIter_Seek_range cmp left right target it =
     (case Seek_range_bisect cmp target it left right of
        None \<Rightarrow> CorruptionError it
      | Some left \<Rightarrow> snd (ParseNextKey (SeekToRestartPoint left it)))"

text \<open>
  \<^verbatim>\<open>SeekToNth\<close> adds up the words of the restart array; \<^const>\<open>None\<close> stands for reading past the block.
\<close>

function SeekToNth_index :: "BlockIter \<Rightarrow> nat \<Rightarrow> nat \<Rightarrow> nat \<Rightarrow> (nat \<times> nat) option" where
  "SeekToNth_index it offset index cur_offset =
     (if it_restarts it + index * 4 + 4 > length (it_data it) then None
      else
        let cur_size = GetRestartPoint it index
        in if cur_offset + cur_size < offset
           then SeekToNth_index it offset (index + 1) (cur_offset + cur_size)
           else Some (index, cur_offset))"
  by pat_completeness auto
termination
  by (relation "measure (\<lambda>(it, _, index, _). length (it_data it) - index)") auto

declare SeekToNth_index.simps [simp del]

function SeekToNth_scan :: "nat \<Rightarrow> nat \<Rightarrow> BlockIter \<Rightarrow> BlockIter" where
  "SeekToNth_scan offset cur_offset it =
     (case ParseNextKey it of
        (found, it') \<Rightarrow>
          if found \<and> NextEntryOffset it' < it_restarts it' \<and> cur_offset < offset
          then SeekToNth_scan offset (cur_offset + 1) it' else it')"
  by pat_completeness auto
termination
  by (relation "measure (\<lambda>(_, _, it). scan_measure it)") (auto intro: ParseNextKey_measure)

declare SeekToNth_scan.simps [simp del]

definition BlockIter_SeekToNth :: "nat \<Rightarrow> BlockIter \<Rightarrow> BlockIter option" where
  "BlockIter_SeekToNth offset it =
     (case SeekToNth_index it offset 0 0 of
        None \<Rightarrow> None
      | Some (index, cur_offset) \<Rightarrow> Some (SeekToNth_scan offset cur_offset (SeekToRestartPoint index it)))"

section \<open>Entries\<close>

text \<open>The fast path of \<^const>\<open>DecodeEntry\<close> reads what three varints would give.\<close>

definition decode_header :: "bytes \<Rightarrow> (u32 \<times> u32 \<times> u32 \<times> bytes) option" where
  "decode_header p =
     (case GetVarint32Ptr p of None \<Rightarrow> None
      | Some (shared, q) \<Rightarrow> (case GetVarint32Ptr q of None \<Rightarrow> None
      | Some (non_shared, q) \<Rightarrow> (case GetVarint32Ptr q of None \<Rightarrow> None
      | Some (value_length, q) \<Rightarrow> Some (shared, non_shared, value_length, q))))"

lemma high_bit_or:
  fixes a b c :: u32
  assumes "(a OR b OR c) < 128"
  shows "a AND 128 = 0" "b AND 128 = 0" "c AND 128 = 0"
proof -
  have "unat (a OR b OR c) < 128"
    using assms by (simp add: word_less_nat_alt)
  then have "\<not> bit (unat (a OR b OR c)) 7"
    by (simp add: bit_iff_odd)
  then have "\<not> bit (a OR b OR c) 7"
    by (simp add: bit_unsigned_iff)
  then have "\<not> bit a 7" "\<not> bit b 7" "\<not> bit c 7"
    by (simp_all add: bit_or_iff)
  moreover have "x AND 128 = 0 \<longleftrightarrow> \<not> bit x 7" for x :: u32
    using and_exp_eq_0_iff_not_bit [of x 7] by simp
  ultimately show "a AND 128 = 0" "b AND 128 = 0" "c AND 128 = 0"
    by simp_all
qed

lemma DecodeEntry_header:
  "DecodeEntry p =
     (if length p < 3 then None
      else case decode_header p of None \<Rightarrow> None
        | Some (shared, non_shared, value_length, q) \<Rightarrow>
            if (word_of_nat (length q) :: u32) < non_shared + value_length then None
            else Some (shared, non_shared, value_length, length p - length q))"
proof (cases "length p < 3")
  case False
  then obtain a b c q where p: "p = a # b # c # q"
    by (metis Suc_le_length_iff not_less numeral_3_eq_3)
  show ?thesis
  proof (cases "(ucast a OR ucast b OR ucast c :: u32) < 128")
    case True
    then have "decode_header p = Some (ucast a, ucast b, ucast c, q)"
      using high_bit_or [of "ucast a" "ucast b" "ucast c"] by (simp add: decode_header_def GetVarint32Ptr_def p)
    then show ?thesis
      using True by (simp add: DecodeEntry_def p)
  next
    case False
    then show ?thesis
      unfolding p by (simp add: DecodeEntry_def decode_header_def [symmetric])
  qed
qed (simp add: DecodeEntry_def)

definition entry_header :: "bytes \<times> bytes \<Rightarrow> bytes" where
  "entry_header e =
     EncodeVarint32 0 @ EncodeVarint32 (word_of_nat (length (fst e))) @ EncodeVarint32 (word_of_nat (length (snd e)))"

definition block_entry :: "bytes \<times> bytes \<Rightarrow> bytes" where
  "block_entry e = entry_header e @ fst e @ snd e"

lemma length_entry_header: "3 \<le> length (entry_header e)"
proof -
  have "1 \<le> length (EncodeVarint32 v)" for v
    by (simp add: Suc_le_eq)
  from this [of 0] this [of "word_of_nat (length (fst e))"] this [of "word_of_nat (length (snd e))"]
  show ?thesis
    unfolding entry_header_def length_append by linarith
qed

lemma DecodeEntry_entry:
  assumes "length (block_entry e @ rest) < 2 ^ 32"
  shows "DecodeEntry (block_entry e @ rest) =
    Some (0, word_of_nat (length (fst e)), word_of_nat (length (snd e)), length (entry_header e))"
proof -
  have head: "decode_header (block_entry e @ rest) =
      Some (0, word_of_nat (length (fst e)), word_of_nat (length (snd e)), fst e @ snd e @ rest)"
    by (simp add: decode_header_def block_entry_def entry_header_def)
  have "(word_of_nat (length (fst e @ snd e @ rest)) :: u32) \<ge> word_of_nat (length (fst e)) + word_of_nat (length (snd e))"
    using assms by (simp add: block_entry_def word_le_nat_alt unsigned_of_nat take_bit_nat_eq_self flip: of_nat_add)
  moreover have "\<not> length (block_entry e @ rest) < 3"
    using length_entry_header [of e] by (simp add: block_entry_def)
  ultimately show ?thesis
    by (simp add: DecodeEntry_header head not_less) (simp add: block_entry_def)
qed

section \<open>The entries an iterator visits\<close>

definition entry_start :: "(bytes \<times> bytes) list \<Rightarrow> nat \<Rightarrow> nat" where
  "entry_start es i = length (concat (map block_entry (take i es)))"

text \<open>
  An iterator over the entries \<open>es\<close> with a restart point every \<open>m\<close> entries, the iterator at the
  entry \<open>i\<close>, and the iterator before it has parsed that entry.
\<close>

definition block_of :: "(bytes \<times> bytes) list \<Rightarrow> nat \<Rightarrow> BlockIter \<Rightarrow> bool" where
  "block_of es m it \<longleftrightarrow>
     take (it_restarts it) (it_data it) = concat (map block_entry es) \<and>
     it_restarts it = entry_start es (length es) \<and> length (it_data it) < 2 ^ 32 \<and> 0 < m \<and> 0 < it_num_restarts it \<and>
     (\<forall>j < it_num_restarts it. GetRestartPoint it j = entry_start es (j * m)) \<and>
     (it_num_restarts it - 1) * m \<le> length es \<and> (es \<noteq> [] \<longrightarrow> (it_num_restarts it - 1) * m < length es) \<and>
     length es \<le> it_num_restarts it * m"

definition at_entry :: "(bytes \<times> bytes) list \<Rightarrow> nat \<Rightarrow> nat \<Rightarrow> BlockIter \<Rightarrow> bool" where
  "at_entry es m i it \<longleftrightarrow>
     block_of es m it \<and> i < length es \<and> it_current it = entry_start es i \<and> NextEntryOffset it = entry_start es (Suc i) \<and>
     it_key it = fst (es ! i) \<and> BlockIter_value it = snd (es ! i) \<and>
     it_restart_index it < it_num_restarts it \<and> it_restart_index it * m \<le> i"

definition before_entry_at :: "(bytes \<times> bytes) list \<Rightarrow> nat \<Rightarrow> nat \<Rightarrow> BlockIter \<Rightarrow> bool" where
  "before_entry_at es m i it \<longleftrightarrow>
     block_of es m it \<and> i \<le> length es \<and> NextEntryOffset it = entry_start es i \<and>
     it_restart_index it < it_num_restarts it \<and> it_restart_index it * m \<le> i"

definition past_end :: "(bytes \<times> bytes) list \<Rightarrow> nat \<Rightarrow> BlockIter \<Rightarrow> bool" where
  "past_end es m it \<longleftrightarrow> block_of es m it \<and> \<not> BlockIter_Valid it"

lemma entry_start_0 [simp]: "entry_start es 0 = 0"
  by (simp add: entry_start_def)

lemma entry_start_Suc: "i < length es \<Longrightarrow> entry_start es (Suc i) = entry_start es i + length (block_entry (es ! i))"
  by (simp add: entry_start_def take_Suc_conv_app_nth)

lemma block_entry_pos: "0 < length (block_entry e)"
  using length_entry_header [of e] unfolding block_entry_def length_append by linarith

lemma entry_start_less: "i < j \<Longrightarrow> j \<le> length es \<Longrightarrow> entry_start es i < entry_start es j"
proof (induction j)
  case (Suc j)
  then show ?case
    using block_entry_pos [of "es ! j"] by (cases "i = j") (auto simp add: entry_start_Suc)
qed simp

lemma entry_start_mono_iff:
  "i \<le> length es \<Longrightarrow> j \<le> length es \<Longrightarrow> entry_start es i < entry_start es j \<longleftrightarrow> i < j"
  "i \<le> length es \<Longrightarrow> j \<le> length es \<Longrightarrow> entry_start es i \<le> entry_start es j \<longleftrightarrow> i \<le> j"
  using entry_start_less [of i j es] entry_start_less [of j i es]
  by (cases i j rule: linorder_cases; simp)+

lemma drop_entry_start:
  "i < length es \<Longrightarrow> drop (entry_start es i) (concat (map block_entry es)) =
     block_entry (es ! i) @ concat (map block_entry (drop (Suc i) es))"
proof -
  assume "i < length es"
  then have "concat (map block_entry es) =
      concat (map block_entry (take i es)) @ block_entry (es ! i) @ concat (map block_entry (drop (Suc i) es))"
    by (metis (no_types, lifting) append_Cons concat.simps(2) concat_append id_take_nth_drop list.simps(9) map_append)
  then show ?thesis
    by (simp add: entry_start_def)
qed

lemma at_entry_before: "at_entry es m i it \<Longrightarrow> before_entry_at es m (Suc i) it"
  by (simp add: at_entry_def before_entry_at_def)

lemma block_of_cong:
  "block_of es m it \<Longrightarrow> it_data it' = it_data it \<Longrightarrow> it_restarts it' = it_restarts it \<Longrightarrow>
   it_num_restarts it' = it_num_restarts it \<Longrightarrow> block_of es m it'"
  unfolding block_of_def GetRestartPoint_def by (elim conjE) simp

lemma block_ofD:
  assumes "block_of es m it"
  shows "j < it_num_restarts it \<Longrightarrow> GetRestartPoint it j = entry_start es (j * m)"
    and "take (it_restarts it) (it_data it) = concat (map block_entry es)"
    and "it_restarts it = entry_start es (length es)" and "length (it_data it) < 2 ^ 32" and "0 < m"
    and "0 < it_num_restarts it" and "es \<noteq> [] \<Longrightarrow> (it_num_restarts it - 1) * m < length es"
  using assms unfolding block_of_def by blast+

lemma restart_index_less:
  assumes "block_of es m it" "j < it_num_restarts it"
  shows "j * m \<le> length es"
proof -
  have "j * m \<le> (it_num_restarts it - 1) * m"
    using assms(2) by (intro mult_le_mono1) simp
  also have "\<dots> \<le> length es"
    using assms(1) by (simp only: block_of_def)
  finally show ?thesis .
qed

lemma advance_at:
  assumes "block_of es m it" "i < length es" "it_current it = entry_start es i"
    and "it_restart_index it < it_num_restarts it" "it_restart_index it * m \<le> i"
  shows "it_restart_index (advance_restart_index it) < it_num_restarts it \<and> it_restart_index (advance_restart_index it) * m \<le> i"
  using assms
proof (induction it rule: advance_restart_index.induct)
  case (1 it)
  let ?r = "it_restart_index it + 1"
  show ?case
  proof (cases "?r < it_num_restarts it \<and> GetRestartPoint it ?r < it_current it")
    case True
    then have "entry_start es (?r * m) < entry_start es i"
      using 1(4) block_ofD(1) [OF 1(2), of ?r] by simp
    then have "?r * m < i"
      using entry_start_mono_iff(1) restart_index_less [OF 1(2)] True 1(3) by (metis less_imp_le_nat)
    then have "it_restart_index (advance_restart_index (it\<lparr>it_restart_index := ?r\<rparr>)) < it_num_restarts it \<and>
        it_restart_index (advance_restart_index (it\<lparr>it_restart_index := ?r\<rparr>)) * m \<le> i"
      using 1(1) [OF True] 1(2-4) True by (simp add: block_of_cong)
    then show ?thesis
      using True by (subst (1 2) advance_restart_index.simps) simp
  next
    case False
    then show ?thesis
      using 1(5,6) by (subst (1 2) advance_restart_index.simps) auto
  qed
qed

lemma entry_decode:
  assumes "block_of es m it" "i < length es"
  defines "p \<equiv> entry_start es i + length (entry_header (es ! i))"
  shows "DecodeEntry (drop (entry_start es i) (take (it_restarts it) (it_data it))) =
      Some (0, word_of_nat (length (fst (es ! i))), word_of_nat (length (snd (es ! i))), length (entry_header (es ! i)))"
    and "length (fst (es ! i)) < 2 ^ 32" and "length (snd (es ! i)) < 2 ^ 32"
    and "take (length (fst (es ! i))) (drop p (it_data it)) = fst (es ! i)"
    and "take (length (snd (es ! i))) (drop (p + length (fst (es ! i))) (it_data it)) = snd (es ! i)"
    and "entry_start es i < it_restarts it"
proof -
  define e where "e = es ! i"
  define rest where "rest = concat (map block_entry (drop (Suc i) es))"
  show cur: "entry_start es i < it_restarts it"
    using block_ofD(3) [OF assms(1)] assms(2) by (simp add: entry_start_less)
  have rest: "drop (entry_start es i) (take (it_restarts it) (it_data it)) = block_entry e @ rest"
    unfolding block_ofD(2) [OF assms(1)] using drop_entry_start [OF assms(2)] by (simp add: e_def rest_def)
  then have "length (block_entry e @ rest) \<le> length (it_data it)"
    by (metis length_drop length_take min.cobounded1 diff_le_self le_trans)
  then have len: "length (block_entry e @ rest) < 2 ^ 32"
    using block_ofD(4) [OF assms(1)] by simp
  then show "length (fst (es ! i)) < 2 ^ 32" "length (snd (es ! i)) < 2 ^ 32"
    by (simp_all add: block_entry_def e_def)
  show "DecodeEntry (drop (entry_start es i) (take (it_restarts it) (it_data it))) =
      Some (0, word_of_nat (length (fst (es ! i))), word_of_nat (length (snd (es ! i))), length (entry_header (es ! i)))"
    unfolding rest using DecodeEntry_entry [OF len] by (simp add: e_def)
  have "length (take (it_restarts it) (it_data it)) = it_restarts it"
    using block_ofD(2,3) [OF assms(1)] by (simp add: entry_start_def)
  then have "drop (entry_start es i) (it_data it) =
      drop (entry_start es i) (take (it_restarts it) (it_data it)) @ drop (it_restarts it) (it_data it)"
    using cur by (metis append_take_drop_id diff_is_0_eq drop0 drop_append less_imp_le_nat)
  then have data: "drop (entry_start es i) (it_data it) = block_entry e @ rest @ drop (it_restarts it) (it_data it)"
    by (simp add: rest)
  have "drop p (it_data it) = drop (length (entry_header e)) (drop (entry_start es i) (it_data it))"
    unfolding p_def drop_drop by (simp add: add.commute e_def)
  then have drop_p: "drop p (it_data it) = fst e @ snd e @ rest @ drop (it_restarts it) (it_data it)"
    unfolding data by (simp add: block_entry_def)
  have "drop (p + length (fst e)) (it_data it) = drop (length (fst e)) (drop p (it_data it))"
    unfolding drop_drop by (simp add: add.commute)
  with drop_p show "take (length (fst (es ! i))) (drop p (it_data it)) = fst (es ! i)"
      "take (length (snd (es ! i))) (drop (p + length (fst (es ! i))) (it_data it)) = snd (es ! i)"
    unfolding e_def by simp_all
qed

lemma ParseNextKey_at:
  assumes "before_entry_at es m i it" "i < length es"
  obtains it' where "ParseNextKey it = (True, it')" "at_entry es m i it'" "it_status it' = it_status it"
proof -
  have block: "block_of es m it" and off: "NextEntryOffset it = entry_start es i"
      and index: "it_restart_index it < it_num_restarts it" "it_restart_index it * m \<le> i"
    using assms(1) by (simp_all add: before_entry_at_def)
  define p where "p = entry_start es i + length (entry_header (es ! i))"
  define it1 where "it1 = it\<lparr>it_current := entry_start es i\<rparr>"
  define it2 where "it2 = it1\<lparr>it_key := fst (es ! i), it_value_pos := p + length (fst (es ! i)), it_value_len := length (snd (es ! i))\<rparr>"
  note decode = entry_decode [OF block assms(2), folded p_def]
  have parse: "ParseNextKey it = (True, advance_restart_index it2)"
    using off decode
    by (simp add: ParseNextKey_def it2_def it1_def Let_def unsigned_of_nat take_bit_nat_eq_self flip: p_def)
  have block2: "block_of es m it2"
    by (rule block_of_cong [OF block]) (simp_all add: it2_def it1_def)
  have r: "it_restart_index (advance_restart_index it2) < it_num_restarts it2 \<and> it_restart_index (advance_restart_index it2) * m \<le> i"
    using index block2 assms(2) by (intro advance_at) (simp_all add: it2_def it1_def)
  have nxt: "NextEntryOffset (advance_restart_index it2) = entry_start es (Suc i)"
    using assms(2) by (simp add: NextEntryOffset_def it2_def p_def entry_start_Suc block_entry_def)
  have "at_entry es m i (advance_restart_index it2)"
    using block_of_cong [OF block2] assms(2) r nxt decode(5)
    by (simp add: at_entry_def BlockIter_value_def) (simp add: it2_def it1_def)
  then show ?thesis
    using that [OF parse] by (simp add: it2_def it1_def)
qed

lemma ParseNextKey_end:
  assumes "before_entry_at es m (length es) it"
  obtains it' where "ParseNextKey it = (False, it')" "past_end es m it'" "it_status it' = it_status it"
proof -
  have block: "block_of es m it"
    using assms by (simp add: before_entry_at_def)
  have off: "NextEntryOffset it = it_restarts it"
    unfolding block_ofD(3) [OF block] using assms by (simp add: before_entry_at_def)
  let ?it = "it\<lparr>it_current := it_restarts it, it_restart_index := it_num_restarts it\<rparr>"
  have "block_of es m ?it"
    by (rule block_of_cong [OF block]) simp_all
  then have "past_end es m ?it"
    by (simp add: past_end_def BlockIter_Valid_def)
  moreover have "ParseNextKey it = (False, ?it)"
    by (simp add: ParseNextKey_def off)
  ultimately show ?thesis
    using that by simp
qed

lemma Next_at:
  assumes "at_entry es m i it"
  shows "if Suc i < length es then at_entry es m (Suc i) (BlockIter_Next it) else past_end es m (BlockIter_Next it)"
    and "it_status (BlockIter_Next it) = it_status it"
proof -
  have b: "before_entry_at es m (Suc i) it"
    using assms by (rule at_entry_before)
  have "(if Suc i < length es then at_entry es m (Suc i) (BlockIter_Next it) else past_end es m (BlockIter_Next it)) \<and>
      it_status (BlockIter_Next it) = it_status it"
  proof (cases "Suc i < length es")
    case True
    obtain it' where "ParseNextKey it = (True, it')" "at_entry es m (Suc i) it'" "it_status it' = it_status it"
      by (rule ParseNextKey_at [OF b True])
    with True show ?thesis
      by (simp add: BlockIter_Next_def)
  next
    case False
    then have "Suc i = length es"
      using assms by (simp add: at_entry_def)
    then have "before_entry_at es m (length es) it"
      using b by simp
    then obtain it' where "ParseNextKey it = (False, it')" "past_end es m it'" "it_status it' = it_status it"
      by (rule ParseNextKey_end)
    with False show ?thesis
      by (simp add: BlockIter_Next_def)
  qed
  then show "if Suc i < length es then at_entry es m (Suc i) (BlockIter_Next it) else past_end es m (BlockIter_Next it)"
      "it_status (BlockIter_Next it) = it_status it"
    by blast+
qed

lemma SeekToRestartPoint_before:
  assumes "block_of es m it" "j < it_num_restarts it"
  shows "before_entry_at es m (j * m) (SeekToRestartPoint j it)" "it_status (SeekToRestartPoint j it) = it_status it"
proof -
  have "block_of es m (SeekToRestartPoint j it)"
    by (rule block_of_cong [OF assms(1)]) (simp_all add: SeekToRestartPoint_def)
  then show "before_entry_at es m (j * m) (SeekToRestartPoint j it)"
    using assms(2) restart_index_less [OF assms] block_ofD(1) [OF assms]
    by (simp add: before_entry_at_def SeekToRestartPoint_def NextEntryOffset_def)
  show "it_status (SeekToRestartPoint j it) = it_status it"
    by (simp add: SeekToRestartPoint_def)
qed

lemma SeekToFirst_at:
  assumes "block_of es m it"
  shows "if es = [] then past_end es m (BlockIter_SeekToFirst it) else at_entry es m 0 (BlockIter_SeekToFirst it)"
proof -
  have b: "before_entry_at es m 0 (SeekToRestartPoint 0 it)"
    using SeekToRestartPoint_before [OF assms, of 0] block_ofD(6) [OF assms] by simp
  show ?thesis
  proof (cases "es = []")
    case True
    then obtain it' where "ParseNextKey (SeekToRestartPoint 0 it) = (False, it')" "past_end es m it'"
      using ParseNextKey_end [of es m "SeekToRestartPoint 0 it"] b by auto
    with True show ?thesis
      by (simp add: BlockIter_SeekToFirst_def)
  next
    case False
    then obtain it' where "ParseNextKey (SeekToRestartPoint 0 it) = (True, it')" "at_entry es m 0 it'"
      using ParseNextKey_at [OF b] by auto
    with False show ?thesis
      by (simp add: BlockIter_SeekToFirst_def)
  qed
qed

text \<open>The scans, each by induction on the entries that remain.\<close>

definition sought :: "(bytes \<Rightarrow> bytes \<Rightarrow> int) \<Rightarrow> bytes \<Rightarrow> (bytes \<times> bytes) list \<Rightarrow> nat \<Rightarrow> nat \<Rightarrow> BlockIter \<Rightarrow> bool" where
  "sought cmp target es m i it \<longleftrightarrow>
     (\<exists>j. at_entry es m j it \<and> i \<le> j \<and> (\<forall>k. i \<le> k \<and> k < j \<longrightarrow> cmp (fst (es ! k)) target < 0) \<and>
        cmp (fst (es ! j)) target \<ge> 0) \<or>
     past_end es m it \<and> (\<forall>k. i \<le> k \<and> k < length es \<longrightarrow> cmp (fst (es ! k)) target < 0)"

lemma sought_step:
  assumes "sought cmp target es m j it" "i \<le> j" "\<And>k. i \<le> k \<Longrightarrow> k < j \<Longrightarrow> cmp (fst (es ! k)) target < 0"
  shows "sought cmp target es m i it"
proof -
  have "(\<forall>k. j \<le> k \<and> k < n \<longrightarrow> cmp (fst (es ! k)) target < 0) \<Longrightarrow> \<forall>k. i \<le> k \<and> k < n \<longrightarrow> cmp (fst (es ! k)) target < 0" for n
    using assms(3) by (meson not_less)
  then show ?thesis
    using assms(1,2) unfolding sought_def by (meson le_trans)
qed

lemma Seek_scan_at:
  assumes "before_entry_at es m i it"
  shows "sought cmp target es m i (Seek_scan cmp target it) \<and> it_status (Seek_scan cmp target it) = it_status it"
  using assms
proof (induction "length es - i" arbitrary: i it)
  case 0
  then have i: "i = length es"
    by (simp add: before_entry_at_def)
  then obtain it' where it': "ParseNextKey it = (False, it')" "past_end es m it'" "it_status it' = it_status it"
    using ParseNextKey_end [of es m it] 0 by blast
  then have "Seek_scan cmp target it = it'"
    by (subst Seek_scan.simps) simp
  then show ?case
    using i it' by (simp add: sought_def)
next
  case (Suc n)
  then have i: "i < length es" by simp
  obtain it' where it': "ParseNextKey it = (True, it')" "at_entry es m i it'" "it_status it' = it_status it"
    by (rule ParseNextKey_at [OF Suc(3) i])
  show ?case
  proof (cases "cmp (it_key it') target \<ge> 0")
    case True
    then have "Seek_scan cmp target it = it'"
      using it'(1) by (subst Seek_scan.simps) simp
    then show ?thesis
      using it'(2,3) True unfolding sought_def by (auto simp add: at_entry_def intro!: exI [of _ i])
  next
    case False
    then have loop: "Seek_scan cmp target it = Seek_scan cmp target it'"
      using it'(1) by (subst Seek_scan.simps) simp
    have less: "cmp (fst (es ! i)) target < 0"
      using False it'(2) by (simp add: at_entry_def)
    have "n = length es - Suc i"
      using Suc(2) by simp
    then have "sought cmp target es m (Suc i) (Seek_scan cmp target it') \<and> it_status (Seek_scan cmp target it') = it_status it'"
      using Suc(1) at_entry_before [OF it'(2)] by blast
    then show ?thesis
      unfolding loop using it'(3) less by (auto elim!: sought_step simp add: less_Suc_eq)
  qed
qed

text \<open>Scanning for the last entry that ends before an offset, as \<^verbatim>\<open>SeekToLast\<close> and \<^verbatim>\<open>Prev\<close> do.\<close>

lemma SeekToLast_scan_at:
  assumes "before_entry_at es m i it" "i < length es"
  shows "at_entry es m (length es - 1) (SeekToLast_scan it)"
  using assms
proof (induction "length es - i" arbitrary: i it)
  case (Suc n)
  obtain it' where it': "ParseNextKey it = (True, it')" "at_entry es m i it'"
    by (rule ParseNextKey_at [OF Suc(3,4)])
  have off: "NextEntryOffset it' < it_restarts it' \<longleftrightarrow> Suc i < length es"
    using it'(2) Suc(4) entry_start_mono_iff(1) [of "Suc i" es "length es"] block_ofD(3) [of es m it']
    by (simp add: at_entry_def)
  show ?case
  proof (cases "Suc i < length es")
    case True
    then show ?thesis
      using Suc(1) [OF _ at_entry_before [OF it'(2)]] Suc(2) off it'(1) by (subst SeekToLast_scan.simps) simp
  next
    case False
    then have "i = length es - 1"
      using Suc(4) by simp
    with False off it' show ?thesis
      by (subst SeekToLast_scan.simps) simp
  qed
qed simp

lemma Prev_scan_at:
  assumes "before_entry_at es m i it" "i < j" "j < length es"
  shows "at_entry es m (j - 1) (Prev_scan (entry_start es j) it)"
  using assms
proof (induction "j - i" arbitrary: i it)
  case (Suc n)
  obtain it' where it': "ParseNextKey it = (True, it')" "at_entry es m i it'"
    using ParseNextKey_at [OF Suc(3)] Suc(4,5) by (metis less_trans)
  have off: "NextEntryOffset it' < entry_start es j \<longleftrightarrow> Suc i < j"
    using it'(2) Suc(4,5) entry_start_mono_iff(1) [of "Suc i" es j] by (simp add: at_entry_def)
  show ?case
  proof (cases "Suc i < j")
    case True
    then show ?thesis
      using Suc(1) [OF _ at_entry_before [OF it'(2)]] Suc(2,5) off it'(1) by (subst Prev_scan.simps) simp
  next
    case False
    then have "i = j - 1"
      using Suc(4) by simp
    with False off it' show ?thesis
      by (subst Prev_scan.simps) simp
  qed
qed simp

lemma Prev_restart_at:
  assumes "block_of es m it" "it_restart_index it < it_num_restarts it" "i \<le> length es"
  shows "if i = 0 then \<exists>it'. Prev_restart (entry_start es i) it = (False, it') \<and> past_end es m it'
    else \<exists>it'. Prev_restart (entry_start es i) it = (True, it') \<and> block_of es m it' \<and>
      it_restart_index it' < it_num_restarts it' \<and> it_restart_index it' * m < i"
  using assms
proof (induction "entry_start es i" it rule: Prev_restart.induct)
  case (1 it)
  let ?r = "it_restart_index it"
  have test: "GetRestartPoint it ?r \<ge> entry_start es i \<longleftrightarrow> i \<le> ?r * m"
    using block_ofD(1) [OF 1(2,3)] entry_start_mono_iff(2) [of i es "?r * m"] restart_index_less [OF 1(2,3)] 1(4) by simp
  show ?case
  proof (cases "i \<le> ?r * m")
    case True
    let ?past = "it\<lparr>it_current := it_restarts it, it_restart_index := it_num_restarts it\<rparr>"
    let ?dec = "it\<lparr>it_restart_index := ?r - 1\<rparr>"
    have blocks: "block_of es m ?past" "block_of es m ?dec"
      by (rule block_of_cong [OF 1(2)]; simp)+
    show ?thesis
    proof (cases "?r = 0")
      case r: True
      then have "Prev_restart (entry_start es i) it = (False, ?past)"
        using True test by (subst Prev_restart.simps) simp
      then show ?thesis
        using True r blocks(1) by (simp add: past_end_def BlockIter_Valid_def)
    next
      case False
      then have dec: "Prev_restart (entry_start es i) it = Prev_restart (entry_start es i) ?dec"
        using True test by (subst Prev_restart.simps) simp
      have index: "it_restart_index ?dec < it_num_restarts ?dec"
        using less_imp_diff_less [OF 1(3), of 1] by simp
      show ?thesis
        unfolding dec using 1(1) [OF _ False blocks(2) index 1(4)] True test by blast
    qed
  next
    case False
    then have "Prev_restart (entry_start es i) it = (True, it)"
      using test by (subst Prev_restart.simps) simp
    then show ?thesis
      using False 1(2,3) by (cases "i = 0") auto
  qed
qed

lemma Prev_at:
  assumes "at_entry es m i it"
  shows "if i = 0 then past_end es m (BlockIter_Prev it) else at_entry es m (i - 1) (BlockIter_Prev it)"
proof -
  have block: "block_of es m it" "it_restart_index it < it_num_restarts it" "i < length es" "it_current it = entry_start es i"
    using assms by (simp_all add: at_entry_def)
  note pr = Prev_restart_at [OF block(1,2) less_imp_le [OF block(3)]]
  show ?thesis
  proof (cases "i = 0")
    case True
    then show ?thesis
      using pr block(4) by (auto simp add: BlockIter_Prev_def)
  next
    case False
    then obtain it' where it': "Prev_restart (entry_start es i) it = (True, it')" "block_of es m it'"
        "it_restart_index it' < it_num_restarts it'" "it_restart_index it' * m < i"
      using pr by auto
    show ?thesis
      using Prev_scan_at [OF SeekToRestartPoint_before(1) [OF it'(2,3)] it'(4) block(3)] False it'(1) block(4)
      by (simp add: BlockIter_Prev_def)
  qed
qed

lemma SeekToLast_at:
  assumes "block_of es m it"
  shows "if es = [] then past_end es m (BlockIter_SeekToLast it) else at_entry es m (length es - 1) (BlockIter_SeekToLast it)"
proof -
  let ?j = "it_num_restarts it - 1"
  have b: "before_entry_at es m (?j * m) (SeekToRestartPoint ?j it)"
    using SeekToRestartPoint_before [OF assms, of ?j] block_ofD(6) [OF assms] by simp
  show ?thesis
  proof (cases "es = []")
    case True
    then have "?j * m = length es"
      using restart_index_less [OF assms, of ?j] block_ofD(6) [OF assms] by (metis diff_less le_zero_eq length_0_conv zero_less_one)
    then have "before_entry_at es m (length es) (SeekToRestartPoint ?j it)"
      using b by (simp only:)
    then obtain it' where "ParseNextKey (SeekToRestartPoint ?j it) = (False, it')" "past_end es m it'"
      by (rule ParseNextKey_end)
    with True show ?thesis
      unfolding BlockIter_SeekToLast_def by (subst SeekToLast_scan.simps) simp
  next
    case False
    then show ?thesis
      using SeekToLast_scan_at [OF b block_ofD(7) [OF assms False]] by (simp add: BlockIter_SeekToLast_def)
  qed
qed

section \<open>Seek\<close>

lemma Seek_bisect_at:
  assumes "block_of es m it" "right < it_num_restarts it" "left \<le> right"
    and "left = 0 \<or> cmp (fst (es ! (left * m))) target < 0"
  shows "\<exists>l. Seek_bisect cmp target it left right = Some l \<and> l \<le> right \<and> (l = 0 \<or> cmp (fst (es ! (l * m))) target < 0)"
  using assms(2-4)
proof (induction "right - left" arbitrary: left right rule: less_induct)
  case less
  show ?case
  proof (cases "left < right")
    case True
    define mid where "mid = (left + right + 1) div 2"
    have mid: "left < mid" "mid \<le> right"
      using True by (simp_all add: mid_def)
    have "0 < right * m"
      using True block_ofD(5) [OF assms(1)] by simp
    then have "es \<noteq> []"
      using restart_index_less [OF assms(1) less(2)] by auto
    have "mid * m \<le> (it_num_restarts it - 1) * m"
      using mid(2) less(2) by (intro mult_le_mono1) simp
    also have "\<dots> < length es"
      using block_ofD(7) [OF assms(1) \<open>es \<noteq> []\<close>] .
    finally have in_block: "mid * m < length es" .
    have restart: "GetRestartPoint it mid = entry_start es (mid * m)"
      using block_ofD(1) [OF assms(1)] mid(2) less(2) by simp
    note decode = entry_decode [OF assms(1) in_block]
    have bisect: "Seek_bisect cmp target it left right =
        (if cmp (fst (es ! (mid * m))) target < 0 then Seek_bisect cmp target it mid right
         else Seek_bisect cmp target it left (mid - 1))"
      using True decode(1,2,4)
      unfolding Seek_bisect.simps [of cmp target it left right] mid_def [symmetric] Let_def restart
      by (simp add: unsigned_of_nat take_bit_nat_eq_self)
    show ?thesis
    proof (cases "cmp (fst (es ! (mid * m))) target < 0")
      case True
      then show ?thesis
        using less(1) [of right mid] less(2) mid bisect by auto
    next
      case False
      have "mid - 1 - left < right - left" "mid - 1 < it_num_restarts it" "left \<le> mid - 1"
        using mid less(2) by linarith+
      then obtain l where "Seek_bisect cmp target it left (mid - 1) = Some l" "l \<le> mid - 1"
          "l = 0 \<or> cmp (fst (es ! (l * m))) target < 0"
        using less(1) [of "mid - 1" left] less(4) by blast
      then show ?thesis
        using False mid(2) bisect by auto
    qed
  next
    case False
    then show ?thesis
      using less(3,4) by (subst Seek_bisect.simps) simp
  qed
qed

context comparator
begin

lemma Seek_at:
  assumes "block_of es m it" "sorted_wrt (\<lambda>a b. cmp a b < 0) (map fst es)"
    and "\<forall>e\<in>set es. valid (fst e)" "valid target"
  shows "sought cmp target es m 0 (BlockIter_Seek cmp target it)" "it_status (BlockIter_Seek cmp target it) = it_status it"
proof -
  obtain l where l: "Seek_bisect cmp target it 0 (it_num_restarts it - 1) = Some l" "l \<le> it_num_restarts it - 1"
      "l = 0 \<or> cmp (fst (es ! (l * m))) target < 0"
    using Seek_bisect_at [OF assms(1), of "it_num_restarts it - 1" 0 cmp target] block_ofD(6) [OF assms(1)] by auto
  have l_less: "l < it_num_restarts it"
    using l(2) block_ofD(6) [OF assms(1)] by simp
  note scan = Seek_scan_at [OF SeekToRestartPoint_before(1) [OF assms(1) l_less], of cmp target]
  have "cmp (fst (es ! k)) target < 0" if "k < l * m" for k
  proof -
    have "l * m \<noteq> 0"
      using that by (metis not_less0)
    then have "es \<noteq> []"
      using restart_index_less [OF assms(1) l_less] by auto
    have "l * m \<le> (it_num_restarts it - 1) * m"
      using l(2) by (rule mult_le_mono1)
    also have "\<dots> < length es"
      using block_ofD(7) [OF assms(1) \<open>es \<noteq> []\<close>] .
    finally have lm: "l * m < length es" .
    have k: "k < length es"
      using that lm by (rule less_trans)
    have below: "cmp (fst (es ! k)) (fst (es ! (l * m))) < 0"
      using sorted_wrt_nth_less [OF assms(2) that] lm k by simp
    have above: "cmp (fst (es ! (l * m))) target \<le> 0"
      using l(3) \<open>l * m \<noteq> 0\<close> by auto
    have "valid (fst (es ! k))" "valid (fst (es ! (l * m)))"
      using assms(3) k lm by simp_all
    then show ?thesis
      using weak.less_le_trans assms(4) below above by blast
  qed
  then show "sought cmp target es m 0 (BlockIter_Seek cmp target it)"
    using scan l(1) sought_step [of cmp target es m "l * m" _ 0] by (simp add: BlockIter_Seek_def)
  show "it_status (BlockIter_Seek cmp target it) = it_status it"
    using scan l(1) SeekToRestartPoint_before(2) [OF assms(1) l_less] by (simp add: BlockIter_Seek_def)
qed

end

section \<open>Blocks as the builder writes them\<close>

definition build_block :: "nat \<Rightarrow> (bytes \<times> bytes) list \<Rightarrow> BlockBuilder" where
  "build_block m es = foldl (\<lambda>b (k, v). BlockBuilder_Add m k v b) BlockBuilder_make es"

definition builder_inv :: "nat \<Rightarrow> (bytes \<times> bytes) list \<Rightarrow> BlockBuilder \<Rightarrow> bool" where
  "builder_inv m es b \<longleftrightarrow>
     (\<exists>r. bb_buffer b = concat (map block_entry es) \<and> bb_restarts b = map (\<lambda>j. entry_start es (j * m)) [0..<Suc r] \<and>
       length es = r * m + bb_counter b \<and> bb_counter b \<le> m \<and> (es \<noteq> [] \<longrightarrow> 0 < bb_counter b))"

lemma entry_start_append: "i \<le> length es \<Longrightarrow> entry_start (es @ fs) i = entry_start es i"
  by (simp add: entry_start_def)

lemma builder_inv_Add:
  assumes "builder_inv m es b" "0 < m"
  shows "builder_inv m (es @ [(k, v)]) (BlockBuilder_Add m k v b)"
proof -
  obtain r where r: "bb_buffer b = concat (map block_entry es)"
      "bb_restarts b = map (\<lambda>j. entry_start es (j * m)) [0..<Suc r]" "length es = r * m + bb_counter b" "bb_counter b \<le> m"
    using assms(1) by (auto simp add: builder_inv_def)
  have entry: "concat (map block_entry (es @ [(k, v)])) = bb_buffer b @ block_entry (k, v)"
    using r(1) by simp
  have starts: "map (\<lambda>j. entry_start (es @ [(k, v)]) (j * m)) [0..<Suc r] = bb_restarts b"
  proof -
    have "j * m \<le> length es" if "j \<in> set [0..<Suc r]" for j
      unfolding r(3) using that by (intro trans_le_add1 mult_le_mono1) auto
    then show ?thesis
      unfolding r(2) by (intro map_cong refl entry_start_append) blast
  qed
  show ?thesis
  proof (cases "bb_counter b < m")
    case True
    then show ?thesis
      unfolding builder_inv_def using r(3) starts entry
      by (intro exI [of _ r]) (simp add: BlockBuilder_Add_def block_entry_def entry_header_def PutVarint32_def)
  next
    case False
    then have "length es = Suc r * m" "entry_start (es @ [(k, v)]) (Suc r * m) = length (bb_buffer b)"
      using r by (simp_all add: entry_start_def)
    then show ?thesis
      unfolding builder_inv_def using False starts entry assms(2)
      by (intro exI [of _ "Suc r"]) (simp add: BlockBuilder_Add_def block_entry_def entry_header_def PutVarint32_def)
  qed
qed

lemma builder_inv_build: "0 < m \<Longrightarrow> builder_inv m es (build_block m es)"
proof (induction es rule: rev_induct)
  case Nil
  show ?case
    by (simp add: build_block_def BlockBuilder_make_def builder_inv_def)
next
  case (snoc e es)
  then show ?case
    using builder_inv_Add [of m es "build_block m es" "fst e" "snd e"] by (simp add: build_block_def case_prod_unfold)
qed

lemma put_words: "foldl (\<lambda>buffer r. PutFixed32 buffer (word_of_nat r)) buf rs = buf @ concat (map (\<lambda>r. Fixed32 (word_of_nat r)) rs)"
  by (induction rs arbitrary: buf) (simp_all add: PutFixed32_def)

lemma drop_words:
  "i < length rs \<Longrightarrow> drop (i * 4) (concat (map (\<lambda>r. Fixed32 (word_of_nat r)) rs) @ t) =
     Fixed32 (word_of_nat (rs ! i)) @ concat (map (\<lambda>r. Fixed32 (word_of_nat r)) (drop (Suc i) rs)) @ t"
proof (induction rs arbitrary: i)
  case (Cons x rs)
  then show ?case by (cases i) simp_all
qed simp

lemma length_words [simp]: "length (concat (map (\<lambda>r. Fixed32 (word_of_nat r)) rs)) = 4 * length rs"
  by (induction rs) simp_all

text \<open>The iterator over a finished block is an iterator over the entries that were added.\<close>

lemma new_iterator:
  assumes "0 < m" "length (fst (BlockBuilder_Finish (build_block m es))) < 2 ^ 32"
  obtains it where "Block_NewIterator (Block_make (fst (BlockBuilder_Finish (build_block m es)))) = Iter it" "block_of es m it"
    "it_status it = Status_OK"
proof -
  obtain r where r: "bb_buffer (build_block m es) = concat (map block_entry es)"
      "bb_restarts (build_block m es) = map (\<lambda>j. entry_start es (j * m)) [0..<Suc r]"
      "length es = r * m + bb_counter (build_block m es)" "bb_counter (build_block m es) \<le> m"
      "es \<noteq> [] \<longrightarrow> 0 < bb_counter (build_block m es)"
    using builder_inv_build [OF assms(1), of es] by (auto simp add: builder_inv_def)
  define rs where "rs = map (\<lambda>j. entry_start es (j * m)) [0..<Suc r]"
  define buf where "buf = concat (map block_entry es)"
  define words where "words = concat (map (\<lambda>r. Fixed32 (word_of_nat r)) rs)"
  define contents where "contents = buf @ words @ Fixed32 (word_of_nat (Suc r))"
  have contents: "fst (BlockBuilder_Finish (build_block m es)) = contents"
    unfolding BlockBuilder_Finish_def Let_def fst_conv put_words r(1,2) rs_def [symmetric] buf_def [symmetric] words_def [symmetric]
    by (simp add: PutFixed32_def contents_def rs_def)
  have rs: "length rs = Suc r"
    by (simp add: rs_def)
  have len: "length contents = length buf + 4 * Suc r + 4" "length contents < 2 ^ 32"
    using assms(2) rs unfolding contents by (simp_all add: contents_def words_def)
  have "drop (length contents - 4) contents = Fixed32 (word_of_nat (Suc r))"
    using len(1) rs by (simp add: contents_def words_def)
  then have num: "Block_NumRestarts contents (length contents) = Suc r"
    using len by (simp add: Block_NumRestarts_def unsigned_of_nat take_bit_nat_eq_self del: of_nat_Suc)
  have block: "Block_make contents = \<lparr>bl_data = contents, bl_size = length contents, bl_restart_offset = length buf\<rparr>"
    unfolding Block_make_def Let_def num using len(1) by simp
  let ?it = "BlockIter_make contents (length buf) (Suc r)"
  have iter: "Block_NewIterator (Block_make contents) = Iter ?it"
    unfolding Block_NewIterator_def block Let_def Block.simps num using len(1) by simp
  have restart: "GetRestartPoint ?it j = entry_start es (j * m)" if "j < Suc r" for j
  proof -
    have "j * m \<le> length es"
      unfolding r(3) using that by (intro trans_le_add1 mult_le_mono1) simp
    then have "entry_start es (j * m) \<le> entry_start es (length es)"
      by (simp add: entry_start_mono_iff)
    then have "entry_start es (j * m) < 2 ^ 32"
      using len by (simp add: entry_start_def buf_def)
    moreover have "drop (length buf + j * 4) contents =
        Fixed32 (word_of_nat (rs ! j)) @ concat (map (\<lambda>r. Fixed32 (word_of_nat r)) (drop (Suc j) rs)) @ Fixed32 (word_of_nat (Suc r))"
      using drop_words [of j rs] that rs by (simp add: contents_def words_def)
    moreover have "rs ! j = entry_start es (j * m)"
      using that by (simp add: rs_def del: upt_Suc)
    ultimately show ?thesis
      by (simp add: GetRestartPoint_def BlockIter_make_def unsigned_of_nat take_bit_nat_eq_self)
  qed
  have "block_of es m ?it"
    unfolding block_of_def using restart r(3-5) assms(1) len(2)
    by (simp add: BlockIter_make_def) (simp add: contents_def buf_def entry_start_def)
  then show ?thesis
    using that iter contents by (simp add: BlockIter_make_def)
qed

section \<open>Properties of blocks\<close>

definition shows_entry :: "BlockIter \<Rightarrow> bytes \<times> bytes \<Rightarrow> bool" where
  "shows_entry it e \<longleftrightarrow> BlockIter_Valid it \<and> it_key it = fst e \<and> BlockIter_value it = snd e"

lemma at_entry_shows: "at_entry es m i it \<Longrightarrow> i < length es \<and> shows_entry it (es ! i)"
  using block_ofD(3) [of es m it]
  by (simp add: at_entry_def shows_entry_def BlockIter_Valid_def entry_start_less)

lemma Next_funpow:
  assumes "block_of es m it"
  shows "if i < length es then at_entry es m i ((BlockIter_Next ^^ i) (BlockIter_SeekToFirst it))
    else i = length es \<longrightarrow> past_end es m ((BlockIter_Next ^^ i) (BlockIter_SeekToFirst it))"
proof (induction i)
  case 0
  then show ?case
    using SeekToFirst_at [OF assms] by (cases "es = []") simp_all
next
  case (Suc i)
  then show ?case
    using Next_at(1) [of es m i "(BlockIter_Next ^^ i) (BlockIter_SeekToFirst it)"] by (cases "i < length es") simp_all
qed

lemma Prev_funpow:
  assumes "block_of es m it"
  shows "if i < length es then at_entry es m (length es - 1 - i) ((BlockIter_Prev ^^ i) (BlockIter_SeekToLast it))
    else i = length es \<longrightarrow> past_end es m ((BlockIter_Prev ^^ i) (BlockIter_SeekToLast it))"
proof (induction i)
  case 0
  then show ?case
    using SeekToLast_at [OF assms] by (cases "es = []") simp_all
next
  case (Suc i)
  then show ?case
    using Prev_at [of es m "length es - 1 - i" "(BlockIter_Prev ^^ i) (BlockIter_SeekToLast it)"]
    by (cases "i < length es"; cases "Suc i < length es") (simp_all add: Suc_diff_Suc)
qed

text \<open>C11. Reading a block gives back what was written: for any list of entries and any restart
  interval, the iterator of the finished block moves forwards through the entries in order and
  backwards through them in reverse order, and is invalid after the last.\<close>

theorem block_round_trip:
  assumes "0 < m" "length (fst (BlockBuilder_Finish (build_block m es))) < 2 ^ 32"
  shows "\<exists>it. Block_NewIterator (Block_make (fst (BlockBuilder_Finish (build_block m es)))) = Iter it \<and>
    (\<forall>i. let f = (BlockIter_Next ^^ i) (BlockIter_SeekToFirst it); l = (BlockIter_Prev ^^ i) (BlockIter_SeekToLast it)
      in (i < length es \<longrightarrow> shows_entry f (es ! i) \<and> shows_entry l (rev es ! i)) \<and>
         (i = length es \<longrightarrow> \<not> BlockIter_Valid f \<and> \<not> BlockIter_Valid l))"
proof -
  obtain it where it: "Block_NewIterator (Block_make (fst (BlockBuilder_Finish (build_block m es)))) = Iter it" "block_of es m it"
    by (rule new_iterator [OF assms])
  have "let f = (BlockIter_Next ^^ i) (BlockIter_SeekToFirst it); l = (BlockIter_Prev ^^ i) (BlockIter_SeekToLast it)
      in (i < length es \<longrightarrow> shows_entry f (es ! i) \<and> shows_entry l (rev es ! i)) \<and>
         (i = length es \<longrightarrow> \<not> BlockIter_Valid f \<and> \<not> BlockIter_Valid l)" for i
  proof -
    have rev: "i < length es \<Longrightarrow> rev es ! i = es ! (length es - 1 - i)"
      by (simp add: rev_nth)
    show ?thesis
      using Next_funpow [OF it(2), of i] Prev_funpow [OF it(2), of i] rev
      by (cases "i < length es") (simp_all add: Let_def at_entry_shows past_end_def, use at_entry_shows in blast)
  qed
  with it(1) show ?thesis by blast
qed

theorem block_round_trip_witness:
  "\<exists>it. Block_NewIterator (Block_make (fst (BlockBuilder_Finish (build_block 1 [([1], [2]), ([3], [4])])))) = Iter it \<and>
     shows_entry (BlockIter_Next (BlockIter_SeekToFirst it)) ([3], [4])"
proof -
  have "length (fst (BlockBuilder_Finish (build_block 1 [([1], [2]), ([3], [4])]))) < 2 ^ 32"
    by (simp add: build_block_def BlockBuilder_make_def BlockBuilder_Add_def BlockBuilder_Finish_def PutVarint32_def PutFixed32_def
        EncodeVarint32_def Let_def)
  then obtain it where it: "Block_NewIterator (Block_make (fst (BlockBuilder_Finish (build_block 1 [([1], [2]), ([3], [4])])))) = Iter it"
      "\<forall>i. let f = (BlockIter_Next ^^ i) (BlockIter_SeekToFirst it); l = (BlockIter_Prev ^^ i) (BlockIter_SeekToLast it)
        in (i < length [([1 :: byte], [2 :: byte]), ([3], [4])] \<longrightarrow>
              shows_entry f ([([1], [2]), ([3], [4])] ! i) \<and> shows_entry l (rev [([1], [2]), ([3], [4])] ! i)) \<and>
           (i = length [([1 :: byte], [2 :: byte]), ([3], [4])] \<longrightarrow> \<not> BlockIter_Valid f \<and> \<not> BlockIter_Valid l)"
    using block_round_trip [of 1 "[([1], [2]), ([3], [4])]"] by auto
  from it(2) [rule_format, of 1] it(1) show ?thesis
    by (auto simp add: Let_def)
qed

context comparator
begin

text \<open>A search in a block of sorted entries skips exactly the entries before the target.\<close>

lemma Seek_block:
  assumes "0 < m" "length (fst (BlockBuilder_Finish (build_block m es))) < 2 ^ 32"
    and "sorted_wrt (\<lambda>a b. cmp a b < 0) (map fst es)" "\<forall>e\<in>set es. valid (fst e)" "valid target"
  shows "\<exists>it. Block_NewIterator (Block_make (fst (BlockBuilder_Finish (build_block m es)))) = Iter it \<and>
    (let it' = BlockIter_Seek cmp target it
     in it_status it' = Status_OK \<and>
        (case dropWhile (\<lambda>e. cmp (fst e) target < 0) es of [] \<Rightarrow> \<not> BlockIter_Valid it' | e # _ \<Rightarrow> shows_entry it' e))"
proof -
  obtain it where it: "Block_NewIterator (Block_make (fst (BlockBuilder_Finish (build_block m es)))) = Iter it" "block_of es m it"
      "it_status it = Status_OK"
    by (rule new_iterator [OF assms(1,2)])
  let ?it = "BlockIter_Seek cmp target it"
  have s: "sought cmp target es m 0 ?it" "it_status ?it = Status_OK"
    using Seek_at [OF it(2) assms(3-5)] it(3) by simp_all
  have "case dropWhile (\<lambda>e. cmp (fst e) target < 0) es of [] \<Rightarrow> \<not> BlockIter_Valid ?it | e # _ \<Rightarrow> shows_entry ?it e"
    using s(1) unfolding sought_def
  proof (elim disjE exE conjE)
    fix j assume j: "at_entry es m j ?it" "\<forall>k. 0 \<le> k \<and> k < j \<longrightarrow> cmp (fst (es ! k)) target < 0" "0 \<le> cmp (fst (es ! j)) target"
    have len: "j < length es" and entry: "shows_entry ?it (es ! j)"
      using at_entry_shows [OF j(1)] by simp_all
    have "dropWhile (\<lambda>e. cmp (fst e) target < 0) es = es ! j # drop (Suc j) es"
      using j(2,3) len by (intro dropWhile_first) simp_all
    then show ?thesis
      using entry by simp
  next
    assume past: "past_end es m ?it" "\<forall>k. 0 \<le> k \<and> k < length es \<longrightarrow> cmp (fst (es ! k)) target < 0"
    have "cmp (fst e) target < 0" if "e \<in> set es" for e
      using that past(2) by (metis in_set_conv_nth le0)
    then have nil: "dropWhile (\<lambda>e. cmp (fst e) target < 0) es = []"
      by simp
    show ?thesis
      unfolding nil using past(1) by (simp add: past_end_def)
  qed
  with it(1) s(2) show ?thesis
    by (simp add: Let_def)
qed

end

text \<open>C10. Seeking in a block of internal keys in increasing order always ends without an error at
  the first entry whose key is not before the target, and leaves the iterator invalid if there is
  none, whatever the restart interval.\<close>

theorem block_seek:
  assumes "0 < m" "length (fst (BlockBuilder_Finish (build_block m es))) < 2 ^ 32"
    and "sorted_wrt (\<lambda>a b. InternalKeyComparator_Compare BytewiseComparator_Compare a b < 0) (map fst es)"
    and "\<forall>e\<in>set es. 8 \<le> length (fst e)" "8 \<le> length target"
  shows "\<exists>it. Block_NewIterator (Block_make (fst (BlockBuilder_Finish (build_block m es)))) = Iter it \<and>
    (let it' = BlockIter_Seek (InternalKeyComparator_Compare BytewiseComparator_Compare) target it
     in it_status it' = Status_OK \<and>
        (case dropWhile (\<lambda>e. InternalKeyComparator_Compare BytewiseComparator_Compare (fst e) target < 0) es of
           [] \<Rightarrow> \<not> BlockIter_Valid it'
         | e # _ \<Rightarrow> shows_entry it' e))"
  using bytewise.ikey.Seek_block [OF assms(1-3)] assms(4,5) by simp

theorem block_seek_witness:
  "\<exists>it. Block_NewIterator (Block_make (fst (BlockBuilder_Finish (build_block 1
       [([1, 1, 0, 0, 0, 0, 0, 0, 0], [2]), ([3, 1, 0, 0, 0, 0, 0, 0, 0], [4])])))) = Iter it \<and>
     shows_entry (BlockIter_Seek (InternalKeyComparator_Compare BytewiseComparator_Compare) [2, 1, 0, 0, 0, 0, 0, 0, 0] it)
       ([3, 1, 0, 0, 0, 0, 0, 0, 0], [4])"
proof -
  let ?es = "[([1, 1, 0, 0, 0, 0, 0, 0, 0], [2]), ([3, 1, 0, 0, 0, 0, 0, 0, 0], [4])] :: (bytes \<times> bytes) list"
  let ?cmp = "InternalKeyComparator_Compare BytewiseComparator_Compare" and ?t = "[2, 1, 0, 0, 0, 0, 0, 0, 0] :: bytes"
  have len: "length (fst (BlockBuilder_Finish (build_block 1 ?es))) < 2 ^ 32"
    by (simp add: build_block_def BlockBuilder_make_def BlockBuilder_Add_def BlockBuilder_Finish_def PutVarint32_def PutFixed32_def
        EncodeVarint32_def Let_def)
  have cmp: "?cmp [1, 1, 0, 0, 0, 0, 0, 0, 0] [3, 1, 0, 0, 0, 0, 0, 0, 0] < 0" "?cmp [1, 1, 0, 0, 0, 0, 0, 0, 0] ?t < 0"
      "\<not> ?cmp [3, 1, 0, 0, 0, 0, 0, 0, 0] ?t < 0"
    by (simp_all add: InternalKeyComparator_Compare_def ExtractUserKey_def BytewiseComparator_Compare_def Slice_compare_def
        Let_def)
  show ?thesis
    using block_seek [of 1 ?es ?t] len cmp by (auto simp add: Let_def)
qed


end
