(* ===== verification/Filter_Blocks.thy ===== *)
theory Filter_Blocks
  imports Internal_Keys
begin

text \<open>
  Filters: \<^verbatim>\<open>util/hash.cc\<close>, \<^verbatim>\<open>util/bloom.cc\<close> and \<^verbatim>\<open>table/filter_block.cc\<close>. A filter policy turns a
  list of keys into a string that answers whether a key may be in the list; the filter block of a
  table holds one filter for every 2048 bytes of the table. The contract of a policy is the locale
  \<open>filter_policy\<close>; the Bloom filter satisfies it, and so does the policy for internal keys on top of
  it. The filter block is verified for every policy.
\<close>

section \<open>Hash\<close>

definition Hash_m :: u32 where
  "Hash_m = 0xc6a4a793"

fun Hash_loop :: "u32 \<Rightarrow> bytes \<Rightarrow> u32 \<times> bytes" where
  "Hash_loop h data =
     (if 4 \<le> length data then
        let w = GetFixed32 data;
            h = h + w;
            h = h * Hash_m;
            h = h XOR drop_bit 16 h
        in Hash_loop h (drop 4 data)
      else (h, data))"

declare Hash_loop.simps [simp del]

definition Hash_tail :: "u32 \<Rightarrow> bytes \<Rightarrow> u32" where
  "Hash_tail h data =
     (let h = (if length data = 3 then h + push_bit 16 (ucast (data ! 2)) else h);
          h = (if length data = 3 \<or> length data = 2 then h + push_bit 8 (ucast (data ! 1)) else h)
      in if length data = 3 \<or> length data = 2 \<or> length data = 1 then
           let h = (h + ucast (data ! 0)) * Hash_m in h XOR drop_bit 24 h
         else h)"

definition Hash :: "bytes \<Rightarrow> u32 \<Rightarrow> u32" where
  "Hash data seed =
     (let h = seed XOR (word_of_nat (length data) * Hash_m);
          (h, rest) = Hash_loop h data
      in Hash_tail h rest)"

section \<open>Bloom filters\<close>

definition BloomHash :: "bytes \<Rightarrow> u32" where
  "BloomHash key = Hash key 0xbc9f1d34"

record BloomFilterPolicy =
  bf_bits_per_key :: nat
  bf_k :: nat

text \<open>
  The product with 0.69 is rounded down. Below 100 it differs from every integer by more than a
  hundredth, so that the rounding of the floating-point product does not matter, and from 44 on it
  is cut to 30.
\<close>

definition BloomFilterPolicy_make :: "nat \<Rightarrow> BloomFilterPolicy" where
  "BloomFilterPolicy_make bits_per_key =
     (let k = bits_per_key * 69 div 100;
          k = (if k < 1 then 1 else k);
          k = (if k > 30 then 30 else k)
      in \<lparr>bf_bits_per_key = bits_per_key, bf_k = k\<rparr>)"

definition Bloom_delta :: "u32 \<Rightarrow> u32" where
  "Bloom_delta h = drop_bit 17 h OR push_bit 15 h"

definition set_bit_at :: "bytes \<Rightarrow> nat \<Rightarrow> bytes" where
  "set_bit_at array bitpos =
     array[bitpos div 8 := (array ! (bitpos div 8)) OR push_bit (bitpos mod 8) 1]"

primrec CreateFilter_probes :: "nat \<Rightarrow> u32 \<Rightarrow> nat \<Rightarrow> u32 \<Rightarrow> bytes \<Rightarrow> bytes" where
  "CreateFilter_probes bits delta 0 h array = array"
| "CreateFilter_probes bits delta (Suc j) h array =
     CreateFilter_probes bits delta j (h + delta) (set_bit_at array (unat h mod bits))"

definition BloomFilterPolicy_CreateFilter :: "BloomFilterPolicy \<Rightarrow> bytes list \<Rightarrow> bytes \<Rightarrow> bytes" where
  "BloomFilterPolicy_CreateFilter p keys dst =
     (let bits = length keys * bf_bits_per_key p;
          bits = (if bits < 64 then 64 else bits);
          n = (bits + 7) div 8;
          bits = n * 8;
          array = foldl (\<lambda>array key. let h = BloomHash key in CreateFilter_probes bits (Bloom_delta h) (bf_k p) h array)
                    (replicate n 0) keys
      in dst @ array @ [word_of_nat (bf_k p)])"

primrec KeyMayMatch_probes :: "nat \<Rightarrow> u32 \<Rightarrow> nat \<Rightarrow> u32 \<Rightarrow> bytes \<Rightarrow> bool" where
  "KeyMayMatch_probes bits delta 0 h array = True"
| "KeyMayMatch_probes bits delta (Suc j) h array =
     (let bitpos = unat h mod bits in
      if (array ! (bitpos div 8)) AND push_bit (bitpos mod 8) 1 = 0 then False
      else KeyMayMatch_probes bits delta j (h + delta) array)"

definition BloomFilterPolicy_KeyMayMatch :: "bytes \<Rightarrow> bytes \<Rightarrow> bool" where
  "BloomFilterPolicy_KeyMayMatch key bloom_filter =
     (let len = length bloom_filter in
      if len < 2 then False
      else
        let bits = (len - 1) * 8;
            k = unat (scast (bloom_filter ! (len - 1)) :: u64)
        in if k > 30 then True
           else let h = BloomHash key in KeyMayMatch_probes bits (Bloom_delta h) k h bloom_filter)"

section \<open>The filter block\<close>

definition kFilterBaseLg :: nat where
  "kFilterBaseLg = 11"

definition kFilterBase :: nat where
  "kFilterBase = push_bit kFilterBaseLg 1"

record FilterBlockBuilder =
  fb_keys :: bytes
  fb_start :: "nat list"
  fb_result :: bytes
  fb_filter_offsets :: "u32 list"

definition FilterBlockBuilder_make :: FilterBlockBuilder where
  "FilterBlockBuilder_make = \<lparr>fb_keys = [], fb_start = [], fb_result = [], fb_filter_offsets = []\<rparr>"

text \<open>The keys that the builder cuts out of its flat buffer.\<close>

definition tmp_keys :: "bytes \<Rightarrow> nat list \<Rightarrow> bytes list" where
  "tmp_keys keys start =
     (let start' = start @ [length keys]
      in map (\<lambda>i. take (start' ! (i + 1) - start' ! i) (drop (start' ! i) keys)) [0..<length start])"

definition GenerateFilter :: "(bytes list \<Rightarrow> bytes \<Rightarrow> bytes) \<Rightarrow> FilterBlockBuilder \<Rightarrow> FilterBlockBuilder" where
  "GenerateFilter create b =
     (let offsets = fb_filter_offsets b @ [word_of_nat (length (fb_result b))] in
      if fb_start b = [] then b\<lparr>fb_filter_offsets := offsets\<rparr>
      else b\<lparr>fb_filter_offsets := offsets,
             fb_result := create (tmp_keys (fb_keys b) (fb_start b)) (fb_result b),
             fb_keys := [], fb_start := []\<rparr>)"

lemma GenerateFilter_offsets [simp]:
  "length (fb_filter_offsets (GenerateFilter create b)) = Suc (length (fb_filter_offsets b))"
  by (simp add: GenerateFilter_def Let_def)

function StartBlock_loop ::
  "(bytes list \<Rightarrow> bytes \<Rightarrow> bytes) \<Rightarrow> nat \<Rightarrow> FilterBlockBuilder \<Rightarrow> FilterBlockBuilder" where
  "StartBlock_loop create filter_index b =
     (if filter_index > length (fb_filter_offsets b)
      then StartBlock_loop create filter_index (GenerateFilter create b) else b)"
  by pat_completeness auto
termination
  by (relation "measure (\<lambda>(_, filter_index, b). filter_index - length (fb_filter_offsets b))") auto

declare StartBlock_loop.simps [simp del]

definition FilterBlockBuilder_StartBlock ::
  "(bytes list \<Rightarrow> bytes \<Rightarrow> bytes) \<Rightarrow> u64 \<Rightarrow> FilterBlockBuilder \<Rightarrow> FilterBlockBuilder" where
  "FilterBlockBuilder_StartBlock create block_offset b =
     StartBlock_loop create (unat block_offset div kFilterBase) b"

definition FilterBlockBuilder_AddKey :: "bytes \<Rightarrow> FilterBlockBuilder \<Rightarrow> FilterBlockBuilder" where
  "FilterBlockBuilder_AddKey key b =
     b\<lparr>fb_start := fb_start b @ [length (fb_keys b)], fb_keys := fb_keys b @ key\<rparr>"

definition FilterBlockBuilder_Finish ::
  "(bytes list \<Rightarrow> bytes \<Rightarrow> bytes) \<Rightarrow> FilterBlockBuilder \<Rightarrow> bytes \<times> FilterBlockBuilder" where
  "FilterBlockBuilder_Finish create b =
     (let b = (if fb_start b \<noteq> [] then GenerateFilter create b else b);
          array_offset = word_of_nat (length (fb_result b));
          result = foldl PutFixed32 (fb_result b) (fb_filter_offsets b);
          result = PutFixed32 result array_offset;
          result = result @ [word_of_nat kFilterBaseLg]
      in (result, b\<lparr>fb_result := result\<rparr>))"

text \<open>
  The pointers of the reader are offsets into the contents; \<open>fr_data\<close> is \<^const>\<open>None\<close> for the null
  pointer.
\<close>

record FilterBlockReader =
  fr_data :: "bytes option"
  fr_offset :: nat
  fr_num :: nat
  fr_base_lg :: nat

definition FilterBlockReader_make :: "bytes \<Rightarrow> FilterBlockReader" where
  "FilterBlockReader_make contents =
     (let n = length contents in
      if n < 5 then \<lparr>fr_data = None, fr_offset = 0, fr_num = 0, fr_base_lg = 0\<rparr>
      else
        let base_lg = unat (scast (contents ! (n - 1)) :: u64);
            last_word = unat (GetFixed32 (drop (n - 5) contents))
        in if last_word > n - 5
           then \<lparr>fr_data = None, fr_offset = 0, fr_num = 0, fr_base_lg = base_lg\<rparr>
           else \<lparr>fr_data = Some contents, fr_offset = last_word, fr_num = (n - 5 - last_word) div 4,
                 fr_base_lg = base_lg\<rparr>)"

definition FilterBlockReader_KeyMayMatch ::
  "(bytes \<Rightarrow> bytes \<Rightarrow> bool) \<Rightarrow> u64 \<Rightarrow> bytes \<Rightarrow> FilterBlockReader \<Rightarrow> bool" where
  "FilterBlockReader_KeyMayMatch may_match block_offset key r =
     (let index = unat (drop_bit (fr_base_lg r) block_offset) in
      if index < fr_num r then
        let data = the (fr_data r);
            start = unat (GetFixed32 (drop (fr_offset r + index * 4) data));
            limit = unat (GetFixed32 (drop (fr_offset r + index * 4 + 4) data))
        in if start \<le> limit \<and> limit \<le> fr_offset r
           then may_match key (take (limit - start) (drop start data))
           else if start = limit then False
           else True
      else True)"

section \<open>The contract of a filter policy\<close>

locale filter_policy =
  fixes create :: "bytes list \<Rightarrow> bytes \<Rightarrow> bytes" and may_match :: "bytes \<Rightarrow> bytes \<Rightarrow> bool"
  assumes create_appends: "\<exists>f. create keys dst = dst @ f \<and> (\<forall>key\<in>set keys. may_match key f)"
begin

text \<open>A policy for user keys gives one for internal keys.\<close>

lemma internal_policy:
  "filter_policy (InternalFilterPolicy_CreateFilter create) (InternalFilterPolicy_KeyMayMatch may_match)"
proof
  fix keys dst
  show "\<exists>f. InternalFilterPolicy_CreateFilter create keys dst = dst @ f \<and>
      (\<forall>key\<in>set keys. InternalFilterPolicy_KeyMayMatch may_match key f)"
    using create_appends [of "map ExtractUserKey keys" dst]
    by (auto simp add: InternalFilterPolicy_CreateFilter_def InternalFilterPolicy_KeyMayMatch_def)
qed

end

section \<open>Bloom filters have no false negatives\<close>

definition bit_at :: "bytes \<Rightarrow> nat \<Rightarrow> bool" where
  "bit_at array p = bit (array ! (p div 8)) (p mod 8)"

lemma and_bit_zero: "(b :: byte) AND 2 ^ n = 0 \<longleftrightarrow> \<not> bit b n"
proof -
  have "b AND 2 ^ n = push_bit n (of_bool (bit b n))"
    by (rule bit_word_eqI) (auto simp add: bit_simps)
  then show ?thesis
    by (auto dest: bit_imp_le_length)
qed

lemma length_set_bit_at [simp]: "length (set_bit_at array p) = length array"
  by (simp add: set_bit_at_def)

lemma bit_at_set:
  assumes "p < 8 * length array"
  shows "bit_at (set_bit_at array p) q \<longleftrightarrow> q = p \<or> bit_at array q"
proof -
  have "q = p \<longleftrightarrow> q div 8 = p div 8 \<and> q mod 8 = p mod 8"
    by (metis div_mult_mod_eq)
  then show ?thesis
    using assms by (auto simp add: bit_at_def set_bit_at_def nth_list_update bit_simps less_mult_imp_div_less mult.commute)
qed

lemma length_probes [simp]: "length (CreateFilter_probes bits delta j h array) = length array"
  by (induction j arbitrary: h array) simp_all

lemma probes_mono:
  assumes "8 * length array = bits" "0 < bits" "bit_at array q"
  shows "bit_at (CreateFilter_probes bits delta j h array) q"
  using assms by (induction j arbitrary: h array) (simp_all add: bit_at_set)

lemma KeyMayMatch_probes_mono:
  assumes "KeyMayMatch_probes bits delta j h array" "\<And>q. bit_at array q \<Longrightarrow> bit_at array' q"
  shows "KeyMayMatch_probes bits delta j h array'"
  using assms(1)
  by (induction j arbitrary: h) (simp_all add: Let_def and_bit_zero assms(2) [unfolded bit_at_def] split: if_splits)

lemma probes_match:
  assumes "8 * length array = bits" "0 < bits"
  shows "KeyMayMatch_probes bits delta j h (CreateFilter_probes bits delta j h array)"
  using assms
proof (induction j arbitrary: h array)
  case (Suc j)
  let ?p = "unat h mod bits"
  have "bit_at (CreateFilter_probes bits delta j (h + delta) (set_bit_at array ?p)) ?p"
    using Suc.prems by (intro probes_mono) (simp_all add: bit_at_set)
  then show ?case
    using Suc by (simp add: Let_def and_bit_zero bit_at_def)
qed simp

lemma filter_bits:
  fixes keys :: "bytes list"
  defines "probe bits k \<equiv> \<lambda>array key. CreateFilter_probes bits (Bloom_delta (BloomHash key)) k (BloomHash key) array"
  assumes "8 * length array = bits" "0 < bits"
  shows "length (foldl (probe bits k) array keys) = length array"
    and "bit_at array q \<Longrightarrow> bit_at (foldl (probe bits k) array keys) q"
    and "key \<in> set keys \<Longrightarrow>
      KeyMayMatch_probes bits (Bloom_delta (BloomHash key)) k (BloomHash key) (foldl (probe bits k) array keys)"
proof -
  show len: "length (foldl (probe bits k) array keys) = length array" for array keys
    by (induction keys arbitrary: array) (simp_all add: probe_def)
  have mono: "8 * length array = bits \<Longrightarrow> bit_at array q \<Longrightarrow> bit_at (foldl (probe bits k) array keys) q" for array keys q
    using assms(3) by (induction keys arbitrary: array) (simp_all add: probe_def probes_mono)
  then show "bit_at array q \<Longrightarrow> bit_at (foldl (probe bits k) array keys) q"
    using assms(2) by blast
  show "key \<in> set keys \<Longrightarrow>
      KeyMayMatch_probes bits (Bloom_delta (BloomHash key)) k (BloomHash key) (foldl (probe bits k) array keys)"
    using assms(2)
  proof (induction keys arbitrary: array)
    case (Cons x keys)
    have len': "8 * length (probe bits k array x) = bits"
      using Cons.prems(2) by (simp add: probe_def)
    show ?case
    proof (cases "key = x")
      case True
      have "KeyMayMatch_probes bits (Bloom_delta (BloomHash key)) k (BloomHash key) (probe bits k array x)"
        unfolding probe_def True using Cons.prems(2) assms(3) by (rule probes_match)
      then show ?thesis
        using mono [OF len'] by (auto intro: KeyMayMatch_probes_mono)
    next
      case False
      then show ?thesis
        using Cons len' by simp
    qed
  qed simp
qed

lemma bf_k_range: "1 \<le> bf_k (BloomFilterPolicy_make n)" "bf_k (BloomFilterPolicy_make n) \<le> 30"
  by (simp_all add: BloomFilterPolicy_make_def Let_def)

lemma KeyMayMatch_probes_append:
  "8 * length array = bits \<Longrightarrow> 0 < bits \<Longrightarrow>
   KeyMayMatch_probes bits delta j h (array @ xs) = KeyMayMatch_probes bits delta j h array"
  by (induction j arbitrary: h) (simp_all add: Let_def nth_append less_mult_imp_div_less mult.commute)

lemma unat_scast_of_nat: "k < 128 \<Longrightarrow> unat (scast (word_of_nat k :: byte) :: u64) = k"
  by (simp add: scast_eq signed_of_nat signed_take_bit_int_eq_self unsigned_of_nat take_bit_nat_eq_self)

interpretation bloom: filter_policy "BloomFilterPolicy_CreateFilter (BloomFilterPolicy_make n)" BloomFilterPolicy_KeyMayMatch
  for n
proof
  fix keys :: "bytes list" and dst
  define p where "p = BloomFilterPolicy_make n"
  define bits where "bits = (let b = length keys * bf_bits_per_key p in if b < 64 then 64 else b)"
  define m where "m = (bits + 7) div 8"
  define array where "array = foldl (\<lambda>array key. CreateFilter_probes (m * 8) (Bloom_delta (BloomHash key)) (bf_k p) (BloomHash key) array)
      (replicate m 0) keys"
  have "64 \<le> bits"
    by (simp add: bits_def Let_def)
  then have m: "8 \<le> m"
    by (simp add: m_def less_eq_div_iff_mult_less_eq)
  have len: "length array = m"
    unfolding array_def using m by (subst filter_bits(1)) simp_all
  have k: "unat (scast (word_of_nat (bf_k p) :: byte) :: u64) = bf_k p"
    using bf_k_range(2) [of n] by (simp add: p_def unat_scast_of_nat)
  have create: "BloomFilterPolicy_CreateFilter p keys dst = dst @ array @ [word_of_nat (bf_k p)]"
    by (simp add: BloomFilterPolicy_CreateFilter_def array_def m_def bits_def Let_def)
  have "BloomFilterPolicy_KeyMayMatch key (array @ [word_of_nat (bf_k p)])" if "key \<in> set keys" for key
  proof -
    have "KeyMayMatch_probes (m * 8) (Bloom_delta (BloomHash key)) (bf_k p) (BloomHash key) array"
      unfolding array_def using m that by (intro filter_bits(3)) simp_all
    then show ?thesis
      using m len by (simp add: BloomFilterPolicy_KeyMayMatch_def Let_def nth_append k KeyMayMatch_probes_append mult.commute)
  qed
  then show "\<exists>f. BloomFilterPolicy_CreateFilter (BloomFilterPolicy_make n) keys dst = dst @ f \<and>
      (\<forall>key\<in>set keys. BloomFilterPolicy_KeyMayMatch key f)"
    using create by (auto simp add: p_def)
qed

interpretation internal_bloom: filter_policy
  "InternalFilterPolicy_CreateFilter (BloomFilterPolicy_CreateFilter (BloomFilterPolicy_make n))"
  "InternalFilterPolicy_KeyMayMatch BloomFilterPolicy_KeyMayMatch"
  for n
  by (rule bloom.internal_policy)

section \<open>The filter block matches every key of its table\<close>

text \<open>
  A table adds its blocks in order: the offset of the block, then its keys. \<open>filter_block_inv\<close> says
  what the builder holds: the filters generated so far, one after the other with their offsets, and
  the keys for the next filter; and every key added is covered by the filter for its offset or is
  among those keys.
\<close>

definition add_block ::
  "(bytes list \<Rightarrow> bytes \<Rightarrow> bytes) \<Rightarrow> FilterBlockBuilder \<Rightarrow> u64 \<times> bytes list \<Rightarrow> FilterBlockBuilder" where
  "add_block create b blk =
     foldl (\<lambda>b key. FilterBlockBuilder_AddKey key b) (FilterBlockBuilder_StartBlock create (fst blk) b) (snd blk)"

primrec offsets_of :: "nat \<Rightarrow> bytes list \<Rightarrow> nat list" where
  "offsets_of n [] = []"
| "offsets_of n (f # fs) = n # offsets_of (n + length f) fs"

definition pending :: "FilterBlockBuilder \<Rightarrow> bytes list \<Rightarrow> bool" where
  "pending b ks \<longleftrightarrow> fb_keys b = concat ks \<and> fb_start b = offsets_of 0 ks"

definition covered :: "(bytes \<Rightarrow> bytes \<Rightarrow> bool) \<Rightarrow> bytes list \<Rightarrow> bytes list \<Rightarrow> nat \<Rightarrow> bytes \<Rightarrow> bool" where
  "covered may_match fs ks i key =
     (if i < length fs then may_match key (fs ! i) else i = length fs \<and> key \<in> set ks)"

definition filter_block_inv ::
  "(bytes \<Rightarrow> bytes \<Rightarrow> bool) \<Rightarrow> (u64 \<times> bytes list) list \<Rightarrow> bytes list \<Rightarrow> bytes list \<Rightarrow> FilterBlockBuilder \<Rightarrow> bool" where
  "filter_block_inv may_match blks fs ks b \<longleftrightarrow>
     pending b ks \<and> fb_result b = concat fs \<and> fb_filter_offsets b = map word_of_nat (offsets_of 0 fs) \<and>
     (\<forall>blk\<in>set blks. \<forall>key\<in>set (snd blk). covered may_match fs ks (unat (fst blk) div kFilterBase) key)"

lemma covered_generate:
  "covered may_match fs ks i key \<Longrightarrow> \<forall>key\<in>set ks. may_match key g \<Longrightarrow> covered may_match (fs @ [g]) [] i key"
  by (auto simp add: covered_def nth_append split: if_splits)

lemma covered_keys: "covered may_match fs ks i key \<Longrightarrow> covered may_match fs (ks @ ks') i key"
  by (auto simp add: covered_def split: if_splits)

lemma length_offsets_of [simp]: "length (offsets_of n fs) = length fs"
  by (induction fs arbitrary: n) simp_all

lemma offsets_of_append: "offsets_of n (fs @ gs) = offsets_of n fs @ offsets_of (n + length (concat fs)) gs"
  by (induction fs arbitrary: n) (simp_all add: add.assoc)

lemma nth_offsets_of: "i < length fs \<Longrightarrow> offsets_of n fs ! i = n + length (concat (take i fs))"
proof (induction fs arbitrary: n i)
  case (Cons f fs)
  then show ?case by (cases i) (simp_all add: add.assoc)
qed simp

lemma tmp_keys_pending:
  assumes "pending b ks"
  shows "tmp_keys (fb_keys b) (fb_start b) = ks"
proof (rule nth_equalityI)
  show "length (tmp_keys (fb_keys b) (fb_start b)) = length ks"
    using assms by (simp add: pending_def tmp_keys_def Let_def)
  fix i assume "i < length (tmp_keys (fb_keys b) (fb_start b))"
  then have i: "i < length ks"
    using assms by (simp add: pending_def tmp_keys_def Let_def)
  define start where "start = offsets_of 0 ks @ [length (concat ks)]"
  have nth: "start ! j = length (concat (take j ks))" if "j \<le> length ks" for j
    using that by (cases "j = length ks") (simp_all add: start_def nth_append nth_offsets_of)
  have split: "concat ks = concat (take i ks) @ ks ! i @ concat (drop (Suc i) ks)"
    using id_take_nth_drop [OF i] by (metis append_Cons concat.simps(2) concat_append self_append_conv2)
  have "take (start ! (i + 1) - start ! i) (drop (start ! i) (concat ks)) = ks ! i"
    using i by (subst split) (simp add: nth take_Suc_conv_app_nth)
  then show "tmp_keys (fb_keys b) (fb_start b) ! i = ks ! i"
    using assms i by (simp add: pending_def tmp_keys_def Let_def start_def)
qed

lemma pending_AddKey: "pending b ks \<Longrightarrow> pending (FilterBlockBuilder_AddKey key b) (ks @ [key])"
  by (simp add: pending_def FilterBlockBuilder_AddKey_def offsets_of_append)

lemma inv_AddKeys:
  assumes "filter_block_inv may_match blks fs ks b" "unat ofs div kFilterBase = length fs"
  shows "filter_block_inv may_match (blks @ [(ofs, keys)]) fs (ks @ keys) (foldl (\<lambda>b key. FilterBlockBuilder_AddKey key b) b keys)"
proof -
  have *: "pending b ks \<Longrightarrow> pending (foldl (\<lambda>b key. FilterBlockBuilder_AddKey key b) b keys) (ks @ keys) \<and>
      fb_result (foldl (\<lambda>b key. FilterBlockBuilder_AddKey key b) b keys) = fb_result b \<and>
      fb_filter_offsets (foldl (\<lambda>b key. FilterBlockBuilder_AddKey key b) b keys) = fb_filter_offsets b" for b ks
  proof (induction keys arbitrary: b ks)
    case (Cons k keys)
    show ?case
      using Cons.IH [OF pending_AddKey [OF Cons.prems]] by (simp add: FilterBlockBuilder_AddKey_def)
  qed simp
  then show ?thesis
    using assms by (auto simp add: filter_block_inv_def covered_keys) (simp add: covered_def)
qed

context filter_policy
begin

lemma inv_GenerateFilter:
  assumes "filter_block_inv may_match blks fs ks b"
  shows "\<exists>f. filter_block_inv may_match blks (fs @ [f]) [] (GenerateFilter create b)"
proof -
  have b: "pending b ks" "fb_result b = concat fs" "fb_filter_offsets b = map word_of_nat (offsets_of 0 fs)"
    using assms by (simp_all add: filter_block_inv_def)
  obtain f where f: "create ks (fb_result b) = fb_result b @ f" "\<forall>key\<in>set ks. may_match key f"
    using create_appends by blast
  define g where "g = (if ks = [] then [] else f)"
  have "fb_start b = [] \<longleftrightarrow> ks = []"
    using b(1) by (cases ks) (simp_all add: pending_def)
  then have "GenerateFilter create b =
      b\<lparr>fb_filter_offsets := fb_filter_offsets b @ [word_of_nat (length (fb_result b))],
        fb_result := fb_result b @ g, fb_keys := [], fb_start := []\<rparr>"
    using b(1) f(1) tmp_keys_pending [OF b(1)]
    by (auto simp add: GenerateFilter_def g_def Let_def pending_def)
  then have "filter_block_inv may_match blks (fs @ [g]) [] (GenerateFilter create b)"
    using assms f(2) b
    by (auto simp add: filter_block_inv_def pending_def offsets_of_append g_def intro!: covered_generate [where ks = ks])
  then show ?thesis ..
qed

lemma inv_StartBlock:
  assumes "filter_block_inv may_match blks fs ks b" "length fs \<le> i"
  shows "\<exists>fs ks. length fs = i \<and> filter_block_inv may_match blks fs ks (StartBlock_loop create i b)"
  using assms
proof (induction "i - length fs" arbitrary: fs ks b)
  case 0
  then have "length (fb_filter_offsets b) = i" "length fs = i"
    by (simp_all add: filter_block_inv_def)
  then show ?case
    using 0(2) by (subst StartBlock_loop.simps) auto
next
  case (Suc n)
  then have "length (fb_filter_offsets b) < i"
    by (simp add: filter_block_inv_def)
  then have loop: "StartBlock_loop create i b = StartBlock_loop create i (GenerateFilter create b)"
    by (subst StartBlock_loop.simps) simp
  obtain f where "filter_block_inv may_match blks (fs @ [f]) [] (GenerateFilter create b)"
    using inv_GenerateFilter [OF Suc.prems(1)] by blast
  then show ?case
    unfolding loop using Suc.hyps(2) Suc.prems(2) by (intro Suc.hyps(1) [of "fs @ [f]" "[]"]) simp_all
qed

lemma inv_blocks:
  assumes "sorted (map (\<lambda>blk. unat (fst blk)) blks)"
  shows "\<exists>fs ks. filter_block_inv may_match blks fs ks (foldl (add_block create) FilterBlockBuilder_make blks) \<and>
    (blks \<noteq> [] \<longrightarrow> length fs = unat (fst (last blks)) div kFilterBase)"
  using assms
proof (induction blks rule: rev_induct)
  case Nil
  show ?case
    by (rule exI [of _ "[]"], rule exI [of _ "[]"]) (simp add: filter_block_inv_def FilterBlockBuilder_make_def pending_def)
next
  case (snoc blk blks)
  obtain fs ks where inv: "filter_block_inv may_match blks fs ks (foldl (add_block create) FilterBlockBuilder_make blks)"
      "blks \<noteq> [] \<longrightarrow> length fs = unat (fst (last blks)) div kFilterBase"
    using snoc by (auto simp add: sorted_append)
  have "length fs \<le> unat (fst blk) div kFilterBase"
  proof (cases "blks = []")
    case True
    then have "fb_filter_offsets (foldl (add_block create) FilterBlockBuilder_make blks) = []"
      by (simp add: FilterBlockBuilder_make_def)
    then have "fs = []"
      using inv(1) by (metis filter_block_inv_def length_0_conv length_map length_offsets_of)
    then show ?thesis by simp
  next
    case False
    then have "unat (fst (last blks)) \<le> unat (fst blk)"
      using snoc.prems by (auto simp add: sorted_append)
    then show ?thesis
      using inv(2) False by (simp add: div_le_mono)
  qed
  then obtain fs' ks' where "length fs' = unat (fst blk) div kFilterBase"
      "filter_block_inv may_match blks fs' ks'
        (FilterBlockBuilder_StartBlock create (fst blk) (foldl (add_block create) FilterBlockBuilder_make blks))"
    using inv_StartBlock [OF inv(1)] unfolding FilterBlockBuilder_StartBlock_def by blast
  then show ?case
    using inv_AddKeys [of may_match blks fs' ks' _ "fst blk" "snd blk"]
    by (auto simp add: add_block_def [of create _ blk])
qed

lemma inv_Finish:
  assumes "filter_block_inv may_match blks fs ks b"
  shows "\<exists>fs. fst (FilterBlockBuilder_Finish create b) =
      concat fs @ concat (map Fixed32 (map word_of_nat (offsets_of 0 fs @ [length (concat fs)]))) @ [11] \<and>
    (\<forall>blk\<in>set blks. \<forall>key\<in>set (snd blk). unat (fst blk) div kFilterBase < length fs \<and>
       may_match key (fs ! (unat (fst blk) div kFilterBase)))"
proof -
  define b' where "b' = (if fb_start b \<noteq> [] then GenerateFilter create b else b)"
  have nil: "fb_start b = [] \<longleftrightarrow> ks = []"
    using assms by (cases ks) (simp_all add: filter_block_inv_def pending_def)
  obtain fs' where fs': "filter_block_inv may_match blks fs' [] b'"
    using inv_GenerateFilter [OF assms] assms nil by (cases "ks = []") (auto simp add: b'_def)
  have put: "foldl PutFixed32 r os = r @ concat (map Fixed32 os)" for r os
    by (induction os arbitrary: r) (simp_all add: PutFixed32_def)
  have "fst (FilterBlockBuilder_Finish create b) =
      concat fs' @ concat (map Fixed32 (map word_of_nat (offsets_of 0 fs' @ [length (concat fs')]))) @ [11]"
    using fs' unfolding FilterBlockBuilder_Finish_def b'_def [symmetric] Let_def put
    by (simp add: filter_block_inv_def PutFixed32_def kFilterBaseLg_def)
  moreover have "\<forall>blk\<in>set blks. \<forall>key\<in>set (snd blk). unat (fst blk) div kFilterBase < length fs' \<and>
      may_match key (fs' ! (unat (fst blk) div kFilterBase))"
    using fs' by (auto simp add: filter_block_inv_def covered_def split: if_splits)
  ultimately show ?thesis by blast
qed

end

lemma concat_Fixed32_drop:
  "i < length os \<Longrightarrow> drop (4 * i) (concat (map Fixed32 os) @ t) = Fixed32 (os ! i) @ concat (map Fixed32 (drop (Suc i) os)) @ t"
proof (induction os arbitrary: i)
  case (Cons x os)
  then show ?case by (cases i) simp_all
qed simp

lemma length_concat_Fixed32 [simp]: "length (concat (map Fixed32 os)) = 4 * length os"
  by (induction os) simp_all

lemma reader_filter:
  assumes "length (concat fs) < 2 ^ 32" "unat ofs div kFilterBase < length fs"
  shows "FilterBlockReader_KeyMayMatch may_match ofs key (FilterBlockReader_make
    (concat fs @ concat (map Fixed32 (map word_of_nat (offsets_of 0 fs @ [length (concat fs)]))) @ [11])) =
    may_match key (fs ! (unat ofs div kFilterBase))"
proof -
  define i where "i = unat ofs div kFilterBase"
  define os where "os = offsets_of 0 fs @ [length (concat fs)]"
  define T where "T = concat (map Fixed32 (map word_of_nat os))"
  define R where "R = concat fs"
  define contents where "contents = R @ T @ [11]"
  have os: "length os = Suc (length fs)" "j \<le> length fs \<Longrightarrow> os ! j = length (concat (take j fs))" for j
    by (cases "j = length fs", simp_all add: os_def nth_append nth_offsets_of)
  have T: "length T = 4 * Suc (length fs)"
    using os(1) by (simp add: T_def del: map_map)
  have word: "j \<le> length fs \<Longrightarrow> unat (GetFixed32 (drop (length R + j * 4) contents)) = length (concat (take j fs))" for j
  proof -
    assume j: "j \<le> length fs"
    have "length (concat (take j fs)) \<le> length (concat fs)"
      by (metis append_take_drop_id concat_append length_append le_add1)
    then have "length (concat (take j fs)) < 2 ^ 32"
      using assms(1) by simp
    then show ?thesis
      using j os concat_Fixed32_drop [of j "map word_of_nat os" "[11]"]
      by (simp add: contents_def T_def mult.commute unsigned_of_nat take_bit_nat_eq_self del: map_map)
  qed
  have reader: "FilterBlockReader_make contents =
      \<lparr>fr_data = Some contents, fr_offset = length R, fr_num = length fs, fr_base_lg = 11\<rparr>"
  proof -
    have n: "length contents - 5 = length R + length fs * 4" "length contents - 1 = length R + length T"
      using T by (simp_all add: contents_def)
    have last: "unat (GetFixed32 (drop (length R + length fs * 4) contents)) = length R"
      using word [of "length fs"] by (simp add: R_def)
    have "contents ! (length R + length T) = 11"
      by (simp add: contents_def nth_append)
    then show ?thesis
      using T unfolding FilterBlockReader_make_def Let_def n last by (simp add: contents_def)
  qed
  have index: "unat (drop_bit 11 ofs) = i"
    by (simp add: i_def kFilterBase_def kFilterBaseLg_def drop_bit_eq_div unat_div)
  have i: "i < length fs"
    using assms(2) by (simp add: i_def)
  have split: "R = concat (take i fs) @ fs ! i @ concat (drop (Suc i) fs)"
    using id_take_nth_drop [OF i] unfolding R_def by (metis append_Cons concat.simps(2) concat_append self_append_conv2)
  have limit: "length (concat (take (Suc i) fs)) = length (concat (take i fs)) + length (fs ! i)"
    using i by (simp add: take_Suc_conv_app_nth)
  have data: "take (length (fs ! i)) (drop (length (concat (take i fs))) contents) = fs ! i"
    by (simp add: contents_def split)
  have start: "unat (GetFixed32 (drop (length R + i * 4) contents)) = length (concat (take i fs))"
      "unat (GetFixed32 (drop (length R + i * 4 + 4) contents)) = length (concat (take i fs)) + length (fs ! i)"
    using word [of i] word [of "Suc i"] i limit by (simp_all add: add.commute add.left_commute)
  have "length (concat (take i fs)) + length (fs ! i) \<le> length R"
    by (simp add: split)
  then have "FilterBlockReader_KeyMayMatch may_match ofs key (FilterBlockReader_make contents) = may_match key (fs ! i)"
    unfolding FilterBlockReader_KeyMayMatch_def reader using i start data by (simp add: index)
  then show ?thesis
    by (simp only: contents_def R_def T_def os_def i_def)
qed

context filter_policy
begin

lemma reader_matches:
  assumes "sorted (map (\<lambda>blk. unat (fst blk)) blks)"
    and "length (fst (FilterBlockBuilder_Finish create (foldl (add_block create) FilterBlockBuilder_make blks))) < 2 ^ 32"
    and "(ofs, keys) \<in> set blks" "key \<in> set keys"
  shows "FilterBlockReader_KeyMayMatch may_match ofs key
    (FilterBlockReader_make (fst (FilterBlockBuilder_Finish create (foldl (add_block create) FilterBlockBuilder_make blks))))"
proof -
  obtain fs where fs: "fst (FilterBlockBuilder_Finish create (foldl (add_block create) FilterBlockBuilder_make blks)) =
        concat fs @ concat (map Fixed32 (map word_of_nat (offsets_of 0 fs @ [length (concat fs)]))) @ [11]"
      "unat ofs div kFilterBase < length fs" "may_match key (fs ! (unat ofs div kFilterBase))"
    using inv_blocks [OF assms(1)] inv_Finish assms(3,4) by fastforce
  then have "length (concat fs) < 2 ^ 32"
    using assms(2) by simp
  then show ?thesis
    using fs by (simp only: reader_filter)
qed

end

text \<open>The filter block of a table with the Bloom filter over user keys.\<close>

abbreviation bloom_create :: "nat \<Rightarrow> bytes list \<Rightarrow> bytes \<Rightarrow> bytes" where
  "bloom_create n \<equiv> InternalFilterPolicy_CreateFilter (BloomFilterPolicy_CreateFilter (BloomFilterPolicy_make n))"

definition filter_block :: "nat \<Rightarrow> (u64 \<times> bytes list) list \<Rightarrow> bytes" where
  "filter_block n blks =
     fst (FilterBlockBuilder_Finish (bloom_create n) (foldl (add_block (bloom_create n)) FilterBlockBuilder_make blks))"

lemma length_bloom_create:
  "length (bloom_create n keys dst) = length dst + ((max 64 (length keys * n) + 7) div 8 + 1)"
proof -
  define bits where "bits = max 64 (length keys * n)"
  have "64 \<le> bits"
    by (simp add: bits_def)
  then have m: "8 \<le> (bits + 7) div 8"
    by (simp add: less_eq_div_iff_mult_less_eq)
  then have "length (foldl (\<lambda>array key. CreateFilter_probes ((bits + 7) div 8 * 8) (Bloom_delta (BloomHash key)) k (BloomHash key) array)
      (replicate ((bits + 7) div 8) 0) keys') = (bits + 7) div 8" for k keys'
    by (subst filter_bits(1)) simp_all
  moreover have "(if length keys * n < 64 then 64 else length keys * n) = bits"
    by (simp add: bits_def)
  ultimately show ?thesis
    by (simp add: InternalFilterPolicy_CreateFilter_def BloomFilterPolicy_CreateFilter_def BloomFilterPolicy_make_def Let_def
        bits_def [symmetric])
qed

text \<open>C9. The filter block of a table never hides a key: when the blocks of a table are added at
  increasing offsets, each with its keys, the reader of the finished filter block answers that every
  key may be found in its block, for the Bloom filter over user keys at any number of bits per key.\<close>

theorem filter_block_matches:
  assumes "sorted (map (\<lambda>blk. unat (fst blk)) blks)" "length (filter_block n blks) < 2 ^ 32"
    and "(ofs, keys) \<in> set blks" "key \<in> set keys"
  shows "FilterBlockReader_KeyMayMatch (InternalFilterPolicy_KeyMayMatch BloomFilterPolicy_KeyMayMatch) ofs key
    (FilterBlockReader_make (filter_block n blks))"
  using internal_bloom.reader_matches [OF assms(1) _ assms(3,4), of n] assms(2) by (simp add: filter_block_def)

theorem filter_block_matches_witness:
  "FilterBlockReader_KeyMayMatch (InternalFilterPolicy_KeyMayMatch BloomFilterPolicy_KeyMayMatch) 5000 [7, 1, 0, 0, 0, 0, 0, 0, 0]
    (FilterBlockReader_make (filter_block 10 [(0, [[5, 1, 0, 0, 0, 0, 0, 0, 0]]), (5000, [[7, 1, 0, 0, 0, 0, 0, 0, 0]])]))"
proof -
  let ?blks = "[(0, [[5, 1, 0, 0, 0, 0, 0, 0, 0]]), (5000, [[7, 1, 0, 0, 0, 0, 0, 0, 0]])] :: (u64 \<times> bytes list) list"
  have "length (filter_block 10 ?blks) < 2 ^ 32"
    by (simp add: filter_block_def FilterBlockBuilder_Finish_def add_block_def FilterBlockBuilder_StartBlock_def
        StartBlock_loop.simps GenerateFilter_def FilterBlockBuilder_AddKey_def FilterBlockBuilder_make_def
        length_bloom_create tmp_keys_def kFilterBase_def kFilterBaseLg_def PutFixed32_def Let_def)
  then show ?thesis
    using filter_block_matches [of ?blks 10 5000 "[[7, 1, 0, 0, 0, 0, 0, 0, 0]]" "[7, 1, 0, 0, 0, 0, 0, 0, 0]"] by simp
qed

end
