(* ===== verification/Mem_Env.thy ===== *)
theory Mem_Env
  imports Slices "HOL-Library.Char_ord" "HOL-Library.List_Lexorder"
begin

text \<open>
  \<^verbatim>\<open>helpers/memenv/memenv.cc\<close>: the environment that keeps files in memory. A file is a vector of
  blocks of 8192 bytes and a size; the file system maps names to files, which are reference
  counted because several handles may share one. The theory also states the interfaces of
  \<^verbatim>\<open>WritableFile\<close> and \<^verbatim>\<open>SequentialFile\<close> (\<^verbatim>\<open>include/leveldb/env.h\<close>) that the log writer and
  reader rely on, and interprets them on these files.
\<close>

section \<open>Files\<close>

definition FileState_kBlockSize :: nat where
  "FileState_kBlockSize = 8 * 1024"

record FileState =
  fs_refs :: nat
  fs_blocks :: "bytes list"
  fs_size :: nat

definition FileState_make :: FileState where
  "FileState_make = \<lparr>fs_refs = 0, fs_blocks = [], fs_size = 0\<rparr>"

definition FileState_Size :: "FileState \<Rightarrow> nat" where
  "FileState_Size f = fs_size f"

definition FileState_Truncate :: "FileState \<Rightarrow> FileState" where
  "FileState_Truncate f = f\<lparr>fs_blocks := [], fs_size := 0\<rparr>"

text \<open>
  The copying loop of \<^verbatim>\<open>Read\<close>. It starts with an offset inside a block, which is what makes it
  advance; the test for that is the model's.
\<close>

function FileState_Read_loop :: "bytes list \<Rightarrow> nat \<Rightarrow> nat \<Rightarrow> nat \<Rightarrow> bytes" where
  "FileState_Read_loop blocks block block_offset bytes_to_copy =
     (if bytes_to_copy > 0 \<and> block_offset < FileState_kBlockSize then
        let avail = FileState_kBlockSize - block_offset;
            avail = (if avail > bytes_to_copy then bytes_to_copy else avail)
        in take avail (drop block_offset (blocks ! block)) @
           FileState_Read_loop blocks (block + 1) 0 (bytes_to_copy - avail)
      else [])"
  by pat_completeness auto
termination
  by (relation "measure (\<lambda>(_, _, _, n). n)") auto

declare FileState_Read_loop.simps [simp del]

definition FileState_Read :: "FileState \<Rightarrow> nat \<Rightarrow> nat \<Rightarrow> status \<times> bytes" where
  "FileState_Read f offset n =
     (if offset > fs_size f then (IOError ''Offset greater than file size.'', [])
      else
        let available = fs_size f - offset;
            n = (if n > available then available else n)
        in if n = 0 then (Status_OK, [])
           else (Status_OK,
                 FileState_Read_loop (fs_blocks f) (offset div FileState_kBlockSize)
                   (offset mod FileState_kBlockSize) n))"

text \<open>The contents of a new block are not initialised; the model starts them as zeros.\<close>

definition FileState_Append_step :: "bytes \<Rightarrow> FileState \<Rightarrow> nat \<times> FileState" where
  "FileState_Append_step src f =
     (let offset = fs_size f mod FileState_kBlockSize;
          (blocks, avail) =
            (if offset \<noteq> 0 then (fs_blocks f, FileState_kBlockSize - offset)
             else (fs_blocks f @ [replicate FileState_kBlockSize 0], FileState_kBlockSize));
          avail = (if avail > length src then length src else avail);
          back = last blocks;
          back = take offset back @ take avail src @ drop (offset + avail) back
      in (avail, f\<lparr>fs_blocks := butlast blocks @ [back], fs_size := fs_size f + avail\<rparr>))"

function FileState_Append_loop :: "bytes \<Rightarrow> FileState \<Rightarrow> FileState" where
  "FileState_Append_loop src f =
     (if src = [] then f
      else
        let (avail, f') = FileState_Append_step src f
        in FileState_Append_loop (drop avail src) f')"
  by pat_completeness auto
termination
  by (relation "measure (\<lambda>(src, _). length src)")
    (auto simp add: FileState_Append_step_def FileState_kBlockSize_def Let_def split: if_splits)

declare FileState_Append_loop.simps [simp del]

definition FileState_Append :: "bytes \<Rightarrow> FileState \<Rightarrow> status \<times> FileState" where
  "FileState_Append data f = (Status_OK, FileState_Append_loop data f)"

section \<open>What a file holds\<close>

definition fs_inv :: "FileState \<Rightarrow> bool" where
  "fs_inv f \<longleftrightarrow>
     (\<forall>b\<in>set (fs_blocks f). length b = FileState_kBlockSize) \<and>
     length (fs_blocks f) = (fs_size f + (FileState_kBlockSize - 1)) div FileState_kBlockSize"

definition fs_contents :: "FileState \<Rightarrow> bytes" where
  "fs_contents f = take (fs_size f) (concat (fs_blocks f))"

lemma length_concat_blocks:
  "\<forall>b\<in>set bs. length b = n \<Longrightarrow> length (concat bs) = length bs * n"
  by (induction bs) auto

lemma drop_concat_blocks:
  "\<forall>b\<in>set bs. length b = n \<Longrightarrow> k \<le> length bs \<Longrightarrow> drop (k * n) (concat bs) = concat (drop k bs)"
proof (induction bs arbitrary: k)
  case (Cons b bs)
  then show ?case by (cases k) auto
qed simp

lemma fs_inv_size:
  assumes "fs_inv f"
  shows "fs_size f \<le> length (concat (fs_blocks f))"
proof -
  have "length (concat (fs_blocks f)) = (fs_size f + 8191) div 8192 * 8192"
    using assms length_concat_blocks [of "fs_blocks f" FileState_kBlockSize]
    by (simp add: fs_inv_def FileState_kBlockSize_def)
  then show ?thesis by simp
qed

lemma length_fs_contents: "fs_inv f \<Longrightarrow> length (fs_contents f) = fs_size f"
  using fs_inv_size by (simp add: fs_contents_def)

lemma fs_inv_make [simp]: "fs_inv FileState_make" "fs_contents FileState_make = []"
  by (simp_all add: fs_inv_def fs_contents_def FileState_make_def FileState_kBlockSize_def)

lemma fs_inv_Truncate: "fs_inv (FileState_Truncate f)" "fs_contents (FileState_Truncate f) = []"
  by (simp_all add: fs_inv_def fs_contents_def FileState_Truncate_def FileState_kBlockSize_def)

lemma Read_loop_concat:
  assumes "\<forall>b\<in>set bs. length b = FileState_kBlockSize" "o' < FileState_kBlockSize"
    and "k * FileState_kBlockSize + o' + n \<le> length (concat bs)"
  shows "FileState_Read_loop bs k o' n = take n (drop (k * FileState_kBlockSize + o') (concat bs))"
  using assms
proof (induction bs k o' n rule: FileState_Read_loop.induct)
  case (1 bs k o' n)
  show ?case
  proof (cases "n = 0")
    case True
    then show ?thesis by (subst FileState_Read_loop.simps) simp
  next
    case False
    let ?B = FileState_kBlockSize
    define a where "a = (if ?B - o' > n then n else ?B - o')"
    have len: "length (concat bs) = length bs * ?B" by (rule length_concat_blocks) (use 1 in simp)
    have "k * ?B + o' < length bs * ?B" using 1(4) False len by linarith
    then have k: "k < length bs" by (metis add_lessD1 mult_less_cancel2)
    have "drop (k * ?B) (concat bs) = bs ! k @ concat (drop (Suc k) bs)"
      using drop_concat_blocks [of bs ?B k] 1(2) k by (simp add: Cons_nth_drop_Suc [symmetric])
    then have D: "drop (k * ?B + o') (concat bs) = drop o' (bs ! k) @ concat (drop (Suc k) bs)"
      using 1(2,3) k by (simp add: add.commute flip: drop_drop)
    have bk: "length (drop o' (bs ! k)) = ?B - o'" using 1(2) k by simp
    have step: "FileState_Read_loop bs k o' n = take a (drop o' (bs ! k)) @ FileState_Read_loop bs (k + 1) 0 (n - a)"
      using False 1(3) by (subst FileState_Read_loop.simps) (simp add: a_def Let_def)
    show ?thesis
    proof (cases "n \<le> ?B - o'")
      case True
      then have "a = n" by (simp add: a_def)
      moreover have "FileState_Read_loop bs (k + 1) 0 0 = []" by (subst FileState_Read_loop.simps) simp
      ultimately show ?thesis using step D True bk by simp
    next
      case less: False
      then have a: "a = ?B - o'" by (simp add: a_def)
      have pos: "n > 0 \<and> o' < ?B" using False 1(3) by simp
      have "FileState_Read_loop bs (k + 1) 0 (n - a) = take (n - a) (drop ((k + 1) * ?B + 0) (concat bs))"
        by (rule 1(1) [OF pos refl a_def]) (use 1 less a in \<open>simp_all add: FileState_kBlockSize_def\<close>)
      also have "drop ((k + 1) * ?B + 0) (concat bs) = concat (drop (Suc k) bs)"
        using drop_concat_blocks [of bs ?B "k + 1"] 1(2) k by simp
      finally show ?thesis
        using step D bk a less by simp
    qed
  qed
qed

lemma FileState_Read_contents:
  assumes "fs_inv f" "offset \<le> fs_size f"
  shows "FileState_Read f offset n = (Status_OK, take n (drop offset (fs_contents f)))"
proof -
  let ?B = FileState_kBlockSize
  define m where "m = (if n > fs_size f - offset then fs_size f - offset else n)"
  have "FileState_Read_loop (fs_blocks f) (offset div ?B) (offset mod ?B) m =
      take m (drop (offset div ?B * ?B + offset mod ?B) (concat (fs_blocks f)))"
    by (rule Read_loop_concat)
      (use assms fs_inv_size [OF assms(1)] in \<open>auto simp add: fs_inv_def m_def FileState_kBlockSize_def\<close>)
  also have "\<dots> = take n (drop offset (fs_contents f))"
    by (simp add: fs_contents_def drop_take m_def min_def)
  finally show ?thesis
    using assms(2) length_fs_contents [OF assms(1)] by (auto simp add: FileState_Read_def m_def Let_def)
qed

lemma block_count:
  fixes q r B :: nat
  assumes "0 < r" "r \<le> B"
  shows "(q * B + r + (B - 1)) div B = Suc q"
proof -
  have "q * B + r + (B - 1) = (r - 1) + Suc q * B" using assms by simp
  also have "\<dots> div B = Suc q" using assms by (subst div_mult_self1) simp_all
  finally show ?thesis .
qed

lemma fs_size_split: "fs_size f = fs_size f div FileState_kBlockSize * FileState_kBlockSize + fs_size f mod FileState_kBlockSize"
  by simp

lemma fs_inv_length:
  assumes "fs_inv f"
  shows "length (fs_blocks f) =
    (if fs_size f mod FileState_kBlockSize = 0 then fs_size f div FileState_kBlockSize
     else Suc (fs_size f div FileState_kBlockSize))"
proof -
  let ?B = FileState_kBlockSize and ?q = "fs_size f div FileState_kBlockSize" and ?r = "fs_size f mod FileState_kBlockSize"
  have B: "0 < ?B" by (simp add: FileState_kBlockSize_def)
  have len: "length (fs_blocks f) = (?q * ?B + ?r + (?B - 1)) div ?B"
    using assms by (simp add: fs_inv_def)
  show ?thesis
  proof (cases "?r = 0")
    case True
    have "(?q * ?B + (?B - 1)) div ?B = ?q"
      using B div_mult_self3 [of ?B ?q "?B - 1"] by simp
    then show ?thesis using len True by simp
  next
    case False
    then show ?thesis using len block_count [of ?r ?B ?q] B by simp
  qed
qed

lemma fs_inv_blocks:
  assumes "fs_inv f"
  obtains "fs_size f mod FileState_kBlockSize = 0" "length (concat (fs_blocks f)) = fs_size f"
  | bs b where "fs_size f mod FileState_kBlockSize \<noteq> 0" "fs_blocks f = bs @ [b]"
      "length (concat bs) = fs_size f - fs_size f mod FileState_kBlockSize" "length b = FileState_kBlockSize"
proof (cases "fs_size f mod FileState_kBlockSize = 0")
  case True
  have "length (concat (fs_blocks f)) = length (fs_blocks f) * FileState_kBlockSize"
    using assms by (intro length_concat_blocks) (simp add: fs_inv_def)
  then show thesis
    using that(1) True fs_inv_length [OF assms] fs_size_split [of f] by simp
next
  case False
  have len: "length (fs_blocks f) = Suc (fs_size f div FileState_kBlockSize)"
    using fs_inv_length [OF assms] False by simp
  then obtain bs b where bs: "fs_blocks f = bs @ [b]" by (metis append_butlast_last_id length_0_conv nat.distinct(1))
  have "length (concat bs) = length bs * FileState_kBlockSize" "length b = FileState_kBlockSize"
    using assms length_concat_blocks [of bs FileState_kBlockSize] by (simp_all add: fs_inv_def bs)
  moreover have "length bs = fs_size f div FileState_kBlockSize" using len bs by simp
  ultimately show thesis
    using that(2) False bs by (simp add: minus_mod_eq_div_mult)
qed

lemma Append_step:
  assumes inv: "fs_inv f" and src: "src \<noteq> []" and step: "FileState_Append_step src f = (a, f')"
  shows "0 < a" "a \<le> length src" "fs_inv f'" "fs_contents f' = fs_contents f @ take a src"
proof -
  define o' where "o' = fs_size f mod FileState_kBlockSize"
  define bs where "bs = (if o' = 0 then fs_blocks f else butlast (fs_blocks f))"
  define b where "b = (if o' = 0 then replicate FileState_kBlockSize 0 else last (fs_blocks f))"
  have a: "a = min (FileState_kBlockSize - o') (length src)"
    and f': "f' = f\<lparr>fs_blocks := bs @ [take o' b @ take a src @ drop (o' + a) b], fs_size := fs_size f + a\<rparr>"
    using step by (auto simp add: FileState_Append_step_def Let_def o'_def bs_def b_def split: if_splits)
  have o': "o' < FileState_kBlockSize" by (simp add: o'_def FileState_kBlockSize_def)
  show "0 < a" "a \<le> length src" using a src o' by auto
  have facts: "length b = FileState_kBlockSize \<and> length (concat bs) = fs_size f - o' \<and>
      fs_contents f = concat bs @ take o' b \<and> (\<forall>x\<in>set bs. length x = FileState_kBlockSize)"
  proof (cases rule: fs_inv_blocks [OF inv])
    case 1
    then show ?thesis using inv by (simp add: o'_def bs_def b_def fs_contents_def fs_inv_def)
  next
    case (2 bs' b')
    moreover have "o' \<le> fs_size f" by (simp add: o'_def)
    ultimately show ?thesis using inv by (auto simp add: o'_def [symmetric] bs_def b_def fs_contents_def fs_inv_def)
  qed
  have le: "o' \<le> fs_size f" by (simp add: o'_def)
  show "fs_contents f' = fs_contents f @ take a src"
  proof -
    define X where "X = concat bs @ take o' b @ take a src"
    have "length X = fs_size f + a" using facts le o' \<open>a \<le> length src\<close> by (simp add: X_def)
    moreover have "fs_contents f' = take (fs_size f + a) (X @ drop (o' + a) b)"
      by (simp add: fs_contents_def f' X_def)
    ultimately have "fs_contents f' = X" by simp
    then show ?thesis using facts by (simp add: X_def)
  qed
  have "length bs * FileState_kBlockSize = fs_size f - o'"
    using facts length_concat_blocks [of bs FileState_kBlockSize] by simp
  then have "fs_size f + a = length bs * FileState_kBlockSize + (o' + a)" using le by simp
  moreover have "0 < o' + a" "o' + a \<le> FileState_kBlockSize" using \<open>0 < a\<close> a o' by auto
  ultimately have "Suc (length bs) = (fs_size f + a + (FileState_kBlockSize - 1)) div FileState_kBlockSize"
    by (simp only: block_count)
  then show "fs_inv f'"
    using facts a o' by (auto simp add: fs_inv_def f')
qed

lemma FileState_Append_contents:
  assumes "fs_inv f"
  shows "fs_inv (FileState_Append_loop src f)" "fs_contents (FileState_Append_loop src f) = fs_contents f @ src"
proof -
  have "fs_inv (FileState_Append_loop src f) \<and> fs_contents (FileState_Append_loop src f) = fs_contents f @ src"
    using assms
  proof (induction src f rule: FileState_Append_loop.induct)
    case (1 src f)
    show ?case
    proof (cases "src = []")
      case True
      then show ?thesis using 1 by (subst (1 2) FileState_Append_loop.simps) simp
    next
      case False
      obtain a f' where s: "FileState_Append_step src f = (a, f')" by fastforce
      note step = Append_step [OF 1(2) False s]
      have "FileState_Append_loop src f = FileState_Append_loop (drop a src) f'"
        using False s by (subst FileState_Append_loop.simps) simp
      then show ?thesis using 1(1) [OF False s [symmetric] refl step(3)] step by simp
    qed
  qed
  then show "fs_inv (FileState_Append_loop src f)" "fs_contents (FileState_Append_loop src f) = fs_contents f @ src"
    by simp_all
qed

section \<open>File handles\<close>

text \<open>
  \<^verbatim>\<open>SequentialFileImpl\<close> and \<^verbatim>\<open>WritableFileImpl\<close> over one file. The handle of a sequential file is
  the file and a position.
\<close>

definition SequentialFileImpl_Read :: "nat \<Rightarrow> FileState \<times> nat \<Rightarrow> status \<times> bytes \<times> FileState \<times> nat" where
  "SequentialFileImpl_Read n h =
     (let (f, pos) = h; (s, result) = FileState_Read f pos n
      in if Status_ok s then (s, result, f, pos + length result) else (s, result, f, pos))"

definition SequentialFileImpl_Skip :: "nat \<Rightarrow> FileState \<times> nat \<Rightarrow> status \<times> FileState \<times> nat" where
  "SequentialFileImpl_Skip n h =
     (let (f, pos) = h in
      if pos > FileState_Size f then (IOError ''pos_ > file_->Size()'', f, pos)
      else
        let available = FileState_Size f - pos;
            n = (if n > available then available else n)
        in (Status_OK, f, pos + n))"

definition WritableFileImpl_Append :: "bytes \<Rightarrow> FileState \<Rightarrow> status \<times> FileState" where
  "WritableFileImpl_Append data f = FileState_Append data f"

definition WritableFileImpl_Flush :: "FileState \<Rightarrow> status \<times> FileState" where
  "WritableFileImpl_Flush f = (Status_OK, f)"

definition WritableFileImpl_Sync :: "FileState \<Rightarrow> status \<times> FileState" where
  "WritableFileImpl_Sync f = (Status_OK, f)"

definition WritableFileImpl_Close :: "FileState \<Rightarrow> status \<times> FileState" where
  "WritableFileImpl_Close f = (Status_OK, f)"

text \<open>A read of a random access file copies into the buffer of the caller, which is the last component.\<close>

definition RandomAccessFileImpl_Read :: "u64 \<Rightarrow> nat \<Rightarrow> FileState \<Rightarrow> status \<times> bytes \<times> bool" where
  "RandomAccessFileImpl_Read offset n f = (let (s, result) = FileState_Read f (unat offset) n in (s, result, True))"

text \<open>
  What a client may assume of the file interfaces: an append that reports success has appended its
  data, a flush changes nothing, and a sequential read that reports success returns the next bytes,
  fewer than asked for only at the end of the file.
\<close>

locale writable_file =
  fixes append :: "bytes \<Rightarrow> 'f \<Rightarrow> status \<times> 'f" and flush :: "'f \<Rightarrow> status \<times> 'f"
    and contents :: "'f \<Rightarrow> bytes" and good :: "'f \<Rightarrow> bool"
  assumes append_ok: "good f \<Longrightarrow> append d f = (s, f') \<Longrightarrow> Status_ok s \<Longrightarrow>
      good f' \<and> contents f' = contents f @ d"
    and flush_ok: "good f \<Longrightarrow> flush f = (s, f') \<Longrightarrow> Status_ok s \<Longrightarrow> good f' \<and> contents f' = contents f"

locale sequential_file =
  fixes read :: "nat \<Rightarrow> 'g \<Rightarrow> status \<times> bytes \<times> 'g" and skip :: "nat \<Rightarrow> 'g \<Rightarrow> status \<times> 'g"
    and rest :: "'g \<Rightarrow> bytes" and good :: "'g \<Rightarrow> bool"
  assumes read_ok: "good g \<Longrightarrow> \<exists>g'. read n g = (Status_OK, take n (rest g), g') \<and> good g' \<and> rest g' = drop n (rest g)"
    and skip_ok: "good g \<Longrightarrow> \<exists>g'. skip n g = (Status_OK, g') \<and> good g' \<and> rest g' = drop n (rest g)"

locale random_access_file =
  fixes read :: "u64 \<Rightarrow> nat \<Rightarrow> 'r \<Rightarrow> status \<times> bytes \<times> bool" and contents :: "'r \<Rightarrow> bytes" and good :: "'r \<Rightarrow> bool"
  assumes read_at: "good r \<Longrightarrow> unat offset \<le> length (contents r) \<Longrightarrow>
    \<exists>in_buf. read offset n r = (Status_OK, take n (drop (unat offset) (contents r)), in_buf)"

interpretation mem_writable: writable_file WritableFileImpl_Append WritableFileImpl_Flush fs_contents fs_inv
  by unfold_locales
    (auto simp add: WritableFileImpl_Append_def WritableFileImpl_Flush_def FileState_Append_def FileState_Append_contents)

interpretation mem_random: random_access_file RandomAccessFileImpl_Read fs_contents fs_inv
  by unfold_locales (auto simp add: RandomAccessFileImpl_Read_def FileState_Read_contents length_fs_contents)

definition seq_rest :: "FileState \<times> nat \<Rightarrow> bytes" where
  "seq_rest h = drop (snd h) (fs_contents (fst h))"

definition seq_good :: "FileState \<times> nat \<Rightarrow> bool" where
  "seq_good h = (fs_inv (fst h) \<and> snd h \<le> fs_size (fst h))"

interpretation mem_sequential: sequential_file SequentialFileImpl_Read SequentialFileImpl_Skip seq_rest seq_good
proof
  fix g :: "FileState \<times> nat" and n assume g: "seq_good g"
  obtain f pos where f: "g = (f, pos)" "fs_inv f" "pos \<le> fs_size f"
    using g by (cases g) (auto simp add: seq_good_def)
  note len = length_fs_contents [OF f(2)]
  show "\<exists>g'. SequentialFileImpl_Read n g = (Status_OK, take n (seq_rest g), g') \<and> seq_good g' \<and>
      seq_rest g' = drop n (seq_rest g)"
    using FileState_Read_contents [OF f(2,3), of n] f len
    by (cases "n \<le> fs_size f - pos")
      (simp_all add: SequentialFileImpl_Read_def seq_rest_def seq_good_def min_def add.commute)
  show "\<exists>g'. SequentialFileImpl_Skip n g = (Status_OK, g') \<and> seq_good g' \<and> seq_rest g' = drop n (seq_rest g)"
    using f len
    by (cases "n \<le> fs_size f - pos")
      (simp_all add: SequentialFileImpl_Skip_def FileState_Size_def seq_rest_def seq_good_def Let_def add.commute)
qed

section \<open>The file system\<close>

text \<open>
  \<open>me_heap\<close> holds the files by address, \<^const>\<open>None\<close> once deleted; \<open>me_files\<close> is \<^verbatim>\<open>file_map_\<close>, whose
  values are pointers that may be null. An operation whose result is \<^const>\<open>None\<close> dereferences a
  null or dangling pointer.
\<close>

record InMemoryEnv =
  me_heap :: "FileState option list"
  me_files :: "(string \<times> nat option) list"

definition InMemoryEnv_make :: InMemoryEnv where
  "InMemoryEnv_make = \<lparr>me_heap = [], me_files = []\<rparr>"

definition deref :: "InMemoryEnv \<Rightarrow> nat option \<Rightarrow> (nat \<times> FileState) option" where
  "deref env p =
     (case p of None \<Rightarrow> None
      | Some a \<Rightarrow> if a < length (me_heap env) then map_option (Pair a) (me_heap env ! a) else None)"

definition FileState_Ref :: "nat option \<Rightarrow> InMemoryEnv \<Rightarrow> InMemoryEnv option" where
  "FileState_Ref p env =
     map_option (\<lambda>(a, f). env\<lparr>me_heap := (me_heap env)[a := Some (f\<lparr>fs_refs := fs_refs f + 1\<rparr>)]\<rparr>) (deref env p)"

definition FileState_Unref :: "nat option \<Rightarrow> InMemoryEnv \<Rightarrow> InMemoryEnv option" where
  "FileState_Unref p env =
     map_option
       (\<lambda>(a, f). env\<lparr>me_heap := (me_heap env)[a :=
           (if fs_refs f - 1 = 0 then None else Some (f\<lparr>fs_refs := fs_refs f - 1\<rparr>))]\<rparr>)
       (deref env p)"

text \<open>The handle an operation returns is the address of its file.\<close>

definition InMemoryEnv_NewSequentialFile ::
  "string \<Rightarrow> InMemoryEnv \<Rightarrow> (status \<times> nat option \<times> InMemoryEnv) option" where
  "InMemoryEnv_NewSequentialFile fname env =
     (case map_of (me_files env) fname of
        None \<Rightarrow> Some (Status_make kIOError fname ''File not found'', None, env)
      | Some p \<Rightarrow> map_option (\<lambda>env. (Status_OK, p, env)) (FileState_Ref p env))"

definition InMemoryEnv_NewRandomAccessFile ::
  "string \<Rightarrow> InMemoryEnv \<Rightarrow> (status \<times> nat option \<times> InMemoryEnv) option" where
  "InMemoryEnv_NewRandomAccessFile fname env =
     (case map_of (me_files env) fname of
        None \<Rightarrow> Some (Status_make kIOError fname ''File not found'', None, env)
      | Some p \<Rightarrow> map_option (\<lambda>env. (Status_OK, p, env)) (FileState_Ref p env))"

definition new_FileState :: "InMemoryEnv \<Rightarrow> nat \<times> InMemoryEnv" where
  "new_FileState env =
     (length (me_heap env), env\<lparr>me_heap := me_heap env @ [Some FileState_make]\<rparr>)"

definition InMemoryEnv_NewWritableFile ::
  "string \<Rightarrow> InMemoryEnv \<Rightarrow> (status \<times> nat option \<times> InMemoryEnv) option" where
  "InMemoryEnv_NewWritableFile fname env =
     (case map_of (me_files env) fname of
        None \<Rightarrow>
          (let (a, env) = new_FileState env in
           Option.bind (FileState_Ref (Some a) env) (\<lambda>env.
           let env = env\<lparr>me_files := smap_set fname (Some a) (me_files env)\<rparr> in
           map_option (\<lambda>env. (Status_OK, Some a, env)) (FileState_Ref (Some a) env)))
      | Some p \<Rightarrow>
          Option.bind (deref env p) (\<lambda>(a, f).
          let env = env\<lparr>me_heap := (me_heap env)[a := Some (FileState_Truncate f)]\<rparr> in
          map_option (\<lambda>env. (Status_OK, p, env)) (FileState_Ref p env)))"

text \<open>\<^verbatim>\<open>file_map_[fname]\<close> inserts a null pointer for a new name; the new file is not stored in it.\<close>

definition InMemoryEnv_NewAppendableFile ::
  "string \<Rightarrow> InMemoryEnv \<Rightarrow> (status \<times> nat option \<times> InMemoryEnv) option" where
  "InMemoryEnv_NewAppendableFile fname env =
     (let sptr = (case map_of (me_files env) fname of None \<Rightarrow> None | Some p \<Rightarrow> p);
          env = env\<lparr>me_files := smap_set fname sptr (me_files env)\<rparr>
      in case sptr of
           None \<Rightarrow>
             (let (a, env) = new_FileState env in
              Option.bind (FileState_Ref (Some a) env) (\<lambda>env.
              map_option (\<lambda>env. (Status_OK, Some a, env)) (FileState_Ref (Some a) env)))
         | Some a \<Rightarrow> map_option (\<lambda>env. (Status_OK, Some a, env)) (FileState_Ref (Some a) env))"

definition InMemoryEnv_FileExists :: "string \<Rightarrow> InMemoryEnv \<Rightarrow> bool" where
  "InMemoryEnv_FileExists fname env = (map_of (me_files env) fname \<noteq> None)"

definition is_child :: "string \<Rightarrow> string \<Rightarrow> bool" where
  "is_child dir filename =
     (length filename \<ge> length dir + 1 \<and> filename ! length dir = CHR ''/'' \<and>
      take (length dir) filename = dir)"

definition InMemoryEnv_GetChildren :: "string \<Rightarrow> InMemoryEnv \<Rightarrow> status \<times> string list" where
  "InMemoryEnv_GetChildren dir env =
     (Status_OK, map (drop (length dir + 1)) (filter (is_child dir) (map fst (me_files env))))"

definition InMemoryEnv_DeleteFileInternal :: "string \<Rightarrow> InMemoryEnv \<Rightarrow> InMemoryEnv option" where
  "InMemoryEnv_DeleteFileInternal fname env =
     (case map_of (me_files env) fname of
        None \<Rightarrow> Some env
      | Some p \<Rightarrow>
          map_option (\<lambda>env. env\<lparr>me_files := smap_erase fname (me_files env)\<rparr>) (FileState_Unref p env))"

definition InMemoryEnv_DeleteFile :: "string \<Rightarrow> InMemoryEnv \<Rightarrow> (status \<times> InMemoryEnv) option" where
  "InMemoryEnv_DeleteFile fname env =
     (if map_of (me_files env) fname = None then Some (Status_make kIOError fname ''File not found'', env)
      else map_option (Pair Status_OK) (InMemoryEnv_DeleteFileInternal fname env))"

definition InMemoryEnv_GetFileSize :: "string \<Rightarrow> InMemoryEnv \<Rightarrow> (status \<times> nat) option" where
  "InMemoryEnv_GetFileSize fname env =
     (case map_of (me_files env) fname of
        None \<Rightarrow> Some (Status_make kIOError fname ''File not found'', 0)
      | Some p \<Rightarrow> map_option (\<lambda>(_, f). (Status_OK, FileState_Size f)) (deref env p))"

definition InMemoryEnv_RenameFile :: "string \<Rightarrow> string \<Rightarrow> InMemoryEnv \<Rightarrow> (status \<times> InMemoryEnv) option" where
  "InMemoryEnv_RenameFile src target env =
     (if map_of (me_files env) src = None then Some (Status_make kIOError src ''File not found'', env)
      else
        map_option
          (\<lambda>env.
             let p = (case map_of (me_files env) src of None \<Rightarrow> None | Some p \<Rightarrow> p);
                 env = env\<lparr>me_files := smap_set target p (smap_set src p (me_files env))\<rparr>
             in (Status_OK, env\<lparr>me_files := smap_erase src (me_files env)\<rparr>))
          (InMemoryEnv_DeleteFileInternal target env))"

section \<open>Reference counts\<close>

text \<open>\<open>WritableFileImpl_Append\<close> through a handle, and the destructor of a handle.\<close>

definition InMemoryEnv_Append :: "nat \<Rightarrow> bytes \<Rightarrow> InMemoryEnv \<Rightarrow> (status \<times> InMemoryEnv) option" where
  "InMemoryEnv_Append a data env =
     map_option
       (\<lambda>(a, f). let (s, f) = WritableFileImpl_Append data f in (s, env\<lparr>me_heap := (me_heap env)[a := Some f]\<rparr>))
       (deref env (Some a))"

text \<open>
  The environments a program can reach, with the addresses of its open handles. A program that
  opens a missing file for appending is excluded.
\<close>

inductive memenv_reach :: "InMemoryEnv \<Rightarrow> nat list \<Rightarrow> bool" where
  init: "memenv_reach InMemoryEnv_make []"
| sequential: "memenv_reach env H \<Longrightarrow> InMemoryEnv_NewSequentialFile fname env = Some (s, p, env') \<Longrightarrow>
    memenv_reach env' (case p of None \<Rightarrow> H | Some a \<Rightarrow> a # H)"
| random: "memenv_reach env H \<Longrightarrow> InMemoryEnv_NewRandomAccessFile fname env = Some (s, p, env') \<Longrightarrow>
    memenv_reach env' (case p of None \<Rightarrow> H | Some a \<Rightarrow> a # H)"
| writable: "memenv_reach env H \<Longrightarrow> InMemoryEnv_NewWritableFile fname env = Some (s, p, env') \<Longrightarrow>
    memenv_reach env' (case p of None \<Rightarrow> H | Some a \<Rightarrow> a # H)"
| appendable: "memenv_reach env H \<Longrightarrow> InMemoryEnv_FileExists fname env \<Longrightarrow>
    InMemoryEnv_NewAppendableFile fname env = Some (s, p, env') \<Longrightarrow>
    memenv_reach env' (case p of None \<Rightarrow> H | Some a \<Rightarrow> a # H)"
| append: "memenv_reach env H \<Longrightarrow> a \<in> set H \<Longrightarrow> InMemoryEnv_Append a data env = Some (s, env') \<Longrightarrow>
    memenv_reach env' H"
| close: "memenv_reach env H \<Longrightarrow> a \<in> set H \<Longrightarrow> FileState_Unref (Some a) env = Some env' \<Longrightarrow>
    memenv_reach env' (remove1 a H)"
| delete: "memenv_reach env H \<Longrightarrow> InMemoryEnv_DeleteFile fname env = Some (s, env') \<Longrightarrow> memenv_reach env' H"
| rename: "memenv_reach env H \<Longrightarrow> InMemoryEnv_RenameFile src target env = Some (s, env') \<Longrightarrow> memenv_reach env' H"

definition live :: "InMemoryEnv \<Rightarrow> nat \<Rightarrow> FileState option" where
  "live env a = (if a < length (me_heap env) then me_heap env ! a else None)"

definition names :: "(string \<times> nat option) list \<Rightarrow> nat \<Rightarrow> nat" where
  "names es a = length (filter (\<lambda>e. snd e = Some a) es)"

text \<open>
  Every name stands for a live file, and the count of a file is the number of names and handles
  that refer to it.
\<close>

definition counted :: "FileState option \<Rightarrow> nat \<Rightarrow> bool" where
  "counted x n = (case x of None \<Rightarrow> n = 0 | Some f \<Rightarrow> fs_inv f \<and> n > 0 \<and> fs_refs f = n)"

definition env_inv :: "InMemoryEnv \<Rightarrow> nat list \<Rightarrow> bool" where
  "env_inv env H \<longleftrightarrow>
     smap_inv (me_files env) \<and> None \<notin> snd ` set (me_files env) \<and>
     (\<forall>a. counted (live env a) (names (me_files env) a + count_list H a))"

lemma env_invI:
  assumes "smap_inv (me_files env)" "None \<notin> snd ` set (me_files env)"
    and "\<And>a. counted (live env a) (names (me_files env) a + count_list H a)"
  shows "env_inv env H"
  using assms by (simp add: env_inv_def)

lemma deref_live: "deref env p = (case p of None \<Rightarrow> None | Some a \<Rightarrow> map_option (Pair a) (live env a))"
  by (simp add: deref_def live_def split: option.splits)

lemma names_simps [simp]:
  "names [] a = 0" "names (e # es) a = (if snd e = Some a then 1 else 0) + names es a"
  by (simp_all add: names_def)

lemma names_erase:
  "smap_inv es \<Longrightarrow> names es a = names (smap_erase k es) a + (if map_of es k = Some (Some a) then 1 else 0)"
  by (induction es) (auto dest: smap_inv_tl smap_erase_absent)

lemma names_set:
  "smap_inv es \<Longrightarrow> names (smap_set k v es) a = names (smap_erase k es) a + (if v = Some a then 1 else 0)"
  by (induction es) (auto dest: smap_inv_tl smap_erase_absent [where k = k])

lemma names_pos: "map_of es k = Some (Some a) \<Longrightarrow> names es a > 0"
  by (induction es) (auto simp add: names_def split: if_splits)

lemma snd_smap_set: "snd ` set (smap_set k v es) \<subseteq> insert v (snd ` set es)"
  by (induction es) auto

lemma snd_smap_erase: "snd ` set (smap_erase k es) \<subseteq> snd ` set es"
  by (auto simp add: smap_erase_def)

lemma live_update:
  "live (env\<lparr>me_heap := (me_heap env)[a := x]\<rparr>) b = (if a = b \<and> a < length (me_heap env) then x else live env b)"
  by (simp add: live_def nth_list_update)

lemma live_files [simp]: "live (env\<lparr>me_files := es\<rparr>) a = live env a"
  by (simp add: live_def)

lemma live_length: "live env a = Some f \<Longrightarrow> a < length (me_heap env)"
  by (simp add: live_def split: if_splits)

lemma env_invD:
  assumes "env_inv env H"
  shows "smap_inv (me_files env)" "None \<notin> snd ` set (me_files env)"
    and "counted (live env a) (names (me_files env) a + count_list H a)"
  using assms by (auto simp add: env_inv_def)

lemma env_inv_live:
  assumes "env_inv env H" "map_of (me_files env) k = Some (Some a) \<or> a \<in> set H"
  obtains f where "live env a = Some f"
proof -
  have "names (me_files env) a + count_list H a \<noteq> 0"
    using assms(2) names_pos [of "me_files env" k a] count_list_0_iff [of H a] by auto
  then show ?thesis
    using env_invD(3) [OF assms(1), of a] that by (auto simp add: counted_def split: option.splits)
qed

lemma env_inv_name:
  assumes "env_inv env H" "map_of (me_files env) k = Some p"
  obtains a f where "p = Some a" "live env a = Some f"
proof -
  obtain a where a: "p = Some a"
    using env_invD(2) [OF assms(1)] map_of_SomeD [OF assms(2)] by (cases p) force+
  then show ?thesis
    using env_inv_live [OF assms(1), of k a] assms(2) that by blast
qed

lemma fs_inv_refs [simp]: "fs_inv (f\<lparr>fs_refs := n\<rparr>) = fs_inv f"
  by (simp add: fs_inv_def)

lemma FileState_Ref_inv:
  assumes "env_inv env H" "FileState_Ref (Some a) env = Some env'"
  shows "env_inv env' (a # H)"
proof -
  obtain f where a: "live env a = Some f"
      "env' = env\<lparr>me_heap := (me_heap env)[a := Some (f\<lparr>fs_refs := fs_refs f + 1\<rparr>)]\<rparr>"
    using assms(2) by (auto simp add: FileState_Ref_def deref_live)
  show ?thesis
  proof (rule env_invI)
    fix b
    show "counted (live env' b) (names (me_files env') b + count_list (a # H) b)"
      using env_invD(3) [OF assms(1), of b] a live_length [OF a(1)]
      by (cases "a = b") (auto simp add: live_update counted_def)
  qed (use assms(1) a in \<open>simp_all add: env_inv_def\<close>)
qed

lemma FileState_Unref_inv:
  assumes "env_inv env (a # H)" "FileState_Unref (Some a) env = Some env'"
  shows "env_inv env' H"
proof -
  obtain f where a: "live env a = Some f"
      "env' = env\<lparr>me_heap := (me_heap env)[a :=
         (if fs_refs f - 1 = 0 then None else Some (f\<lparr>fs_refs := fs_refs f - 1\<rparr>))]\<rparr>"
    using assms(2) by (auto simp add: FileState_Unref_def deref_live)
  show ?thesis
  proof (rule env_invI)
    fix b
    show "counted (live env' b) (names (me_files env') b + count_list H b)"
      using env_invD(3) [OF assms(1), of b] a live_length [OF a(1)]
      by (cases "a = b") (auto simp add: live_update counted_def)
  qed (use assms(1) a in \<open>simp_all add: env_inv_def\<close>)
qed

text \<open>A name and a handle count alike: the operations trade one for the other.\<close>

lemma env_inv_unlink:
  assumes "env_inv env H" "map_of (me_files env) k = Some (Some a)"
  shows "env_inv (env\<lparr>me_files := smap_erase k (me_files env)\<rparr>) (a # H)"
proof (rule env_invI)
  fix b
  show "counted (live (env\<lparr>me_files := smap_erase k (me_files env)\<rparr>) b)
      (names (me_files (env\<lparr>me_files := smap_erase k (me_files env)\<rparr>)) b + count_list (a # H) b)"
    using env_invD(3) [OF assms(1), of b] names_erase [OF env_invD(1) [OF assms(1)], of b k] assms(2)
    by (auto split: if_splits)
qed (use assms snd_smap_erase [of k "me_files env"] in \<open>auto simp add: env_inv_def\<close>)

lemma env_inv_link:
  assumes "env_inv env (a # H)" "map_of (me_files env) k = None"
  shows "env_inv (env\<lparr>me_files := smap_set k (Some a) (me_files env)\<rparr>) H"
proof (rule env_invI)
  fix b
  show "counted (live (env\<lparr>me_files := smap_set k (Some a) (me_files env)\<rparr>) b)
      (names (me_files (env\<lparr>me_files := smap_set k (Some a) (me_files env)\<rparr>)) b + count_list H b)"
    using env_invD(3) [OF assms(1), of b] names_erase [OF env_invD(1) [OF assms(1)], of b k]
      names_set [OF env_invD(1) [OF assms(1)], of k "Some a" b] assms(2)
    by (auto split: if_splits)
qed (use assms snd_smap_set [of k "Some a" "me_files env"] in \<open>auto simp add: env_inv_def\<close>)

lemma env_inv_remove1:
  assumes "env_inv env H" "a \<in> set H"
  shows "env_inv env (a # remove1 a H)"
proof -
  have "count_list H b = count_list (a # remove1 a H) b" for b
    using assms(2) by (induction H) auto
  then show ?thesis
    using assms(1) by (metis env_inv_def)
qed

lemma new_FileState_inv:
  assumes "env_inv env H" "new_FileState env = (a, env1)" "FileState_Ref (Some a) env1 = Some env'"
  shows "env_inv env' (a # H) \<and> me_files env' = me_files env"
proof -
  have env': "env' = env\<lparr>me_heap := me_heap env @ [Some (FileState_make\<lparr>fs_refs := 1\<rparr>)]\<rparr>"
      and a: "a = length (me_heap env)"
    using assms(2,3) by (auto simp add: new_FileState_def FileState_Ref_def deref_def FileState_make_def)
  have "env_inv env' (a # H)"
  proof (rule env_invI)
    fix b
    have "b = a \<Longrightarrow> names (me_files env) b + count_list H b = 0"
      using env_invD(3) [OF assms(1), of b] a by (simp add: counted_def live_def)
    then show "counted (live env' b) (names (me_files env') b + count_list (a # H) b)"
      using env_invD(3) [OF assms(1), of b] a env'
      by (cases "a = b") (auto simp add: live_def nth_append counted_def)
  qed (use assms(1) env' in \<open>simp_all add: env_inv_def\<close>)
  with env' show ?thesis by simp
qed

lemma env_inv_write:
  assumes "env_inv env H" "live env a = Some f" "fs_inv f'" "fs_refs f' = fs_refs f"
  shows "env_inv (env\<lparr>me_heap := (me_heap env)[a := Some f']\<rparr>) H"
proof (rule env_invI)
  fix b
  show "counted (live (env\<lparr>me_heap := (me_heap env)[a := Some f']\<rparr>) b)
      (names (me_files (env\<lparr>me_heap := (me_heap env)[a := Some f']\<rparr>)) b + count_list H b)"
    using env_invD(3) [OF assms(1), of b] assms(2-4) live_length [OF assms(2)]
    by (cases "a = b") (auto simp add: live_update counted_def)
qed (use assms(1) in \<open>simp_all add: env_inv_def\<close>)

text \<open>Every reachable environment satisfies the invariant.\<close>

lemma open_inv:
  assumes "env_inv env H" "map_option (\<lambda>env. (Status_OK, p, env)) (FileState_Ref p env) = Some (s, q, env')"
  shows "env_inv env' (case q of None \<Rightarrow> H | Some a \<Rightarrow> a # H)"
proof -
  obtain a where "p = Some a"
    using assms(2) by (cases p) (simp_all add: FileState_Ref_def deref_live)
  then show ?thesis
    using assms FileState_Ref_inv by auto
qed

lemma NewWritableFile_inv:
  assumes "env_inv env H" "InMemoryEnv_NewWritableFile fname env = Some (s, q, env')"
  shows "env_inv env' (case q of None \<Rightarrow> H | Some a \<Rightarrow> a # H)"
proof (cases "map_of (me_files env) fname")
  case None
  obtain a env1 where new: "new_FileState env = (a, env1)"
    by (cases "new_FileState env")
  obtain env2 where env2: "FileState_Ref (Some a) env1 = Some env2"
    using assms(2) None new by (auto simp add: InMemoryEnv_NewWritableFile_def bind_eq_Some_conv)
  note i = new_FileState_inv [OF assms(1) new env2]
  have "env_inv (env2\<lparr>me_files := smap_set fname (Some a) (me_files env2)\<rparr>) H"
    using env_inv_link [of env2 a H fname] i None by simp
  then show ?thesis
    by (rule open_inv [of _ _ "Some a" s]) (use assms(2) None new env2 in \<open>auto simp add: InMemoryEnv_NewWritableFile_def Let_def\<close>)
next
  case (Some p)
  obtain a f where a: "p = Some a" "live env a = Some f"
    using env_inv_name [OF assms(1) Some] by blast
  have "env_inv (env\<lparr>me_heap := (me_heap env)[a := Some (FileState_Truncate f)]\<rparr>) H"
    using assms(1) a(2) by (rule env_inv_write) (simp_all add: fs_inv_Truncate, simp add: FileState_Truncate_def)
  then show ?thesis
    by (rule open_inv [of _ _ p s]) (use assms(2) Some a in \<open>auto simp add: InMemoryEnv_NewWritableFile_def Let_def deref_live\<close>)
qed

lemma DeleteFileInternal_inv:
  assumes "env_inv env H" "InMemoryEnv_DeleteFileInternal fname env = Some env'"
  shows "env_inv env' H \<and> map_of (me_files env') = (map_of (me_files env))(fname := None)"
proof (cases "map_of (me_files env) fname")
  case None
  then show ?thesis
    using assms by (auto simp add: InMemoryEnv_DeleteFileInternal_def)
next
  case (Some p)
  obtain a f where a: "p = Some a" "live env a = Some f"
    using env_inv_name [OF assms(1) Some] by blast
  let ?env = "env\<lparr>me_files := smap_erase fname (me_files env)\<rparr>"
  have "FileState_Unref (Some a) ?env = Some env'"
    using assms(2) Some a by (auto simp add: InMemoryEnv_DeleteFileInternal_def FileState_Unref_def deref_live)
  then have "env_inv env' H"
    using FileState_Unref_inv env_inv_unlink [OF assms(1)] Some a(1) by blast
  then show ?thesis
    using assms(2) Some by (auto simp add: InMemoryEnv_DeleteFileInternal_def FileState_Unref_def)
qed

lemma RenameFile_inv:
  assumes "env_inv env H" "InMemoryEnv_RenameFile src target env = Some (s, env')"
  shows "env_inv env' H"
proof (cases "map_of (me_files env) src")
  case None
  then show ?thesis
    using assms by (simp add: InMemoryEnv_RenameFile_def)
next
  case (Some p)
  obtain a where a: "p = Some a"
    using env_inv_name [OF assms(1) Some] by blast
  obtain env1 where env1: "InMemoryEnv_DeleteFileInternal target env = Some env1"
    using assms(2) Some by (auto simp add: InMemoryEnv_RenameFile_def)
  then have i: "env_inv env1 H" "map_of (me_files env1) = (map_of (me_files env))(target := None)"
    using DeleteFileInternal_inv assms(1) by blast+
  let ?es = "me_files env1"
  show ?thesis
  proof (cases "src = target")
    case True
    then have "env' = env1"
      using assms(2) Some env1 i(2)
      by (simp add: InMemoryEnv_RenameFile_def Let_def smap_erase_set smap_erase_id)
    then show ?thesis using i(1) by simp
  next
    case False
    let ?env2 = "env1\<lparr>me_files := smap_erase src ?es\<rparr>"
    have env': "env' = ?env2\<lparr>me_files := smap_set target (Some a) (me_files ?env2)\<rparr>"
      using assms(2) Some env1 i(2) False a env_invD(1) [OF i(1)]
      by (simp add: InMemoryEnv_RenameFile_def Let_def smap_erase_set_commute smap_set_id)
    have "env_inv ?env2 (a # H)"
      using env_inv_unlink [OF i(1)] Some False i(2) a by simp
    then show ?thesis
      unfolding env' by (rule env_inv_link) (use i(2) in simp)
  qed
qed

lemma fs_refs_Append [simp]: "fs_refs (FileState_Append_loop src f) = fs_refs f"
  by (induction src f rule: FileState_Append_loop.induct)
    (subst FileState_Append_loop.simps, auto simp add: FileState_Append_step_def Let_def split: prod.splits)

lemma memenv_reach_inv: "memenv_reach env H \<Longrightarrow> env_inv env H"
proof (induction rule: memenv_reach.induct)
  case init
  show ?case
    by (rule env_invI) (simp_all add: InMemoryEnv_make_def counted_def live_def)
next
  case (sequential env H fname s p env')
  then show ?case
    using open_inv [OF sequential.IH, of p s p env']
    by (auto simp add: InMemoryEnv_NewSequentialFile_def split: option.splits)
next
  case (random env H fname s p env')
  then show ?case
    using open_inv [OF random.IH, of p s p env']
    by (auto simp add: InMemoryEnv_NewRandomAccessFile_def split: option.splits)
next
  case (writable env H fname s p env')
  then show ?case using NewWritableFile_inv by blast
next
  case (appendable env H fname s p env')
  then obtain q where q: "map_of (me_files env) fname = Some q"
    by (auto simp add: InMemoryEnv_FileExists_def)
  then obtain a where "q = Some a"
    using env_inv_name [OF appendable.IH] by blast
  then show ?case
    using appendable q smap_set_id [OF env_invD(1), OF appendable.IH q]
    by (intro open_inv [of env H q s p]) (auto simp add: InMemoryEnv_NewAppendableFile_def Let_def)
next
  case (append env H a data s env')
  obtain f where f: "live env a = Some f"
    using env_inv_live [OF append.IH] append(2) by blast
  then have "fs_inv f"
    using env_invD(3) [OF append.IH, of a] by (simp add: counted_def)
  then show ?case
    using append f FileState_Append_contents [of f data]
    by (auto simp add: InMemoryEnv_Append_def deref_live WritableFileImpl_Append_def FileState_Append_def
        intro!: env_inv_write)
next
  case (close env H a env')
  then show ?case
    using FileState_Unref_inv env_inv_remove1 by blast
next
  case (delete env H fname s env')
  then show ?case
    using DeleteFileInternal_inv by (auto simp add: InMemoryEnv_DeleteFile_def split: if_splits)
next
  case (rename env H src target s env')
  then show ?case using RenameFile_inv by blast
qed



lemma NewWritableFile_empty:
  assumes "env_inv env H" "InMemoryEnv_NewWritableFile fname env = Some (s, Some a, env1)"
  shows "\<exists>f. live env1 a = Some f \<and> fs_inv f \<and> fs_contents f = [] \<and> map_of (me_files env1) fname = Some (Some a)"
proof (cases "map_of (me_files env) fname")
  case None
  then show ?thesis
    using assms(2)
    by (auto simp add: InMemoryEnv_NewWritableFile_def new_FileState_def FileState_Ref_def deref_def live_def Let_def
        fs_contents_def) (simp add: FileState_make_def)
next
  case (Some p)
  obtain b f where "p = Some b" "live env b = Some f"
    using env_inv_name [OF assms(1) Some] by blast
  then show ?thesis
    using assms(2) Some live_length [of env b f]
    by (auto simp add: InMemoryEnv_NewWritableFile_def FileState_Ref_def deref_live live_update Let_def
        fs_contents_def fs_inv_Truncate) (simp add: FileState_Truncate_def)
qed

text \<open>C27. What is appended to a file is read back: a file opened for writing, appended to through its
  handle and then opened by its name returns the appended bytes from its start.
\<close>

theorem memenv_write_read:
  assumes "memenv_reach env H" "InMemoryEnv_NewWritableFile fname env = Some (s, Some a, env1)"
    and "InMemoryEnv_Append a data env1 = Some (s', env2)"
  shows "\<exists>f. map_of (me_files env2) fname = Some (Some a) \<and> deref env2 (Some a) = Some (a, f) \<and>
    InMemoryEnv_GetFileSize fname env2 = Some (Status_OK, length data) \<and>
    fst (SequentialFileImpl_Read n (f, 0)) = Status_OK \<and>
    fst (snd (SequentialFileImpl_Read n (f, 0))) = take n data"
proof -
  obtain f1 where f1: "live env1 a = Some f1" "fs_inv f1" "fs_contents f1 = []"
      "map_of (me_files env1) fname = Some (Some a)"
    using NewWritableFile_empty [OF memenv_reach_inv [OF assms(1)] assms(2)] by blast
  define f where "f = FileState_Append_loop data f1"
  have f: "fs_inv f" "fs_contents f = data"
    using FileState_Append_contents [OF f1(2), of data] f1(3) by (simp_all add: f_def)
  then have size: "fs_size f = length data"
    using length_fs_contents by metis
  have env2: "env2 = env1\<lparr>me_heap := (me_heap env1)[a := Some f]\<rparr>"
    using assms(3) f1(1)
    by (simp add: InMemoryEnv_Append_def deref_live WritableFileImpl_Append_def FileState_Append_def f_def)
  then have "live env2 a = Some f" "map_of (me_files env2) fname = Some (Some a)"
    using f1(1,4) live_length [OF f1(1)] by (simp_all add: live_update)
  then show ?thesis
    using FileState_Read_contents [OF f(1), of 0 n] f size
    by (simp add: deref_live InMemoryEnv_GetFileSize_def FileState_Size_def SequentialFileImpl_Read_def)
qed

theorem memenv_write_read_witness:
  "\<exists>env1 env2 f. InMemoryEnv_NewWritableFile ''/f'' InMemoryEnv_make = Some (Status_OK, Some 0, env1) \<and>
     InMemoryEnv_Append 0 [1, 2, 3] env1 = Some (Status_OK, env2) \<and>
     deref env2 (Some 0) = Some (0, f) \<and> fst (snd (SequentialFileImpl_Read 2 (f, 0))) = [1, 2]"
proof -
  obtain env1 where env1: "InMemoryEnv_NewWritableFile ''/f'' InMemoryEnv_make = Some (Status_OK, Some 0, env1)"
      "live env1 0 = Some (FileState_make\<lparr>fs_refs := 2\<rparr>)"
    by (auto simp add: InMemoryEnv_NewWritableFile_def InMemoryEnv_make_def new_FileState_def FileState_Ref_def
        deref_def FileState_make_def live_def Let_def)
  then obtain env2 where env2: "InMemoryEnv_Append 0 [1, 2, 3] env1 = Some (Status_OK, env2)"
    by (simp add: InMemoryEnv_Append_def deref_live WritableFileImpl_Append_def FileState_Append_def)
  show ?thesis
    using memenv_write_read [OF memenv_reach.init env1(1) env2, of 2] env1(1) env2 by auto
qed

text \<open>C28. Opening a missing file for appending leaves its name without a file: the name exists, and
  opening it for reading, truncating it or deleting it dereferences a null pointer.
\<close>

theorem appendable_file_lost:
  assumes "\<not> InMemoryEnv_FileExists fname env"
  shows "\<exists>a env'. InMemoryEnv_NewAppendableFile fname env = Some (Status_OK, Some a, env') \<and>
    InMemoryEnv_FileExists fname env' \<and> InMemoryEnv_NewSequentialFile fname env' = None \<and>
    InMemoryEnv_NewWritableFile fname env' = None \<and> InMemoryEnv_DeleteFile fname env' = None \<and>
    InMemoryEnv_GetFileSize fname env' = None"
  using assms
  by (simp add: InMemoryEnv_FileExists_def InMemoryEnv_NewAppendableFile_def InMemoryEnv_NewSequentialFile_def
      InMemoryEnv_NewWritableFile_def InMemoryEnv_DeleteFile_def InMemoryEnv_DeleteFileInternal_def
      InMemoryEnv_GetFileSize_def new_FileState_def FileState_Ref_def FileState_Unref_def deref_def Let_def)

theorem appendable_file_lost_witness:
  "\<exists>a env'. InMemoryEnv_NewAppendableFile ''/f'' InMemoryEnv_make = Some (Status_OK, Some a, env') \<and>
     InMemoryEnv_FileExists ''/f'' env' \<and> InMemoryEnv_NewSequentialFile ''/f'' env' = None"
  using appendable_file_lost [of "''/f''" InMemoryEnv_make]
  by (auto simp add: InMemoryEnv_FileExists_def InMemoryEnv_make_def)

lemma rename_onto_itself_deletes:
  assumes "InMemoryEnv_RenameFile fname fname env = Some (Status_OK, env')"
  shows "\<not> InMemoryEnv_FileExists fname env'"
  using assms by (auto simp add: InMemoryEnv_RenameFile_def InMemoryEnv_FileExists_def Let_def split: if_splits)

end
