(* ===== verification/Log_Format.thy ===== *)
theory Log_Format
  imports Crc32c Mem_Env
begin

text \<open>
  The log: \<^verbatim>\<open>db/log_format.h\<close>, \<^verbatim>\<open>db/log_writer.cc\<close> and \<^verbatim>\<open>db/log_reader.cc\<close>. A record is cut into
  fragments that do not cross blocks of 32768 bytes; each fragment has a header of seven bytes
  with a checksum, its length and its type. The file and the checksum routine are arguments of
  the model: \<open>fappend\<close>, \<open>flush\<close>, \<open>read\<close> and \<open>skip\<close> are the operations of the file interfaces of
  \<^verbatim>\<open>Mem_Env\<close>, and \<open>ext\<close> is \<^verbatim>\<open>crc32c::Extend\<close>. The theorems are proved from the laws of these
  interfaces and instantiated with the in-memory files and the portable checksum.
\<close>

section \<open>Format\<close>

type_synonym RecordType = u32

definition kZeroType :: RecordType where
  "kZeroType = 0"

definition kFullType :: RecordType where
  "kFullType = 1"

definition kFirstType :: RecordType where
  "kFirstType = 2"

definition kMiddleType :: RecordType where
  "kMiddleType = 3"

definition kLastType :: RecordType where
  "kLastType = 4"

definition kMaxRecordType :: RecordType where
  "kMaxRecordType = kLastType"

definition log_kBlockSize :: nat where
  "log_kBlockSize = 32768"

definition kHeaderSize :: nat where
  "kHeaderSize = 4 + 2 + 1"

section \<open>Writer\<close>

record 'f Writer =
  w_dest :: 'f
  w_block_offset :: nat
  w_type_crc :: "u32 list"

definition InitTypeCrc :: "(u32 \<Rightarrow> bytes \<Rightarrow> u32) \<Rightarrow> u32 list" where
  "InitTypeCrc ext = map (\<lambda>i. ext 0 [word_of_nat i]) [0..<unat kMaxRecordType + 1]"

definition Writer_make :: "(u32 \<Rightarrow> bytes \<Rightarrow> u32) \<Rightarrow> 'f \<Rightarrow> 'f Writer" where
  "Writer_make ext dest = \<lparr>w_dest = dest, w_block_offset = 0, w_type_crc = InitTypeCrc ext\<rparr>"

definition Writer_make_at :: "(u32 \<Rightarrow> bytes \<Rightarrow> u32) \<Rightarrow> 'f \<Rightarrow> u64 \<Rightarrow> 'f Writer" where
  "Writer_make_at ext dest dest_length =
     \<lparr>w_dest = dest, w_block_offset = unat dest_length mod log_kBlockSize, w_type_crc = InitTypeCrc ext\<rparr>"

definition EmitPhysicalRecord_header :: "u32 \<Rightarrow> RecordType \<Rightarrow> nat \<Rightarrow> bytes" where
  "EmitPhysicalRecord_header crc t len =
     Fixed32 crc @ [word_of_nat (len AND 0xff), word_of_nat (drop_bit 8 len), ucast t]"

definition EmitPhysicalRecord ::
  "(bytes \<Rightarrow> 'f \<Rightarrow> status \<times> 'f) \<Rightarrow> ('f \<Rightarrow> status \<times> 'f) \<Rightarrow> (u32 \<Rightarrow> bytes \<Rightarrow> u32) \<Rightarrow>
   RecordType \<Rightarrow> bytes \<Rightarrow> 'f Writer \<Rightarrow> status \<times> 'f Writer" where
  "EmitPhysicalRecord fappend flush ext t data w =
     (let crc = ext (w_type_crc w ! unat t) data;
          crc = Mask crc;
          buf = EmitPhysicalRecord_header crc t (length data);
          (s, dest) = fappend buf (w_dest w);
          (s, dest) =
            (if Status_ok s then
               let (s, dest) = fappend data dest
               in if Status_ok s then flush dest else (s, dest)
             else (s, dest))
      in (s, w\<lparr>w_dest := dest, w_block_offset := w_block_offset w + (kHeaderSize + length data)\<rparr>))"

text \<open>The switch to a new block; the result of appending the trailer is ignored.\<close>

definition AddRecord_switch :: "(bytes \<Rightarrow> 'f \<Rightarrow> status \<times> 'f) \<Rightarrow> 'f Writer \<Rightarrow> 'f Writer" where
  "AddRecord_switch fappend w =
     (let leftover = log_kBlockSize - w_block_offset w in
      if leftover < kHeaderSize then
        let w = (if leftover > 0 then w\<lparr>w_dest := snd (fappend (replicate leftover 0) (w_dest w))\<rparr> else w)
        in w\<lparr>w_block_offset := 0\<rparr>
      else w)"

definition fragment_type :: "bool \<Rightarrow> bool \<Rightarrow> RecordType" where
  "fragment_type begn endd =
     (if begn \<and> endd then kFullType else if begn then kFirstType
      else if endd then kLastType else kMiddleType)"

lemma EmitPhysicalRecord_offset [simp]:
  "w_block_offset (snd (EmitPhysicalRecord fappend flush ext t data w)) =
     w_block_offset w + (kHeaderSize + length data)"
  by (simp add: EmitPhysicalRecord_def Let_def split: prod.splits)

lemma AddRecord_switch_offset [simp]:
  "w_block_offset (AddRecord_switch fappend w) =
     (if log_kBlockSize - w_block_offset w < kHeaderSize then 0 else w_block_offset w)"
  by (simp add: AddRecord_switch_def Let_def)

function AddRecord_loop ::
  "(bytes \<Rightarrow> 'f \<Rightarrow> status \<times> 'f) \<Rightarrow> ('f \<Rightarrow> status \<times> 'f) \<Rightarrow> (u32 \<Rightarrow> bytes \<Rightarrow> u32) \<Rightarrow>
   bool \<Rightarrow> bytes \<Rightarrow> 'f Writer \<Rightarrow> status \<times> 'f Writer" where
  "AddRecord_loop fappend flush ext begn ptr w =
     (let w1 = AddRecord_switch fappend w;
          left = length ptr;
          avail = log_kBlockSize - w_block_offset w1 - kHeaderSize;
          fragment_length = (if left < avail then left else avail);
          endd = (left = fragment_length);
          type = fragment_type begn endd;
          r = EmitPhysicalRecord fappend flush ext type (take fragment_length ptr) w1
      in if Status_ok (fst r) \<and> left - fragment_length > 0
         then AddRecord_loop fappend flush ext False (drop fragment_length ptr) (snd r)
         else r)"
  by pat_completeness auto
termination
  by (relation "measure (\<lambda>(_, _, _, _, ptr, w).
        2 * length ptr + (if w_block_offset w + kHeaderSize = log_kBlockSize then 1 else 0))")
    (auto simp add: log_kBlockSize_def kHeaderSize_def split: if_splits)

declare AddRecord_loop.simps [simp del]

definition AddRecord ::
  "(bytes \<Rightarrow> 'f \<Rightarrow> status \<times> 'f) \<Rightarrow> ('f \<Rightarrow> status \<times> 'f) \<Rightarrow> (u32 \<Rightarrow> bytes \<Rightarrow> u32) \<Rightarrow>
   bytes \<Rightarrow> 'f Writer \<Rightarrow> status \<times> 'f Writer" where
  "AddRecord fappend flush ext data w = AddRecord_loop fappend flush ext True data w"

section \<open>Reader\<close>

text \<open>
  \<open>rd_reporter\<close> is \<^const>\<open>None\<close> for a null reporter, otherwise the calls of its \<^verbatim>\<open>Corruption\<close>
  method so far.
\<close>

definition kEof :: u32 where
  "kEof = kMaxRecordType + 1"

definition kBadRecord :: u32 where
  "kBadRecord = kMaxRecordType + 2"

record 'g Reader =
  rd_file :: 'g
  rd_reporter :: "(u64 \<times> status) list option"
  rd_checksum :: bool
  rd_buffer :: bytes
  rd_eof :: bool
  rd_last_record_offset :: u64
  rd_end_of_buffer_offset :: u64
  rd_initial_offset :: u64
  rd_resyncing :: bool

definition Reader_make :: "'g \<Rightarrow> (u64 \<times> status) list option \<Rightarrow> bool \<Rightarrow> u64 \<Rightarrow> 'g Reader" where
  "Reader_make file reporter checksum initial_offset =
     \<lparr>rd_file = file, rd_reporter = reporter, rd_checksum = checksum, rd_buffer = [], rd_eof = False,
      rd_last_record_offset = 0, rd_end_of_buffer_offset = 0, rd_initial_offset = initial_offset,
      rd_resyncing = (initial_offset > 0)\<rparr>"

definition ReportDrop :: "u64 \<Rightarrow> status \<Rightarrow> 'g Reader \<Rightarrow> 'g Reader" where
  "ReportDrop n reason rd =
     (if rd_reporter rd \<noteq> None \<and>
         rd_end_of_buffer_offset rd - word_of_nat (length (rd_buffer rd)) - n \<ge> rd_initial_offset rd
      then rd\<lparr>rd_reporter := map_option (\<lambda>rs. rs @ [(n, reason)]) (rd_reporter rd)\<rparr>
      else rd)"

definition ReportCorruption :: "u64 \<Rightarrow> string \<Rightarrow> 'g Reader \<Rightarrow> 'g Reader" where
  "ReportCorruption n reason rd = ReportDrop n (Corruption reason) rd"

definition SkipToInitialBlock :: "(nat \<Rightarrow> 'g \<Rightarrow> status \<times> 'g) \<Rightarrow> 'g Reader \<Rightarrow> bool \<times> 'g Reader" where
  "SkipToInitialBlock skip rd =
     (let offset_in_block = rd_initial_offset rd mod word_of_nat log_kBlockSize;
          block_start_location = rd_initial_offset rd - offset_in_block;
          block_start_location =
            (if offset_in_block > word_of_nat (log_kBlockSize - 6)
             then block_start_location + word_of_nat log_kBlockSize else block_start_location);
          rd = rd\<lparr>rd_end_of_buffer_offset := block_start_location\<rparr>
      in if block_start_location > 0 then
           let (skip_status, file) = skip (unat block_start_location) (rd_file rd);
               rd = rd\<lparr>rd_file := file\<rparr>
           in if \<not> Status_ok skip_status then (False, ReportDrop block_start_location skip_status rd)
              else (True, rd)
         else (True, rd))"

text \<open>
  The part of \<^verbatim>\<open>ReadPhysicalRecord\<close> after the buffer is filled. The fragment is returned unchanged
  where the code does not assign it. \<^verbatim>\<open>header[6]\<close> is a \<^verbatim>\<open>char\<close>, converted to \<^verbatim>\<open>unsigned int\<close>.
\<close>

definition ReadPhysicalRecord_parse ::
  "(u32 \<Rightarrow> bytes \<Rightarrow> u32) \<Rightarrow> bytes \<Rightarrow> 'g Reader \<Rightarrow> u32 \<times> bytes \<times> 'g Reader" where
  "ReadPhysicalRecord_parse ext fragment rd =
     (let header = rd_buffer rd;
          a = (scast (header ! 4) :: u32) AND 0xff;
          b = (scast (header ! 5) :: u32) AND 0xff;
          type = (scast (header ! 6) :: u32);
          len = unat (a OR push_bit 8 b);
          drop_size = word_of_nat (length header)
      in if kHeaderSize + len > length header then
           let rd = rd\<lparr>rd_buffer := []\<rparr>
           in if \<not> rd_eof rd then (kBadRecord, fragment, ReportCorruption drop_size ''bad record length'' rd)
              else (kEof, fragment, rd)
         else if type = kZeroType \<and> len = 0 then (kBadRecord, fragment, rd\<lparr>rd_buffer := []\<rparr>)
         else if rd_checksum rd \<and> ext 0 (take (1 + len) (drop 6 header)) \<noteq> Unmask (GetFixed32 header) then
           (kBadRecord, fragment, ReportCorruption drop_size ''checksum mismatch'' (rd\<lparr>rd_buffer := []\<rparr>))
         else
           let rd = rd\<lparr>rd_buffer := drop (kHeaderSize + len) header\<rparr>
           in if rd_end_of_buffer_offset rd - word_of_nat (length (rd_buffer rd)) - word_of_nat kHeaderSize
                 - word_of_nat len < rd_initial_offset rd
              then (kBadRecord, [], rd)
              else (type, take len (drop kHeaderSize header), rd))"

function ReadPhysicalRecord ::
  "(nat \<Rightarrow> 'g \<Rightarrow> status \<times> bytes \<times> 'g) \<Rightarrow> (u32 \<Rightarrow> bytes \<Rightarrow> u32) \<Rightarrow>
   bytes \<Rightarrow> 'g Reader \<Rightarrow> u32 \<times> bytes \<times> 'g Reader" where
  "ReadPhysicalRecord read ext fragment rd =
     (if length (rd_buffer rd) < kHeaderSize then
        if \<not> rd_eof rd then
          let (status, buffer, file) = read log_kBlockSize (rd_file rd);
              rd = rd\<lparr>rd_file := file, rd_buffer := buffer,
                      rd_end_of_buffer_offset := rd_end_of_buffer_offset rd + word_of_nat (length buffer)\<rparr>
          in if \<not> Status_ok status then
               let rd = ReportDrop (word_of_nat log_kBlockSize) status (rd\<lparr>rd_buffer := []\<rparr>)
               in (kEof, fragment, rd\<lparr>rd_eof := True\<rparr>)
             else if length buffer < log_kBlockSize then
               ReadPhysicalRecord read ext fragment (rd\<lparr>rd_eof := True\<rparr>)
             else ReadPhysicalRecord read ext fragment rd
        else (kEof, fragment, rd\<lparr>rd_buffer := []\<rparr>)
      else ReadPhysicalRecord_parse ext fragment rd)"
  by pat_completeness auto
termination
  by (relation "measure (\<lambda>(_, _, _, rd). if length (rd_buffer rd) < kHeaderSize \<and> \<not> rd_eof rd then 1 else 0)")
    (auto simp add: log_kBlockSize_def kHeaderSize_def)

declare ReadPhysicalRecord.simps [simp del]

text \<open>
  One turn of the loop of \<^verbatim>\<open>ReadRecord\<close>. Its state is the reader and the variables of the method;
  the turn ends the loop with what the method returns, or goes on.
\<close>

record ReadRecord_vars =
  rv_scratch :: bytes
  rv_fragment :: bytes
  rv_in_fragmented_record :: bool
  rv_prospective_record_offset :: u64

type_synonym 'g record_result = "bool \<times> bytes \<times> 'g Reader"

definition ReadRecord_switch ::
  "u32 \<Rightarrow> u64 \<Rightarrow> ReadRecord_vars \<Rightarrow> 'g Reader \<Rightarrow> 'g record_result + ReadRecord_vars \<times> 'g Reader" where
  "ReadRecord_switch record_type physical_record_offset v rd =
     (let in_frag = rv_in_fragmented_record v; scratch = rv_scratch v; fragment = rv_fragment v;
          size = (\<lambda>s :: bytes. word_of_nat (length s) :: u64)
      in if record_type = kFullType then
           let rd = (if in_frag \<and> scratch \<noteq> []
                     then ReportCorruption (size scratch) ''partial record without end(1)'' rd else rd)
           in Inl (True, fragment, rd\<lparr>rd_last_record_offset := physical_record_offset\<rparr>)
         else if record_type = kFirstType then
           let rd = (if in_frag \<and> scratch \<noteq> []
                     then ReportCorruption (size scratch) ''partial record without end(2)'' rd else rd)
           in Inr (v\<lparr>rv_prospective_record_offset := physical_record_offset, rv_scratch := fragment,
                     rv_in_fragmented_record := True\<rparr>, rd)
         else if record_type = kMiddleType then
           (if \<not> in_frag
            then Inr (v, ReportCorruption (size fragment) ''missing start of fragmented record(1)'' rd)
            else Inr (v\<lparr>rv_scratch := scratch @ fragment\<rparr>, rd))
         else if record_type = kLastType then
           (if \<not> in_frag
            then Inr (v, ReportCorruption (size fragment) ''missing start of fragmented record(2)'' rd)
            else Inl (True, scratch @ fragment, rd\<lparr>rd_last_record_offset := rv_prospective_record_offset v\<rparr>))
         else if record_type = kEof then Inl (False, [], rd)
         else if record_type = kBadRecord then
           (if in_frag
            then Inr (v\<lparr>rv_in_fragmented_record := False, rv_scratch := []\<rparr>,
                      ReportCorruption (size scratch) ''error in middle of record'' rd)
            else Inr (v, rd))
         else
           Inr (v\<lparr>rv_in_fragmented_record := False, rv_scratch := []\<rparr>,
                ReportCorruption (size fragment + (if in_frag then size scratch else 0))
                  (''unknown record type '' @ decimal (unat record_type)) rd))"

definition ReadRecord_step ::
  "(nat \<Rightarrow> 'g \<Rightarrow> status \<times> bytes \<times> 'g) \<Rightarrow> (u32 \<Rightarrow> bytes \<Rightarrow> u32) \<Rightarrow>
   ReadRecord_vars \<Rightarrow> 'g Reader \<Rightarrow> 'g record_result + ReadRecord_vars \<times> 'g Reader" where
  "ReadRecord_step read ext v rd =
     (let (record_type, fragment, rd) = ReadPhysicalRecord read ext (rv_fragment v) rd;
          v = v\<lparr>rv_fragment := fragment\<rparr>;
          physical_record_offset =
            rd_end_of_buffer_offset rd - word_of_nat (length (rd_buffer rd)) - word_of_nat kHeaderSize
              - word_of_nat (length fragment)
      in if rd_resyncing rd then
           if record_type = kMiddleType then Inr (v, rd)
           else if record_type = kLastType then Inr (v, rd\<lparr>rd_resyncing := False\<rparr>)
           else ReadRecord_switch record_type physical_record_offset v (rd\<lparr>rd_resyncing := False\<rparr>)
         else ReadRecord_switch record_type physical_record_offset v rd)"

partial_function (option) ReadRecord_loop ::
  "(nat \<Rightarrow> 'g \<Rightarrow> status \<times> bytes \<times> 'g) \<Rightarrow> (u32 \<Rightarrow> bytes \<Rightarrow> u32) \<Rightarrow>
   ReadRecord_vars \<Rightarrow> 'g Reader \<Rightarrow> 'g record_result option" where
  "ReadRecord_loop read ext v rd =
     (case ReadRecord_step read ext v rd of
        Inl result \<Rightarrow> Some result
      | Inr (v, rd) \<Rightarrow> ReadRecord_loop read ext v rd)"

definition ReadRecord ::
  "(nat \<Rightarrow> 'g \<Rightarrow> status \<times> bytes \<times> 'g) \<Rightarrow> (nat \<Rightarrow> 'g \<Rightarrow> status \<times> 'g) \<Rightarrow> (u32 \<Rightarrow> bytes \<Rightarrow> u32) \<Rightarrow>
   'g Reader \<Rightarrow> 'g record_result option" where
  "ReadRecord read skip ext rd =
     (let (ok, rd) =
        (if rd_last_record_offset rd < rd_initial_offset rd then SkipToInitialBlock skip rd else (True, rd))
      in if \<not> ok then Some (False, [], rd)
         else ReadRecord_loop read ext
                \<lparr>rv_scratch = [], rv_fragment = [], rv_in_fragmented_record = False,
                 rv_prospective_record_offset = 0\<rparr> rd)"

definition LastRecordOffset :: "'g Reader \<Rightarrow> u64" where
  "LastRecordOffset rd = rd_last_record_offset rd"

section \<open>The bytes of a log\<close>

text \<open>
  \<open>log_record\<close> gives the bytes that a record adds to a log whose last block holds \<open>o\<close> bytes, and
  how many bytes the last block holds then. An offset of 0 and of a whole block mean the same.
\<close>

definition block_at :: "nat \<Rightarrow> nat" where
  "block_at ofs = (if log_kBlockSize - ofs < kHeaderSize then 0 else ofs)"

definition trailer :: "nat \<Rightarrow> bytes" where
  "trailer ofs = (if log_kBlockSize - ofs < kHeaderSize then replicate (log_kBlockSize - ofs) 0 else [])"

definition physical :: "(u32 \<Rightarrow> bytes \<Rightarrow> u32) \<Rightarrow> RecordType \<Rightarrow> bytes \<Rightarrow> bytes" where
  "physical ext t data =
     EmitPhysicalRecord_header (Mask (ext 0 (ucast t # data))) t (length data) @ data"

definition fragment_len :: "bytes \<Rightarrow> nat \<Rightarrow> nat" where
  "fragment_len data ofs = min (length data) (log_kBlockSize - block_at ofs - kHeaderSize)"

definition log_fragment :: "(u32 \<Rightarrow> bytes \<Rightarrow> u32) \<Rightarrow> bool \<Rightarrow> bytes \<Rightarrow> nat \<Rightarrow> bytes" where
  "log_fragment ext begn data ofs =
     (let n = fragment_len data ofs
      in trailer ofs @ physical ext (fragment_type begn (n = length data)) (take n data))"

function log_record :: "(u32 \<Rightarrow> bytes \<Rightarrow> u32) \<Rightarrow> bool \<Rightarrow> bytes \<Rightarrow> nat \<Rightarrow> bytes \<times> nat" where
  "log_record ext begn data ofs =
     (let n = fragment_len data ofs; piece = log_fragment ext begn data ofs; ofs' = block_at ofs + kHeaderSize + n
      in if n < length data then
           let r = log_record ext False (drop n data) ofs' in (piece @ fst r, snd r)
         else (piece, ofs'))"
  by pat_completeness auto
termination
  by (relation "measure (\<lambda>(_, _, data, ofs). 2 * length data + (if ofs + kHeaderSize = log_kBlockSize then 1 else 0))")
    (auto simp add: fragment_len_def log_kBlockSize_def kHeaderSize_def block_at_def)

declare log_record.simps [simp del]

primrec log_records :: "(u32 \<Rightarrow> bytes \<Rightarrow> u32) \<Rightarrow> bytes list \<Rightarrow> nat \<Rightarrow> bytes \<times> nat" where
  "log_records ext [] ofs = ([], ofs)"
| "log_records ext (d # ds) ofs =
     (let r = log_record ext True d ofs; rs = log_records ext ds (snd r) in (fst r @ fst rs, snd rs))"

lemma length_header [simp]: "length (EmitPhysicalRecord_header crc t n) = kHeaderSize"
  by (simp add: EmitPhysicalRecord_header_def kHeaderSize_def)

lemma length_physical [simp]: "length (physical ext t data) = kHeaderSize + length data"
  by (simp add: physical_def)

lemma block_at_le: "block_at ofs + kHeaderSize \<le> log_kBlockSize"
  by (auto simp add: block_at_def log_kBlockSize_def kHeaderSize_def)

lemma fragment_len_le:
  shows "fragment_len data ofs \<le> length data"
    and "block_at ofs + kHeaderSize + fragment_len data ofs \<le> log_kBlockSize"
  using block_at_le [of ofs] by (simp_all add: fragment_len_def)

lemma log_record_last:
  "\<not> fragment_len data ofs < length data \<Longrightarrow>
   log_record ext begn data ofs = (log_fragment ext begn data ofs, block_at ofs + kHeaderSize + fragment_len data ofs)"
  by (simp add: log_record.simps [of ext begn data ofs] Let_def)

lemma log_record_more:
  "fragment_len data ofs < length data \<Longrightarrow>
   log_record ext begn data ofs =
     (let r = log_record ext False (drop (fragment_len data ofs) data) (block_at ofs + kHeaderSize + fragment_len data ofs)
      in (log_fragment ext begn data ofs @ fst r, snd r))"
  by (simp add: log_record.simps [of ext begn data ofs] Let_def)

lemma log_record_cases [case_names last more]:
  assumes "\<And>begn data ofs. \<not> fragment_len data ofs < length data \<Longrightarrow> P begn data ofs"
    and "\<And>begn data ofs. fragment_len data ofs < length data \<Longrightarrow>
      P False (drop (fragment_len data ofs) data) (block_at ofs + kHeaderSize + fragment_len data ofs) \<Longrightarrow> P begn data ofs"
  shows "P begn data ofs"
proof (induction "\<lambda>(_ :: u32) (_ :: bytes). 0 :: u32" begn data ofs rule: log_record.induct)
  case (1 begn data ofs)
  then show ?case
    using assms by (cases "fragment_len data ofs < length data") auto
qed

text \<open>An empty last block may also be seen as the end of a full one.\<close>

lemma log_record_block: "log_record ext begn data log_kBlockSize = log_record ext begn data 0"
  by (simp add: log_record.simps [of ext begn data] log_fragment_def fragment_len_def block_at_def trailer_def kHeaderSize_def
      log_kBlockSize_def)

text \<open>The length of the log and the offset agree.\<close>

lemma log_fragment_mod:
  assumes "ofs \<le> log_kBlockSize" "ofs mod log_kBlockSize = len mod log_kBlockSize"
  shows "(block_at ofs + kHeaderSize + fragment_len data ofs) mod log_kBlockSize =
    (len + length (log_fragment ext begn data ofs)) mod log_kBlockSize"
proof -
  let ?n = "fragment_len data ofs"
  have "(ofs + length (trailer ofs)) mod log_kBlockSize = block_at ofs mod log_kBlockSize"
    using assms(1) by (simp add: trailer_def block_at_def)
  then have "(block_at ofs + (kHeaderSize + ?n)) mod log_kBlockSize = (ofs + length (trailer ofs) + (kHeaderSize + ?n)) mod log_kBlockSize"
    by (metis mod_add_left_eq)
  also have "\<dots> = (len + (length (trailer ofs) + (kHeaderSize + ?n))) mod log_kBlockSize"
    using assms(2) by (metis add.assoc mod_add_left_eq)
  finally show ?thesis
    using fragment_len_le(1) [of data ofs] by (simp add: log_fragment_def Let_def add.assoc)
qed

lemma log_record_offset:
  assumes "ofs \<le> log_kBlockSize" "ofs mod log_kBlockSize = len mod log_kBlockSize"
  shows "snd (log_record ext begn data ofs) \<le> log_kBlockSize \<and>
    snd (log_record ext begn data ofs) mod log_kBlockSize = (len + length (fst (log_record ext begn data ofs))) mod log_kBlockSize"
  using assms
proof (induction begn data ofs arbitrary: len rule: log_record_cases)
  case (last begn data ofs)
  then show ?case
    using fragment_len_le(2) [of ofs data] log_fragment_mod [OF last(2,3), of data ext begn]
    by (simp add: log_record_last)
next
  case (more begn data ofs)
  have "ofs' = block_at ofs + kHeaderSize + fragment_len data ofs \<Longrightarrow> ?case" for ofs'
    using more(2) [of "len + length (log_fragment ext begn data ofs)"] fragment_len_le(2) [of ofs data]
      log_fragment_mod [OF more(3,4), of data ext begn]
    by (simp add: log_record_more [OF more(1)] Let_def add.assoc)
  then show ?case by simp
qed

section \<open>What the writer writes\<close>

definition writer_good :: "('f \<Rightarrow> bool) \<Rightarrow> (u32 \<Rightarrow> bytes \<Rightarrow> u32) \<Rightarrow> 'f Writer \<Rightarrow> bool" where
  "writer_good good ext w \<longleftrightarrow> good (w_dest w) \<and> w_type_crc w = InitTypeCrc ext"

text \<open>A checksum can be computed piece by piece.\<close>

locale checksum =
  fixes ext :: "u32 \<Rightarrow> bytes \<Rightarrow> u32"
  assumes ext_append: "ext (ext c a) b = ext c (a @ b)"

text \<open>A file whose appends succeed.\<close>

locale reliable_file = writable_file +
  assumes append_succeeds: "good f \<Longrightarrow> Status_ok (fst (append d f))"
    and flush_succeeds: "good f \<Longrightarrow> Status_ok (fst (flush f))"

locale log_writer = reliable_file append flush contents good + checksum ext
  for append :: "bytes \<Rightarrow> 'f \<Rightarrow> status \<times> 'f" and flush contents good ext
begin

lemma append_law: "good f \<Longrightarrow> \<exists>s f'. append d f = (s, f') \<and> Status_ok s \<and> good f' \<and> contents f' = contents f @ d"
  using append_ok append_succeeds by (metis prod.collapse)

lemma flush_law: "good f \<Longrightarrow> \<exists>s f'. flush f = (s, f') \<and> Status_ok s \<and> good f' \<and> contents f' = contents f"
  using flush_ok flush_succeeds by (metis prod.collapse)

lemma type_crc: "unat t \<le> unat kMaxRecordType \<Longrightarrow> InitTypeCrc ext ! unat t = ext 0 [ucast t]"
  by (simp add: InitTypeCrc_def nth_append less_Suc_eq_le del: upt_Suc)

lemma fragment_type_le: "unat (fragment_type b e) \<le> unat kMaxRecordType"
  by (simp add: fragment_type_def kFullType_def kFirstType_def kLastType_def kMiddleType_def kMaxRecordType_def)

lemma emit:
  assumes "writer_good good ext w" "unat t \<le> unat kMaxRecordType"
  shows "\<exists>s w'. EmitPhysicalRecord append flush ext t data w = (s, w') \<and> Status_ok s \<and> writer_good good ext w' \<and>
    w_block_offset w' = w_block_offset w + kHeaderSize + length data \<and>
    contents (w_dest w') = contents (w_dest w) @ physical ext t data"
proof -
  let ?buf = "EmitPhysicalRecord_header (Mask (ext 0 (ucast t # data))) t (length data)"
  have crc: "ext (w_type_crc w ! unat t) data = ext 0 (ucast t # data)"
    using assms type_crc [of t] ext_append [of 0 "[ucast t]" data] by (simp add: writer_good_def)
  obtain s1 f1 where 1: "append ?buf (w_dest w) = (s1, f1)" "Status_ok s1" "good f1" "contents f1 = contents (w_dest w) @ ?buf"
    using append_law assms(1) unfolding writer_good_def by blast
  obtain s2 f2 where 2: "append data f1 = (s2, f2)" "Status_ok s2" "good f2" "contents f2 = contents f1 @ data"
    using append_law 1(3) by blast
  obtain s3 f3 where 3: "flush f2 = (s3, f3)" "Status_ok s3" "good f3" "contents f3 = contents f2"
    using flush_law 2(3) by blast
  show ?thesis
    unfolding EmitPhysicalRecord_def crc using assms(1) 1 2 3 by (simp add: writer_good_def physical_def)
qed

lemma switch:
  assumes "writer_good good ext w"
  shows "writer_good good ext (AddRecord_switch append w)"
    and "contents (w_dest (AddRecord_switch append w)) = contents (w_dest w) @ trailer (w_block_offset w)"
    and "w_block_offset (AddRecord_switch append w) = block_at (w_block_offset w)"
proof -
  have "writer_good good ext (AddRecord_switch append w) \<and>
      contents (w_dest (AddRecord_switch append w)) = contents (w_dest w) @ trailer (w_block_offset w)"
    using assms append_law [of "w_dest w" "replicate (log_kBlockSize - w_block_offset w) 0"]
    by (auto simp add: AddRecord_switch_def writer_good_def trailer_def Let_def)
  then show "writer_good good ext (AddRecord_switch append w)"
      "contents (w_dest (AddRecord_switch append w)) = contents (w_dest w) @ trailer (w_block_offset w)"
    by simp_all
qed (simp add: block_at_def)

lemma AddRecord_turn:
  assumes "writer_good good ext w" "w_block_offset w = ofs"
  shows "\<exists>s w'. Status_ok s \<and> writer_good good ext w' \<and>
     w_block_offset w' = block_at ofs + kHeaderSize + fragment_len data ofs \<and>
     contents (w_dest w') = contents (w_dest w) @ log_fragment ext begn data ofs \<and>
     AddRecord_loop append flush ext begn data w =
       (if fragment_len data ofs < length data
        then AddRecord_loop append flush ext False (drop (fragment_len data ofs) data) w'
        else (s, w'))"
proof -
  note sw = switch [OF assms(1)]
  let ?n = "fragment_len data ofs"
  have n: "(if length data < log_kBlockSize - block_at ofs - kHeaderSize then length data
      else log_kBlockSize - block_at ofs - kHeaderSize) = ?n"
    by (simp add: fragment_len_def)
  obtain s w' where "EmitPhysicalRecord append flush ext (fragment_type begn (length data = ?n)) (take ?n data)
      (AddRecord_switch append w) = (s, w')" "Status_ok s" "writer_good good ext w'"
      "w_block_offset w' = block_at ofs + kHeaderSize + ?n"
      "contents (w_dest w') = contents (w_dest w) @ log_fragment ext begn data ofs"
    using emit [OF sw(1) fragment_type_le, of begn "length data = ?n" "take ?n data"] sw(2,3) assms(2)
      fragment_len_le(1) [of data ofs]
    by (auto simp add: log_fragment_def eq_commute [of "length data"] min_def Let_def)
  then show ?thesis
    using sw(3) assms(2)
    by (subst AddRecord_loop.simps)
      (auto simp only: Let_def n zero_less_diff fst_conv snd_conv simp_thms split: if_splits intro!: exI)
qed

lemma AddRecord_loop:
  "writer_good good ext w \<Longrightarrow> w_block_offset w = ofs \<Longrightarrow>
   \<exists>s w'. AddRecord_loop append flush ext begn data w = (s, w') \<and> Status_ok s \<and> writer_good good ext w' \<and>
    w_block_offset w' = snd (log_record ext begn data ofs) \<and>
    contents (w_dest w') = contents (w_dest w) @ fst (log_record ext begn data ofs)"
proof (induction begn data ofs arbitrary: w rule: log_record_cases)
  case (last begn data ofs)
  then show ?case
    using AddRecord_turn [OF last(2,3), of data begn] by (auto simp add: log_record_last)
next
  case (more begn data ofs)
  obtain w' where w': "writer_good good ext w'" "w_block_offset w' = block_at ofs + kHeaderSize + fragment_len data ofs"
      "contents (w_dest w') = contents (w_dest w) @ log_fragment ext begn data ofs"
      "AddRecord_loop append flush ext begn data w =
         AddRecord_loop append flush ext False (drop (fragment_len data ofs) data) w'"
    using AddRecord_turn [OF more(3,4), of data begn] more(1) by auto
  show ?case
    using more(2) [OF w'(1,2)] w'(3,4) by (auto simp add: log_record_more [OF more(1)] Let_def)
qed

lemma AddRecord:
  assumes "writer_good good ext w"
  obtains s w' where "AddRecord append flush ext data w = (s, w')" "Status_ok s" "writer_good good ext w'"
    "w_block_offset w' = snd (log_record ext True data (w_block_offset w))"
    "contents (w_dest w') = contents (w_dest w) @ fst (log_record ext True data (w_block_offset w))"
  using AddRecord_loop [OF assms refl, of True data] by (auto simp add: AddRecord_def)

end

section \<open>What the reader reads\<close>

text \<open>
  \<open>reader_at\<close> relates a reader of a whole log to the bytes that it has still to process and to the
  offset in the block where they start. Before the first read that is the end of a block.
\<close>

definition reader_at :: "('g \<Rightarrow> bytes) \<Rightarrow> ('g \<Rightarrow> bool) \<Rightarrow> 'g Reader \<Rightarrow> bytes \<Rightarrow> nat \<Rightarrow> bool" where
  "reader_at rest good rd S ofs \<longleftrightarrow>
     good (rd_file rd) \<and> S = rd_buffer rd @ rest (rd_file rd) \<and> ofs \<le> log_kBlockSize \<and>
     rd_initial_offset rd = 0 \<and> \<not> rd_resyncing rd \<and>
     (if rd_eof rd then rest (rd_file rd) = [] \<and> ofs + length (rd_buffer rd) < log_kBlockSize
      else length (rd_buffer rd) = log_kBlockSize - ofs)"

lemma reader_eof: "reader_at rest good rd S ofs \<Longrightarrow> length S < log_kBlockSize - ofs \<Longrightarrow> rd_eof rd"
  unfolding reader_at_def by (metis length_append not_add_less1)

lemma reader_initial: "reader_at rest good rd S ofs \<Longrightarrow> rd_initial_offset rd = 0"
  by (simp add: reader_at_def)

lemma physical_not_Nil [simp]: "physical ext t data \<noteq> []"
proof -
  have "0 < length (physical ext t data)"
    by (simp add: kHeaderSize_def)
  then show ?thesis by blast
qed

lemma scast_low_byte: "(scast (b :: byte) :: u32) AND 0xff = ucast b"
proof -
  have "(0xff :: u32) = mask 8"
    by (simp add: mask_eq_exp_minus_1)
  then have "(scast b :: u32) AND 0xff = take_bit 8 (scast b)"
    by (simp add: take_bit_eq_mask)
  also have "\<dots> = ucast b"
  proof (rule bit_word_eqI)
    fix n
    have "bit b n \<Longrightarrow> n < 8"
      using bit_imp_le_length by fastforce
    then show "bit (take_bit 8 (scast b) :: u32) n = bit (ucast b :: u32) n"
      by (cases "n < 7"; cases "n = 7") (auto simp add: bit_simps)
  qed
  finally show ?thesis .
qed

lemma length_bytes:
  assumes "len < 65536"
  shows "unat ((ucast (word_of_nat (len AND 0xff) :: byte) :: u32) OR push_bit 8 (ucast (word_of_nat (drop_bit 8 len) :: byte))) = len"
proof -
  have low: "len AND 0xff = len mod 256"
    using take_bit_eq_mask [of 8 len] by (simp add: take_bit_eq_mod mask_eq_exp_minus_1)
  have high: "drop_bit 8 len = len div 256"
    by (simp add: drop_bit_eq_div)
  have "unat (ucast (word_of_nat (len mod 256) :: byte) :: u32) = len mod 256"
      "unat (ucast (word_of_nat (len div 256) :: byte) :: u32) = len div 256"
    using assms by (simp_all add: unsigned_ucast_eq unsigned_of_nat take_bit_eq_mod)
  then show ?thesis
    using assms by (subst unat_or_push_bit) (simp_all add: low high)
qed

lemma header_nth:
  "(EmitPhysicalRecord_header crc t n @ data) ! 4 = word_of_nat (n AND 0xff)"
  "(EmitPhysicalRecord_header crc t n @ data) ! 5 = word_of_nat (drop_bit 8 n)"
  "(EmitPhysicalRecord_header crc t n @ data) ! 6 = ucast t"
  by (simp_all add: EmitPhysicalRecord_header_def nth_append)

lemma physical_type: "1 \<le> t \<Longrightarrow> t \<le> kMaxRecordType \<Longrightarrow> scast (ucast t :: byte) = t"
proof -
  assume "1 \<le> t" "t \<le> kMaxRecordType"
  then have "1 \<le> unat t" "unat t \<le> 4"
    by (simp_all add: word_le_nat_alt kMaxRecordType_def kLastType_def)
  then consider "unat t = 1" | "unat t = 2" | "unat t = 3" | "unat t = 4"
    by linarith
  then have "t = 1 \<or> t = 2 \<or> t = 3 \<or> t = 4"
    by cases (auto simp add: unat_eq_nat_uint [symmetric] word_unat_eq_iff)
  then show ?thesis
    by auto
qed

lemma fragment_type_range: "1 \<le> fragment_type b e" "fragment_type b e \<le> kMaxRecordType"
  by (simp_all add: fragment_type_def kFullType_def kFirstType_def kLastType_def kMiddleType_def kMaxRecordType_def)

lemma parse_physical:
  assumes "rd_buffer rd = physical ext t data @ b" "1 \<le> t" "t \<le> kMaxRecordType"
    and "kHeaderSize + length data \<le> log_kBlockSize" "rd_initial_offset rd = 0"
  shows "ReadPhysicalRecord_parse ext fragment rd = (t, data, rd\<lparr>rd_buffer := b\<rparr>)"
proof -
  let ?h = "EmitPhysicalRecord_header (Mask (ext 0 (ucast t # data))) t (length data)"
  have buf: "rd_buffer rd = ?h @ data @ b"
    using assms(1) by (simp add: physical_def)
  have len: "unat ((scast (rd_buffer rd ! 4) :: u32) AND 0xff OR push_bit 8 ((scast (rd_buffer rd ! 5) :: u32) AND 0xff)) = length data"
    unfolding buf header_nth scast_low_byte
    using assms(4) by (intro length_bytes) (simp add: log_kBlockSize_def kHeaderSize_def)
  have type: "scast (rd_buffer rd ! 6) = t"
    unfolding buf header_nth using physical_type assms(2,3) by blast
  have crc: "take (1 + length data) (drop 6 (rd_buffer rd)) = ucast t # data"
      "GetFixed32 (rd_buffer rd) = Mask (ext 0 (ucast t # data))"
    unfolding buf EmitPhysicalRecord_header_def by simp_all
  have t: "t \<noteq> kZeroType"
    using assms(2) by (auto simp add: kZeroType_def)
  have drop: "drop (kHeaderSize + length data) (rd_buffer rd) = b" "take (length data) (drop kHeaderSize (rd_buffer rd)) = data"
      "kHeaderSize + length data \<le> length (rd_buffer rd)"
    by (simp_all add: buf)
  show ?thesis
    unfolding ReadPhysicalRecord_parse_def Let_def len type crc drop
    using t assms(5) drop(3) by (simp add: Unmask_Mask)
qed

text \<open>Reading until the reader reports the end, at most \<open>n\<close> records.\<close>

primrec read_all ::
  "(nat \<Rightarrow> 'g \<Rightarrow> status \<times> bytes \<times> 'g) \<Rightarrow> (nat \<Rightarrow> 'g \<Rightarrow> status \<times> 'g) \<Rightarrow> (u32 \<Rightarrow> bytes \<Rightarrow> u32) \<Rightarrow>
   nat \<Rightarrow> 'g Reader \<Rightarrow> (bytes list \<times> 'g Reader) option" where
  "read_all read skip ext 0 rd = Some ([], rd)"
| "read_all read skip ext (Suc n) rd =
     (case ReadRecord read skip ext rd of
        None \<Rightarrow> None
      | Some (b, r, rd') \<Rightarrow>
          if b then map_option (apfst (Cons r)) (read_all read skip ext n rd') else Some ([], rd'))"

locale log_reader = sequential_file read skip rest good + checksum ext
  for read :: "nat \<Rightarrow> 'g \<Rightarrow> status \<times> bytes \<times> 'g" and skip rest good ext
begin

text \<open>Filling the buffer at the end of a block.\<close>

lemma refill:
  assumes "reader_at rest good rd S ofs" "log_kBlockSize - ofs < kHeaderSize" "\<not> rd_eof rd"
  obtains rd' where "reader_at rest good rd' (drop (log_kBlockSize - ofs) S) 0"
    "rd_buffer rd' = take log_kBlockSize (drop (log_kBlockSize - ofs) S)" "rd_reporter rd' = rd_reporter rd"
    "ReadPhysicalRecord read ext fragment rd = ReadPhysicalRecord read ext fragment rd'"
proof -
  define R where "R = drop (log_kBlockSize - ofs) S"
  note rd = assms(1) [unfolded reader_at_def]
  have S: "rest (rd_file rd) = R" and buf: "length (rd_buffer rd) < kHeaderSize" and good: "good (rd_file rd)"
      and flags: "rd_initial_offset rd = 0" "\<not> rd_resyncing rd"
    using rd assms(2,3) by (simp_all add: R_def)
  obtain f where f: "read log_kBlockSize (rd_file rd) = (Status_OK, take log_kBlockSize R, f)" "good f" "rest f = drop log_kBlockSize R"
    using read_ok [OF good, of log_kBlockSize] unfolding S by blast
  define rd1 where "rd1 = rd\<lparr>rd_file := f, rd_buffer := take log_kBlockSize R,
      rd_end_of_buffer_offset := rd_end_of_buffer_offset rd + word_of_nat (length (take log_kBlockSize R))\<rparr>"
  define rd' where "rd' = (if length R < log_kBlockSize then rd1\<lparr>rd_eof := True\<rparr> else rd1)"
  have "reader_at rest good rd' R 0"
    using flags f(2,3) assms(3) by (simp add: reader_at_def rd'_def rd1_def)
  moreover have "ReadPhysicalRecord read ext fragment rd = ReadPhysicalRecord read ext fragment rd'"
    using buf assms(3) f(1)
    by (subst ReadPhysicalRecord.simps) (auto simp add: rd'_def rd1_def Let_def min_def)
  ultimately show ?thesis
    using that [of rd'] by (simp add: rd'_def rd1_def R_def)
qed

text \<open>
  Both for a whole and for a cut fragment the reader first moves to a buffer that starts where the
  fragment does.
\<close>

lemma align:
  assumes "reader_at rest good rd (trailer ofs @ S) ofs" "S \<noteq> []"
  obtains rd' where "reader_at rest good rd' S (block_at ofs)" "rd_reporter rd' = rd_reporter rd"
    "ReadPhysicalRecord read ext fragment rd = ReadPhysicalRecord read ext fragment rd'"
proof (cases "log_kBlockSize - ofs < kHeaderSize")
  case True
  have "log_kBlockSize - ofs \<le> length (trailer ofs @ S)"
    using True by (simp add: trailer_def)
  then have "\<not> rd_eof rd"
    using assms(1) unfolding reader_at_def by (metis append_Nil2 add.commute less_diff_conv not_le)
  moreover have "drop (log_kBlockSize - ofs) (trailer ofs @ S) = S"
    using True by (simp add: trailer_def)
  ultimately show ?thesis
    using refill [OF assms(1) True, of fragment] that True by (auto simp add: block_at_def)
next
  case False
  then show ?thesis
    using that [of rd] assms(1) by (simp add: trailer_def block_at_def)
qed

text \<open>A whole fragment is returned, and the reader stands after it.\<close>

lemma read_fragment:
  assumes "reader_at rest good rd (trailer ofs @ physical ext t data @ tail) ofs"
    and "1 \<le> t" "t \<le> kMaxRecordType" "block_at ofs + kHeaderSize + length data \<le> log_kBlockSize"
  obtains rd' where "ReadPhysicalRecord read ext fragment rd = (t, data, rd')"
    "reader_at rest good rd' tail (block_at ofs + kHeaderSize + length data)" "rd_reporter rd' = rd_reporter rd"
proof -
  let ?S = "physical ext t data @ tail"
  obtain rd1 where rd1: "reader_at rest good rd1 ?S (block_at ofs)" "rd_reporter rd1 = rd_reporter rd"
      "ReadPhysicalRecord read ext fragment rd = ReadPhysicalRecord read ext fragment rd1"
    using align [OF assms(1)] by auto
  have "\<exists>b. rd_buffer rd1 = physical ext t data @ b"
  proof (cases "rd_eof rd1")
    case True
    then have "rd_buffer rd1 = ?S"
      using rd1(1) by (simp add: reader_at_def)
    then show ?thesis by blast
  next
    case False
    then have buf: "length (rd_buffer rd1) = log_kBlockSize - block_at ofs" "rd_buffer rd1 @ rest (rd_file rd1) = ?S"
      using rd1(1) by (simp_all add: reader_at_def)
    then have "rd_buffer rd1 = take (log_kBlockSize - block_at ofs) ?S"
      by (metis append_eq_conv_conj)
    then show ?thesis
      using assms(4) by simp
  qed
  then obtain b where b: "rd_buffer rd1 = physical ext t data @ b" ..
  then have "ReadPhysicalRecord read ext fragment rd1 = (t, data, rd1\<lparr>rd_buffer := b\<rparr>)"
    using parse_physical [OF b assms(2,3)] assms(4) rd1(1)
    by (subst ReadPhysicalRecord.simps) (simp add: reader_at_def)
  moreover have "reader_at rest good (rd1\<lparr>rd_buffer := b\<rparr>) tail (block_at ofs + kHeaderSize + length data)"
    using rd1(1) b assms(4) by (auto simp add: reader_at_def)
  ultimately show ?thesis
    using that [of "rd1\<lparr>rd_buffer := b\<rparr>"] rd1(2,3) by simp
qed

text \<open>A fragment that is cut short ends the log without a report.\<close>

lemma read_torn:
  assumes "reader_at rest good rd (take k (trailer ofs @ physical ext t data)) ofs"
    and "k < length (trailer ofs @ physical ext t data)" "block_at ofs + kHeaderSize + length data \<le> log_kBlockSize"
  obtains rd' where "ReadPhysicalRecord read ext fragment rd = (kEof, fragment, rd')" "rd_reporter rd' = rd_reporter rd"
    "\<not> rd_resyncing rd'"
proof -
  note result = that
  have short: thesis if "reader_at rest good rd1 S ofs1" "rd_eof rd1" "rd_reporter rd1 = rd_reporter rd"
      "ReadPhysicalRecord read ext fragment rd = ReadPhysicalRecord read ext fragment rd1" "length S < kHeaderSize"
      for rd1 S ofs1
  proof -
    have "ReadPhysicalRecord read ext fragment rd1 = (kEof, fragment, rd1\<lparr>rd_buffer := []\<rparr>)"
      using that(1,2,5) by (subst ReadPhysicalRecord.simps) (simp add: reader_at_def)
    then show thesis
      using result [of "rd1\<lparr>rd_buffer := []\<rparr>"] that(1,3,4) by (simp add: reader_at_def)
  qed
  have eof: thesis if "reader_at rest good rd1 (take j (physical ext t data)) ofs1" "rd_eof rd1"
      "rd_reporter rd1 = rd_reporter rd"
      "ReadPhysicalRecord read ext fragment rd = ReadPhysicalRecord read ext fragment rd1"
      "j < kHeaderSize + length data" for rd1 ofs1 j
  proof (cases "j < kHeaderSize")
    case True
    then show thesis
      using short [OF that(1-4)] by simp
  next
    case False
    have buf: "rd_buffer rd1 = take j (physical ext t data)"
      using that(1,2) by (simp add: reader_at_def)
    then have len_buf: "length (rd_buffer rd1) = j"
      using that(5) by simp
    have len: "unat ((scast (rd_buffer rd1 ! 4) :: u32) AND 0xff OR push_bit 8 ((scast (rd_buffer rd1 ! 5) :: u32) AND 0xff)) = length data"
      unfolding buf using False assms(3)
      by (simp add: kHeaderSize_def physical_def header_nth scast_low_byte)
        (intro length_bytes, simp add: log_kBlockSize_def)
    have "ReadPhysicalRecord_parse ext fragment rd1 = (kEof, fragment, rd1\<lparr>rd_buffer := []\<rparr>)"
      unfolding ReadPhysicalRecord_parse_def Let_def len using len_buf that(2,5) by simp
    then have "ReadPhysicalRecord read ext fragment rd1 = (kEof, fragment, rd1\<lparr>rd_buffer := []\<rparr>)"
      using len_buf False by (subst ReadPhysicalRecord.simps) simp
    then show thesis
      using result [of "rd1\<lparr>rd_buffer := []\<rparr>"] that(1,3,4) by (simp add: reader_at_def)
  qed
  show ?thesis
  proof (cases "k \<le> length (trailer ofs)")
    case True
    let ?S = "take k (trailer ofs @ physical ext t data)"
    have S: "length ?S < kHeaderSize" "length ?S \<le> log_kBlockSize - ofs"
      using True by (auto simp add: trailer_def kHeaderSize_def split: if_splits)
    show ?thesis
    proof (cases "rd_eof rd")
      case True
      then show ?thesis
        using short [OF assms(1)] S(1) by simp
    next
      case False
      then have "log_kBlockSize - ofs < kHeaderSize"
        using assms(1) S by (auto simp add: reader_at_def)
      then obtain rd1 where rd1: "reader_at rest good rd1 (drop (log_kBlockSize - ofs) ?S) 0" "rd_reporter rd1 = rd_reporter rd"
          "ReadPhysicalRecord read ext fragment rd = ReadPhysicalRecord read ext fragment rd1"
        using refill [OF assms(1) _ False] by metis
      have nil: "drop (log_kBlockSize - ofs) ?S = []"
        using S(2) by (intro drop_all)
      then have "rd_eof rd1" "length (drop (log_kBlockSize - ofs) ?S) < kHeaderSize"
        using rd1(1) unfolding nil by (auto simp add: reader_at_def log_kBlockSize_def kHeaderSize_def split: if_splits)
      then show ?thesis
        using short [OF rd1(1) _ rd1(2,3)] by simp
    qed
  next
    case False
    let ?S = "take (k - length (trailer ofs)) (physical ext t data)"
    have S: "take k (trailer ofs @ physical ext t data) = trailer ofs @ ?S" "?S \<noteq> []"
      using False by simp_all
    obtain rd1 where rd1: "reader_at rest good rd1 ?S (block_at ofs)" "rd_reporter rd1 = rd_reporter rd"
        "ReadPhysicalRecord read ext fragment rd = ReadPhysicalRecord read ext fragment rd1"
      using align [of rd ofs ?S] assms(1) S by metis
    have "length ?S < log_kBlockSize - block_at ofs"
      using assms(2,3) False by auto
    with rd1(1) have "rd_eof rd1"
      by (rule reader_eof)
    then show ?thesis
      using eof [OF rd1(1) _ rd1(2,3)] assms(2) False by simp
  qed
qed

lemma step_whole:
  assumes "reader_at rest good rd (log_fragment ext begn data ofs @ tail) ofs"
    and "rv_in_fragmented_record v = (\<not> begn)" "begn \<Longrightarrow> rv_scratch v = []"
  obtains rd' where "reader_at rest good rd' tail (block_at ofs + kHeaderSize + fragment_len data ofs)"
    "rd_reporter rd' = rd_reporter rd"
    "if fragment_len data ofs = length data then ReadRecord_step read ext v rd = Inl (True, rv_scratch v @ data, rd')
     else \<exists>v'. ReadRecord_step read ext v rd = Inr (v', rd') \<and> rv_in_fragmented_record v' \<and>
       rv_scratch v' = rv_scratch v @ take (fragment_len data ofs) data"
proof -
  define n where "n = fragment_len data ofs"
  define t where "t = fragment_type begn (n = length data)"
  have n: "length (take n data) = n" "block_at ofs + kHeaderSize + length (take n data) \<le> log_kBlockSize"
    using fragment_len_le(1) [of data ofs] fragment_len_le(2) [of ofs data] by (simp_all add: n_def)
  obtain rd1 where rd1: "ReadPhysicalRecord read ext (rv_fragment v) rd = (t, take n data, rd1)"
      "reader_at rest good rd1 tail (block_at ofs + kHeaderSize + n)" "rd_reporter rd1 = rd_reporter rd"
    using read_fragment [of rd ofs t "take n data" tail "rv_fragment v"] assms(1) n fragment_type_range
    by (auto simp add: log_fragment_def t_def n_def Let_def)
  have at: "reader_at rest good (rd1\<lparr>rd_last_record_offset := x\<rparr>) tail (block_at ofs + kHeaderSize + n)" for x
    using rd1(2) by (simp add: reader_at_def)
  have resync: "\<not> rd_resyncing rd1"
    using rd1(2) by (simp add: reader_at_def)
  show ?thesis
  proof (cases "n = length data")
    case True
    then obtain x where x: "ReadRecord_step read ext v rd = Inl (True, rv_scratch v @ data, rd1\<lparr>rd_last_record_offset := x\<rparr>)"
      using rd1(1) resync assms(2,3)
      by (cases begn) (simp_all add: ReadRecord_step_def ReadRecord_switch_def Let_def t_def fragment_type_def
          kFullType_def kFirstType_def kMiddleType_def kLastType_def)
    then show ?thesis
      using that [OF at [of x, unfolded n_def]] rd1(3) True by (simp add: n_def)
  next
    case False
    then have "\<exists>v'. ReadRecord_step read ext v rd = Inr (v', rd1) \<and> rv_in_fragmented_record v' \<and>
        rv_scratch v' = rv_scratch v @ take n data"
      using rd1(1) resync assms(2,3)
      by (cases begn) (simp_all add: ReadRecord_step_def ReadRecord_switch_def Let_def t_def fragment_type_def
          kFullType_def kFirstType_def kMiddleType_def kLastType_def)
    then show ?thesis
      using that [of rd1] rd1(2,3) False by (simp add: n_def)
  qed
qed

lemma step_torn:
  assumes "reader_at rest good rd (take k (log_fragment ext begn data ofs)) ofs" "k < length (log_fragment ext begn data ofs)"
  obtains rd' where "ReadRecord_step read ext v rd = Inl (False, [], rd')" "rd_reporter rd' = rd_reporter rd"
proof -
  let ?n = "fragment_len data ofs"
  have n: "block_at ofs + kHeaderSize + length (take ?n data) \<le> log_kBlockSize"
    using fragment_len_le(1) [of data ofs] fragment_len_le(2) [of ofs data] by simp
  obtain rd1 where "ReadPhysicalRecord read ext (rv_fragment v) rd = (kEof, rv_fragment v, rd1)"
      "rd_reporter rd1 = rd_reporter rd" "\<not> rd_resyncing rd1"
    using read_torn [OF _ _ n, of rd k "fragment_type begn (?n = length data)" "rv_fragment v"] assms
    by (auto simp add: log_fragment_def Let_def)
  then show ?thesis
    using that [of rd1]
    by (simp add: ReadRecord_step_def ReadRecord_switch_def Let_def kEof_def kMaxRecordType_def
        kFullType_def kFirstType_def kMiddleType_def kLastType_def)
qed

text \<open>Reading one record of a log that may be cut short.\<close>

lemma ReadRecord_loop_record:
  assumes "reader_at rest good rd (take k (fst (log_record ext begn data ofs) @ tail)) ofs"
    and "rv_in_fragmented_record v = (\<not> begn)" "begn \<Longrightarrow> rv_scratch v = []"
  shows "if length (fst (log_record ext begn data ofs)) \<le> k
    then \<exists>rd'. ReadRecord_loop read ext v rd = Some (True, rv_scratch v @ data, rd') \<and> rd_reporter rd' = rd_reporter rd \<and>
      reader_at rest good rd' (take (k - length (fst (log_record ext begn data ofs))) tail) (snd (log_record ext begn data ofs))
    else \<exists>rd'. ReadRecord_loop read ext v rd = Some (False, [], rd') \<and> rd_reporter rd' = rd_reporter rd"
  using assms
proof (induction begn data ofs arbitrary: rd v k rule: log_record_cases)
  case (last begn data ofs)
  let ?f = "log_fragment ext begn data ofs"
  note eq = log_record_last [OF last(1), of ext begn, THEN arg_cong [of _ _ fst], simplified]
    log_record_last [OF last(1), of ext begn, THEN arg_cong [of _ _ snd], simplified]
  show ?case
  proof (cases "length ?f \<le> k")
    case True
    then have "reader_at rest good rd (?f @ take (k - length ?f) tail) ofs"
      using last(2) by (simp add: eq)
    then show ?thesis
      using step_whole [OF _ last(3,4)] last(1) True fragment_len_le(1) [of data ofs]
      by (subst (1 2) ReadRecord_loop.simps) (simp add: eq, metis le_neq_implies_less sum.case(1))
  next
    case False
    then have "reader_at rest good rd (take k ?f) ofs"
      using last(2) by (simp add: eq)
    then show ?thesis
      using step_torn False
      by (subst (1 2) ReadRecord_loop.simps) (simp add: eq, metis not_le sum.case(1))
  qed
next
  case (more begn data ofs)
  let ?f = "log_fragment ext begn data ofs"
  let ?d = "drop (fragment_len data ofs) data"
  let ?r = "log_record ext False ?d (block_at ofs + kHeaderSize + fragment_len data ofs)"
  have eq: "log_record ext begn data ofs = (?f @ fst ?r, snd ?r)"
    by (simp add: log_record_more [OF more(1)] Let_def)
  show ?case
  proof (cases "length ?f \<le> k")
    case True
    then have "reader_at rest good rd (?f @ take (k - length ?f) (fst ?r @ tail)) ofs"
      using more(3) by (simp add: eq)
    then obtain rd' v' where s: "reader_at rest good rd' (take (k - length ?f) (fst ?r @ tail))
          (block_at ofs + kHeaderSize + fragment_len data ofs)" "rd_reporter rd' = rd_reporter rd"
        "ReadRecord_step read ext v rd = Inr (v', rd')" "rv_in_fragmented_record v'"
        "rv_scratch v' = rv_scratch v @ take (fragment_len data ofs) data"
      using step_whole [OF _ more(4,5)] more(1) by (metis less_irrefl)
    have loop: "ReadRecord_loop read ext v rd = ReadRecord_loop read ext v' rd'"
      by (subst ReadRecord_loop.simps) (simp add: s(3))
    have scratch: "rv_scratch v' @ ?d = rv_scratch v @ data"
      using s(5) by simp
    have cut: "length (?f @ fst ?r) \<le> k \<longleftrightarrow> length (fst ?r) \<le> k - length ?f"
        "k - length (?f @ fst ?r) = k - length ?f - length (fst ?r)"
      using True by auto
    show ?thesis
      using more(2) [OF s(1), of v'] s(4) unfolding loop eq fst_conv snd_conv cut scratch [symmetric] s(2) [symmetric] by simp
  next
    case False
    then have "reader_at rest good rd (take k ?f) ofs"
      using more(3) by (simp add: eq)
    then show ?thesis
      using step_torn False
      by (subst (1 2) ReadRecord_loop.simps) (simp add: eq, metis not_le sum.case(1) trans_le_add1)
  qed
qed

lemma ReadRecord_empty:
  assumes "reader_at rest good rd [] ofs"
  shows "\<exists>rd'. ReadRecord read skip ext rd = Some (False, [], rd') \<and> rd_reporter rd' = rd_reporter rd"
proof -
  let ?f = "log_fragment ext True [] ofs"
  have f: "0 < length ?f" "reader_at rest good rd (take 0 ?f) ofs"
    using assms by (simp_all add: log_fragment_def Let_def kHeaderSize_def)
  show ?thesis
    using step_torn [OF f(2,1)] assms
    by (auto simp add: ReadRecord_def reader_at_def) (subst ReadRecord_loop.simps, metis sum.case(1))
qed

lemma ReadRecord_record:
  assumes "reader_at rest good rd (take k (fst (log_record ext True data ofs) @ tail)) ofs"
  shows "if length (fst (log_record ext True data ofs)) \<le> k
    then \<exists>rd'. ReadRecord read skip ext rd = Some (True, data, rd') \<and> rd_reporter rd' = rd_reporter rd \<and>
      reader_at rest good rd' (take (k - length (fst (log_record ext True data ofs))) tail) (snd (log_record ext True data ofs))
    else \<exists>rd'. ReadRecord read skip ext rd = Some (False, [], rd') \<and> rd_reporter rd' = rd_reporter rd"
  using ReadRecord_loop_record [OF assms, of "\<lparr>rv_scratch = [], rv_fragment = [], rv_in_fragmented_record = False,
      rv_prospective_record_offset = 0\<rparr>"] reader_initial [OF assms]
  by (simp add: ReadRecord_def cong: if_cong)

text \<open>The records of a log that is cut after \<open>k\<close> bytes are read up to the cut.\<close>

lemma read_all_records:
  assumes "reader_at rest good rd (take k (fst (log_records ext ds ofs))) ofs" "length ds < n"
  shows "\<exists>m rd'. m \<le> length ds \<and> read_all read skip ext n rd = Some (take m ds, rd') \<and> rd_reporter rd' = rd_reporter rd \<and>
    length (fst (log_records ext (take m ds) ofs)) \<le> k \<and>
    (m < length ds \<longrightarrow> k < length (fst (log_records ext (take (Suc m) ds) ofs)))"
  using assms
proof (induction ds arbitrary: rd k ofs n)
  case Nil
  then show ?case
    using ReadRecord_empty [of rd ofs] by (cases n) auto
next
  case (Cons d ds)
  obtain n' where n: "n = Suc n'" "length ds < n'"
    using Cons.prems(2) by (cases n) auto
  let ?r = "log_record ext True d ofs"
  have at: "reader_at rest good rd (take k (fst ?r @ fst (log_records ext ds (snd ?r)))) ofs"
    using Cons.prems(1) by (simp add: Let_def)
  show ?case
  proof (cases "length (fst ?r) \<le> k")
    case True
    then obtain rd' where rd': "ReadRecord read skip ext rd = Some (True, d, rd')" "rd_reporter rd' = rd_reporter rd"
        "reader_at rest good rd' (take (k - length (fst ?r)) (fst (log_records ext ds (snd ?r)))) (snd ?r)"
      using ReadRecord_record [OF at] by auto
    obtain m rd'' where "m \<le> length ds" "read_all read skip ext n' rd' = Some (take m ds, rd'')"
        "rd_reporter rd'' = rd_reporter rd'" "length (fst (log_records ext (take m ds) (snd ?r))) \<le> k - length (fst ?r)"
        "m < length ds \<longrightarrow> k - length (fst ?r) < length (fst (log_records ext (take (Suc m) ds) (snd ?r)))"
      using Cons.IH [OF rd'(3) n(2)] by blast
    then show ?thesis
      using rd' True n(1) by (intro exI [of _ "Suc m"] exI [of _ rd'']) (auto simp add: Let_def)
  next
    case False
    then show ?thesis
      using ReadRecord_record [OF at] n(1) by (intro exI [of _ 0]) (auto simp add: Let_def)
  qed
qed

end

section \<open>Logs in memory\<close>

text \<open>Adding records one after the other; the flag tells whether every call reported success.\<close>

primrec AddRecords ::
  "(bytes \<Rightarrow> 'f \<Rightarrow> status \<times> 'f) \<Rightarrow> ('f \<Rightarrow> status \<times> 'f) \<Rightarrow> (u32 \<Rightarrow> bytes \<Rightarrow> u32) \<Rightarrow>
   bytes list \<Rightarrow> 'f Writer \<Rightarrow> bool \<times> 'f Writer" where
  "AddRecords fappend flush ext [] w = (True, w)"
| "AddRecords fappend flush ext (d # ds) w =
     (let (s, w) = AddRecord fappend flush ext d w; (ok, w) = AddRecords fappend flush ext ds w
      in (Status_ok s \<and> ok, w))"

context log_writer
begin

lemma AddRecords:
  "writer_good good ext w \<Longrightarrow> \<exists>w'. AddRecords append flush ext ds w = (True, w') \<and> writer_good good ext w' \<and>
    w_block_offset w' = snd (log_records ext ds (w_block_offset w)) \<and>
    contents (w_dest w') = contents (w_dest w) @ fst (log_records ext ds (w_block_offset w))"
proof (induction ds arbitrary: w)
  case (Cons d ds)
  obtain s w1 where 1: "AddRecord append flush ext d w = (s, w1)" "Status_ok s" "writer_good good ext w1"
      "w_block_offset w1 = snd (log_record ext True d (w_block_offset w))"
      "contents (w_dest w1) = contents (w_dest w) @ fst (log_record ext True d (w_block_offset w))"
    by (rule AddRecord [OF Cons.prems])
  obtain w2 where "AddRecords append flush ext ds w1 = (True, w2)" "writer_good good ext w2"
      "w_block_offset w2 = snd (log_records ext ds (w_block_offset w1))"
      "contents (w_dest w2) = contents (w_dest w1) @ fst (log_records ext ds (w_block_offset w1))"
    using Cons.IH [OF 1(3)] by blast
  with 1 show ?case by (simp add: Let_def)
qed simp

lemma writer_good_make: "good f \<Longrightarrow> writer_good good ext (Writer_make ext f)"
  "good f \<Longrightarrow> writer_good good ext (Writer_make_at ext f n)"
  by (simp_all add: writer_good_def Writer_make_def Writer_make_at_def)

end

lemma log_records_append:
  "log_records ext (as @ bs) ofs =
     (let r = log_records ext as ofs; s = log_records ext bs (snd r) in (fst r @ fst s, snd s))"
  by (induction as arbitrary: ofs) (simp_all add: Let_def)

lemma log_records_offset:
  assumes "ofs \<le> log_kBlockSize" "ofs mod log_kBlockSize = len mod log_kBlockSize"
  shows "snd (log_records ext ds ofs) \<le> log_kBlockSize \<and>
    snd (log_records ext ds ofs) mod log_kBlockSize = (len + length (fst (log_records ext ds ofs))) mod log_kBlockSize"
  using assms
proof (induction ds arbitrary: ofs len)
  case (Cons d ds)
  show ?case
    using Cons.IH [of "snd (log_record ext True d ofs)" "len + length (fst (log_record ext True d ofs))"]
      log_record_offset [OF Cons.prems, of ext True d]
    by (simp add: Let_def add.assoc)
qed simp

lemma log_records_block: "fst (log_records ext ds log_kBlockSize) = fst (log_records ext ds 0)"
  by (cases ds) (simp_all add: log_record_block)

lemma log_records_mod:
  assumes "ofs \<le> log_kBlockSize"
  shows "fst (log_records ext ds (ofs mod log_kBlockSize)) = fst (log_records ext ds ofs)"
  using assms by (cases "ofs = log_kBlockSize") (simp_all add: log_records_block)

text \<open>The checksum as the code computes it, at any alignment of its buffers.\<close>

definition portable_crc :: "(u32 \<Rightarrow> bytes \<Rightarrow> nat) \<Rightarrow> u32 \<Rightarrow> bytes \<Rightarrow> u32" where
  "portable_crc addr crc data = Extend_portable (addr crc data) crc data"

interpretation mem_writer: log_writer WritableFileImpl_Append WritableFileImpl_Flush fs_contents fs_inv "portable_crc addr"
  for addr
  by unfold_locales
    (simp_all add: WritableFileImpl_Append_def WritableFileImpl_Flush_def FileState_Append_def portable_crc_def
      Extend_portable_crc crc32c_append)

interpretation mem_reader: log_reader SequentialFileImpl_Read SequentialFileImpl_Skip seq_rest seq_good "portable_crc addr"
  for addr
  by unfold_locales

abbreviation write_log :: "(u32 \<Rightarrow> bytes \<Rightarrow> nat) \<Rightarrow> bytes list \<Rightarrow> FileState Writer \<Rightarrow> bool \<times> FileState Writer" where
  "write_log addr \<equiv> AddRecords WritableFileImpl_Append WritableFileImpl_Flush (portable_crc addr)"

lemma write_log_empty:
  "\<exists>w. write_log addr ds (Writer_make (portable_crc addr) FileState_make) = (True, w) \<and> fs_inv (w_dest w) \<and>
     w_block_offset w = snd (log_records (portable_crc addr) ds 0) \<and>
     fs_contents (w_dest w) = fst (log_records (portable_crc addr) ds 0)"
  using mem_writer.AddRecords [OF mem_writer.writer_good_make(1), of FileState_make addr ds]
  by (auto simp add: writer_good_def Writer_make_def)

text \<open>C8. A log that is reopened for appending continues as if it had never been closed: writing
  some records, opening a second writer on the file with its length, and writing more records gives
  the same bytes as one writer for all of them. Every call reports success.\<close>

theorem log_reopen:
  assumes "write_log addr ds (Writer_make (portable_crc addr) FileState_make) = (ok, w)"
    and "FileState_Size (w_dest w) < 2 ^ 64"
    and "write_log addr es (Writer_make_at (portable_crc addr) (w_dest w) (word_of_nat (FileState_Size (w_dest w)))) = (ok', w')"
    and "write_log addr (ds @ es) (Writer_make (portable_crc addr) FileState_make) = (ok'', w'')"
  shows "ok \<and> ok' \<and> ok'' \<and> fs_contents (w_dest w') = fs_contents (w_dest w'')"
proof -
  let ?ext = "portable_crc addr"
  have w: "ok" "fs_inv (w_dest w)" "fs_contents (w_dest w) = fst (log_records ?ext ds 0)"
    using write_log_empty [of addr ds] assms(1) by auto
  have w'': "ok''" "fs_contents (w_dest w'') = fst (log_records ?ext (ds @ es) 0)"
    using write_log_empty [of addr "ds @ es"] assms(4) by auto
  have size: "FileState_Size (w_dest w) = length (fst (log_records ?ext ds 0))"
    using length_fs_contents [OF w(2)] w(3) by (simp add: FileState_Size_def)
  have ofs: "snd (log_records ?ext ds 0) \<le> log_kBlockSize"
      "snd (log_records ?ext ds 0) mod log_kBlockSize = FileState_Size (w_dest w) mod log_kBlockSize"
    using log_records_offset [of 0 0 ?ext ds] size by simp_all
  have "ok' \<and> fs_contents (w_dest w') =
      fs_contents (w_dest w) @ fst (log_records ?ext es (FileState_Size (w_dest w) mod log_kBlockSize))"
    using mem_writer.AddRecords [OF mem_writer.writer_good_make(2) [OF w(2)], of addr es "word_of_nat (FileState_Size (w_dest w))"]
      assms(2,3)
    by (auto simp add: Writer_make_at_def unsigned_of_nat take_bit_nat_eq_self)
  then show ?thesis
    using w w'' log_records_mod [OF ofs(1)] ofs(2) by (simp add: log_records_append Let_def)
qed

theorem log_reopen_witness:
  "\<exists>w w' w''. write_log (\<lambda>_ _. 0) [[1, 2]] (Writer_make (portable_crc (\<lambda>_ _. 0)) FileState_make) = (True, w) \<and>
     write_log (\<lambda>_ _. 0) [[3]] (Writer_make_at (portable_crc (\<lambda>_ _. 0)) (w_dest w) 9) = (True, w') \<and>
     write_log (\<lambda>_ _. 0) [[1, 2], [3]] (Writer_make (portable_crc (\<lambda>_ _. 0)) FileState_make) = (True, w'') \<and>
     fs_contents (w_dest w') = fs_contents (w_dest w'')"
proof -
  let ?addr = "\<lambda>(_ :: u32) (_ :: bytes). 0 :: nat" and ?ext = "portable_crc (\<lambda>_ _. 0)"
  obtain w where w: "write_log ?addr [[1, 2]] (Writer_make ?ext FileState_make) = (True, w)"
      "fs_inv (w_dest w)" "fs_contents (w_dest w) = fst (log_records ?ext [[1, 2]] 0)"
    using write_log_empty [of ?addr "[[1, 2]]"] by blast
  have size: "FileState_Size (w_dest w) = 9"
    using length_fs_contents [OF w(2)] w(3)
    by (simp add: FileState_Size_def Let_def log_record.simps log_fragment_def fragment_len_def trailer_def block_at_def
        log_kBlockSize_def kHeaderSize_def)
  obtain w'' where w'': "write_log ?addr ([[1, 2]] @ [[3]]) (Writer_make ?ext FileState_make) = (True, w'')"
    using write_log_empty [of ?addr "[[1, 2]] @ [[3]]"] by blast
  obtain ok w' where w': "write_log ?addr [[3]] (Writer_make_at ?ext (w_dest w) (word_of_nat (FileState_Size (w_dest w)))) = (ok, w')"
    by fastforce
  show ?thesis
    using log_reopen [OF w(1) _ w' w''] w(1) w' w'' size by auto
qed

text \<open>C7. A log that is cut at any byte, as a crash of the writer may leave it, reads back as the
  records that lie before the cut: reading ends, every record that was written completely is
  returned unchanged and in order, no other record is, and no corruption is reported.\<close>

theorem log_crash_recovery:
  assumes "write_log addr ds (Writer_make (portable_crc addr) FileState_make) = (ok, w)"
    and "fs_inv f" "fs_contents f = take k (fs_contents (w_dest w))" "length ds < n"
  shows "\<exists>m rd. m \<le> length ds \<and>
    read_all SequentialFileImpl_Read SequentialFileImpl_Skip (portable_crc addr') n (Reader_make (f, 0) (Some []) b 0) =
      Some (take m ds, rd) \<and> rd_reporter rd = Some [] \<and>
    FileState_Size (w_dest (snd (write_log addr (take m ds) (Writer_make (portable_crc addr) FileState_make)))) \<le> k \<and>
    (m < length ds \<longrightarrow>
      k < FileState_Size (w_dest (snd (write_log addr (take (Suc m) ds) (Writer_make (portable_crc addr) FileState_make)))))"
proof -
  let ?ext = "portable_crc addr"
  have ext: "portable_crc addr' = ?ext"
    by (intro HOL.ext) (simp add: portable_crc_def Extend_portable_crc)
  have size: "FileState_Size (w_dest (snd (write_log addr xs (Writer_make ?ext FileState_make)))) =
      length (fst (log_records ?ext xs 0))" for xs
    using write_log_empty [of addr xs] length_fs_contents by (metis FileState_Size_def snd_conv)
  have contents: "fs_contents (w_dest w) = fst (log_records ?ext ds 0)"
    using write_log_empty [of addr ds] assms(1) by auto
  have block: "fst (log_records ?ext xs log_kBlockSize) = fst (log_records ?ext xs 0)" for xs
    by (rule log_records_block)
  have at: "reader_at seq_rest seq_good (Reader_make (f, 0) (Some []) b 0)
      (take k (fst (log_records ?ext ds log_kBlockSize))) log_kBlockSize"
    using assms(2,3) contents
    by (simp add: reader_at_def Reader_make_def seq_rest_def seq_good_def block)
  show ?thesis
    using mem_reader.read_all_records [OF at assms(4)] unfolding size ext block by (simp add: Reader_make_def)
qed

theorem log_crash_recovery_witness:
  "\<exists>w f m rd. write_log (\<lambda>_ _. 0) [[1, 2], [3]] (Writer_make (portable_crc (\<lambda>_ _. 0)) FileState_make) = (True, w) \<and>
     fs_contents f = take 10 (fs_contents (w_dest w)) \<and>
     read_all SequentialFileImpl_Read SequentialFileImpl_Skip (portable_crc (\<lambda>_ _. 1)) 3 (Reader_make (f, 0) (Some []) True 0) =
       Some (take m [[1, 2], [3]], rd) \<and> rd_reporter rd = Some []"
proof -
  obtain w where w: "write_log (\<lambda>_ _. 0) [[1, 2], [3]] (Writer_make (portable_crc (\<lambda>_ _. 0)) FileState_make) = (True, w)"
    using write_log_empty [of "\<lambda>_ _. 0" "[[1, 2], [3]]"] by blast
  define f where "f = FileState_Append_loop (take 10 (fs_contents (w_dest w))) FileState_make"
  have f: "fs_inv f" "fs_contents f = take 10 (fs_contents (w_dest w))"
    using FileState_Append_contents [of FileState_make "take 10 (fs_contents (w_dest w))"] by (simp_all add: f_def)
  show ?thesis
    using log_crash_recovery [OF w f, of 3 "\<lambda>_ _. 1" True] w f(2) by auto
qed

end
