(* ===== verification/Table_Format.thy ===== *)
theory Table_Format
  imports Block_Format Filter_Blocks Log_Format
begin

text \<open>
  \<^verbatim>\<open>table/format.h\<close> and \<^verbatim>\<open>table/format.cc\<close>: block handles, the footer of a table file and how a block is
  read from a file. A block is stored with a trailer of five bytes, its compression type and a
  masked checksum. The file is its reading routine: an offset and a number of bytes give a status, the
  bytes and whether they lie in the buffer of the caller. Compression is an argument of the model
  whose contract is the locale \<open>snappy\<close>; a build without the Snappy library has the instance
  \<open>Snappy_none\<close>.
\<close>

section \<open>Block handles and footers\<close>

record BlockHandle =
  bh_offset :: u64
  bh_size :: u64

definition BlockHandle_make :: BlockHandle where
  "BlockHandle_make = \<lparr>bh_offset = - 1, bh_size = - 1\<rparr>"

definition BlockHandle_EncodeTo :: "BlockHandle \<Rightarrow> bytes \<Rightarrow> bytes" where
  "BlockHandle_EncodeTo h dst = PutVarint64 (PutVarint64 dst (bh_offset h)) (bh_size h)"

text \<open>On failure the handle and the input may be partly read; no caller looks at them then.\<close>

definition BlockHandle_DecodeFrom :: "bytes \<Rightarrow> status \<times> BlockHandle \<times> bytes" where
  "BlockHandle_DecodeFrom input =
     (case GetVarint64 input of
        None \<Rightarrow> (Corruption ''bad block handle'', BlockHandle_make, input)
      | Some (offset, input) \<Rightarrow>
          (case GetVarint64 input of
             None \<Rightarrow> (Corruption ''bad block handle'', BlockHandle_make\<lparr>bh_offset := offset\<rparr>, input)
           | Some (sz, input) \<Rightarrow> (Status_OK, \<lparr>bh_offset = offset, bh_size = sz\<rparr>, input)))"

definition kMaxEncodedLength :: nat where
  "kMaxEncodedLength = 10 + 10"

record Footer =
  ft_metaindex_handle :: BlockHandle
  ft_index_handle :: BlockHandle

definition kEncodedLength :: nat where
  "kEncodedLength = 2 * kMaxEncodedLength + 8"

definition kTableMagicNumber :: u64 where
  "kTableMagicNumber = 0xdb4775248b80fb57"

text \<open>\<^verbatim>\<open>std::string::resize\<close> cuts the string or fills it up with zero bytes.\<close>

definition resize :: "nat \<Rightarrow> bytes \<Rightarrow> bytes" where
  "resize n s = take n s @ replicate (n - length s) 0"

definition Footer_EncodeTo :: "Footer \<Rightarrow> bytes \<Rightarrow> bytes" where
  "Footer_EncodeTo f dst =
     (let dst = BlockHandle_EncodeTo (ft_index_handle f) (BlockHandle_EncodeTo (ft_metaindex_handle f) dst);
          dst = resize (2 * kMaxEncodedLength) dst
      in PutFixed32 (PutFixed32 dst (ucast (kTableMagicNumber AND 0xffffffff))) (ucast (drop_bit 32 kTableMagicNumber)))"

text \<open>The input has at least the length of a footer.\<close>

definition Footer_DecodeFrom :: "bytes \<Rightarrow> status \<times> Footer" where
  "Footer_DecodeFrom input =
     (let magic_ptr = drop (kEncodedLength - 8) input;
          magic_lo = GetFixed32 magic_ptr;
          magic_hi = GetFixed32 (drop 4 magic_ptr);
          magic = push_bit 32 (ucast magic_hi) OR ucast magic_lo :: u64;
          none = \<lparr>ft_metaindex_handle = BlockHandle_make, ft_index_handle = BlockHandle_make\<rparr>
      in if magic \<noteq> kTableMagicNumber then (Corruption ''not an sstable (bad magic number)'', none)
         else
           let (s, meta, input) = BlockHandle_DecodeFrom input
           in if \<not> Status_ok s then (s, none\<lparr>ft_metaindex_handle := meta\<rparr>)
              else
                let (s, index, input) = BlockHandle_DecodeFrom input
                in (s, \<lparr>ft_metaindex_handle = meta, ft_index_handle = index\<rparr>))"

section \<open>Compression\<close>

datatype CompressionType = kNoCompression | kSnappyCompression

primrec CompressionType_byte :: "CompressionType \<Rightarrow> byte" where
  "CompressionType_byte kNoCompression = 0"
| "CompressionType_byte kSnappyCompression = 1"

record Snappy =
  Snappy_Compress :: "bytes \<Rightarrow> bytes option"
  Snappy_GetUncompressedLength :: "bytes \<Rightarrow> nat option"
  Snappy_Uncompress :: "bytes \<Rightarrow> bytes option"

definition Snappy_none :: Snappy where
  "Snappy_none =
     \<lparr>Snappy_Compress = (\<lambda>_. None), Snappy_GetUncompressedLength = (\<lambda>_. None), Snappy_Uncompress = (\<lambda>_. None)\<rparr>"

locale snappy =
  fixes sn :: Snappy
  assumes uncompress: "Snappy_Compress sn raw = Some c \<Longrightarrow>
    Snappy_GetUncompressedLength sn c = Some (length raw) \<and> Snappy_Uncompress sn c = Some raw"

section \<open>Reading a block\<close>

definition kBlockTrailerSize :: nat where
  "kBlockTrailerSize = 5"

record BlockContents =
  bc_data :: bytes
  bc_cachable :: bool
  bc_heap_allocated :: bool

text \<open>
  The sum of the size of the block and of the trailer wraps around; \<^const>\<open>None\<close> is an access
  outside the bytes that were read.
\<close>

definition ReadBlock ::
  "(u64 \<Rightarrow> nat \<Rightarrow> status \<times> bytes \<times> bool) \<Rightarrow> (u32 \<Rightarrow> bytes \<Rightarrow> u32) \<Rightarrow> Snappy \<Rightarrow> bool \<Rightarrow> BlockHandle \<Rightarrow>
    (status \<times> BlockContents) option" where
  "ReadBlock read ext sn verify_checksums handle =
     (let none = \<lparr>bc_data = [], bc_cachable = False, bc_heap_allocated = False\<rparr>;
          n = bh_size handle;
          total = unat (n + word_of_nat kBlockTrailerSize);
          (s, contents, in_buf) = read (bh_offset handle) total
      in if \<not> Status_ok s then Some (s, none)
         else if length contents \<noteq> total then Some (Corruption ''truncated block read'', none)
         else if length contents \<le> unat n then None
         else if verify_checksums \<and> ext 0 (take (unat n + 1) contents) \<noteq> Unmask (GetFixed32 (drop (unat n + 1) contents))
           then Some (Corruption ''block checksum mismatch'', none)
         else if contents ! unat n = CompressionType_byte kNoCompression then
           Some (Status_OK, \<lparr>bc_data = take (unat n) contents, bc_cachable = in_buf, bc_heap_allocated = in_buf\<rparr>)
         else if contents ! unat n = CompressionType_byte kSnappyCompression then
           (case Snappy_GetUncompressedLength sn (take (unat n) contents) of
              None \<Rightarrow> Some (Corruption ''corrupted compressed block contents'', none)
            | Some ulength \<Rightarrow>
                (case Snappy_Uncompress sn (take (unat n) contents) of
                   None \<Rightarrow> Some (Corruption ''corrupted compressed block contents'', none)
                 | Some ubuf \<Rightarrow> Some (Status_OK, \<lparr>bc_data = ubuf, bc_cachable = True, bc_heap_allocated = True\<rparr>)))
         else Some (Corruption ''bad block type'', none))"

section \<open>Encodings\<close>

lemma BlockHandle_codec: "BlockHandle_DecodeFrom (BlockHandle_EncodeTo h [] @ rest) = (Status_OK, h, rest)"
  by (cases h) (simp add: BlockHandle_DecodeFrom_def BlockHandle_EncodeTo_def PutVarint64_def)

lemma length_BlockHandle: "length (BlockHandle_EncodeTo h []) \<le> 20"
  using length_EncodeVarint64_le [of "bh_offset h"] length_EncodeVarint64_le [of "bh_size h"]
  by (simp add: BlockHandle_EncodeTo_def PutVarint64_def)

lemma BlockHandle_append: "BlockHandle_EncodeTo h dst = dst @ BlockHandle_EncodeTo h []"
  by (simp add: BlockHandle_EncodeTo_def PutVarint64_def)

lemma footer_codec:
  "length (Footer_EncodeTo f []) = kEncodedLength \<and> Footer_DecodeFrom (Footer_EncodeTo f []) = (Status_OK, f)"
proof -
  let ?h = "BlockHandle_EncodeTo (ft_metaindex_handle f) [] @ BlockHandle_EncodeTo (ft_index_handle f) []"
  let ?lo = "ucast (kTableMagicNumber AND 0xffffffff) :: u32" and ?hi = "ucast (drop_bit 32 kTableMagicNumber) :: u32"
  have len: "length ?h \<le> 40"
    using length_BlockHandle [of "ft_metaindex_handle f"] length_BlockHandle [of "ft_index_handle f"] by simp
  define pad where "pad = replicate (40 - length ?h) (0 :: byte)"
  have enc: "Footer_EncodeTo f [] = ?h @ pad @ Fixed32 ?lo @ Fixed32 ?hi"
    using len BlockHandle_append [of "ft_index_handle f" "BlockHandle_EncodeTo (ft_metaindex_handle f) []"]
    by (simp add: Footer_EncodeTo_def resize_def kMaxEncodedLength_def PutFixed32_def pad_def)
  have total: "length (?h @ pad) = 40"
    using len by (simp add: pad_def)
  have "drop (kEncodedLength - 8) (Footer_EncodeTo f []) = Fixed32 ?lo @ Fixed32 ?hi"
    using total unfolding enc by (simp add: kEncodedLength_def kMaxEncodedLength_def)
  moreover have "push_bit 32 (ucast ?hi) OR ucast ?lo = kTableMagicNumber"
    by (simp add: kTableMagicNumber_def)
  ultimately have "Footer_DecodeFrom (Footer_EncodeTo f []) = (Status_OK, f)"
    using BlockHandle_codec [of "ft_metaindex_handle f"] BlockHandle_codec [of "ft_index_handle f"]
    unfolding Footer_DecodeFrom_def Let_def by (simp add: enc)
  then show ?thesis
    using total enc by (simp add: kEncodedLength_def kMaxEncodedLength_def)
qed

end
