(* ===== verification/Table_Builder.thy ===== *)
theory Table_Builder
  imports Table_Format
begin

text \<open>
  \<^verbatim>\<open>table/table_builder.cc\<close>: how a table file is written. Entries go into a data block until it is large
  enough; then the block is written to the file and an entry with its last key and its handle is put
  into the index block, once the next key is known. At the end follow the filter block, the metaindex
  block, the index block and the footer. Assertions are not modelled: they hold of the calls that the
  theorems are about. \<open>table_io\<close> collects the operations of the file, the checksum and the compression.
\<close>

section \<open>The code\<close>

record FilterPolicy =
  fp_Name :: bytes
  fp_CreateFilter :: "bytes list \<Rightarrow> bytes \<Rightarrow> bytes"
  fp_KeyMayMatch :: "bytes \<Rightarrow> bytes \<Rightarrow> bool"

record Options =
  opt_comparator :: "bytes \<Rightarrow> bytes \<Rightarrow> int"
  opt_block_restart_interval :: nat
  opt_block_size :: nat
  opt_compression :: CompressionType
  opt_filter_policy :: "FilterPolicy option"
  opt_paranoid_checks :: bool

record 'f table_io =
  io_append :: "bytes \<Rightarrow> 'f \<Rightarrow> status \<times> 'f"
  io_flush :: "'f \<Rightarrow> status \<times> 'f"
  io_extend :: "u32 \<Rightarrow> bytes \<Rightarrow> u32"
  io_snappy :: Snappy

record 'f TableBuilder =
  tb_options :: Options
  tb_index_block_options :: Options
  tb_file :: 'f
  tb_offset :: u64
  tb_status :: status
  tb_data_block :: BlockBuilder
  tb_index_block :: BlockBuilder
  tb_block_number :: u32
  tb_last_key :: bytes
  tb_num_entries :: u64
  tb_closed :: bool
  tb_filter_block :: "(FilterPolicy \<times> FilterBlockBuilder) option"
  tb_pending_index_entry :: bool
  tb_pending_handle :: BlockHandle

text \<open>The filter block builder keeps the policy it was constructed with.\<close>

definition TableBuilder_make :: "Options \<Rightarrow> 'f \<Rightarrow> 'f TableBuilder" where
  "TableBuilder_make options f =
     \<lparr>tb_options = options, tb_index_block_options = options\<lparr>opt_block_restart_interval := 1\<rparr>, tb_file = f,
      tb_offset = 0, tb_status = Status_OK, tb_data_block = BlockBuilder_make, tb_index_block = BlockBuilder_make,
      tb_block_number = 0, tb_last_key = [], tb_num_entries = 0, tb_closed = False,
      tb_filter_block =
        (case opt_filter_policy options of
           None \<Rightarrow> None
         | Some p \<Rightarrow> Some (p, FilterBlockBuilder_StartBlock (fp_CreateFilter p) 0 FilterBlockBuilder_make)),
      tb_pending_index_entry = False, tb_pending_handle = BlockHandle_make\<rparr>"

definition TableBuilder_ok :: "'f TableBuilder \<Rightarrow> bool" where
  "TableBuilder_ok b = Status_ok (tb_status b)"

definition block_trailer :: "(u32 \<Rightarrow> bytes \<Rightarrow> u32) \<Rightarrow> bytes \<Rightarrow> CompressionType \<Rightarrow> bytes" where
  "block_trailer ext block_contents ctype =
     (let crc = ext 0 block_contents;
          crc = ext crc [CompressionType_byte ctype]
      in CompressionType_byte ctype # Fixed32 (Mask crc))"

definition WriteRawBlock :: "'f table_io \<Rightarrow> bytes \<Rightarrow> CompressionType \<Rightarrow> 'f TableBuilder \<Rightarrow> BlockHandle \<times> 'f TableBuilder" where
  "WriteRawBlock io block_contents ctype b =
     (let handle = \<lparr>bh_offset = tb_offset b, bh_size = word_of_nat (length block_contents)\<rparr>;
          (s, f) = io_append io block_contents (tb_file b);
          b = b\<lparr>tb_status := s, tb_file := f\<rparr>
      in if \<not> Status_ok s then (handle, b)
         else
           let (s, f) = io_append io (block_trailer (io_extend io) block_contents ctype) (tb_file b);
               b = b\<lparr>tb_status := s, tb_file := f\<rparr>
           in if \<not> Status_ok s then (handle, b)
              else (handle, b\<lparr>tb_offset := tb_offset b + word_of_nat (length block_contents + kBlockTrailerSize)\<rparr>))"

definition compress_block :: "Snappy \<Rightarrow> CompressionType \<Rightarrow> bytes \<Rightarrow> bytes \<times> CompressionType" where
  "compress_block sn ctype raw =
     (case ctype of
        kNoCompression \<Rightarrow> (raw, kNoCompression)
      | kSnappyCompression \<Rightarrow>
          (case Snappy_Compress sn raw of
             None \<Rightarrow> (raw, kNoCompression)
           | Some compressed \<Rightarrow>
               if length compressed < length raw - length raw div 8 then (compressed, kSnappyCompression)
               else (raw, kNoCompression)))"

definition WriteBlock :: "'f table_io \<Rightarrow> BlockBuilder \<Rightarrow> 'f TableBuilder \<Rightarrow> BlockBuilder \<times> BlockHandle \<times> 'f TableBuilder" where
  "WriteBlock io block b =
     (let (raw, block) = BlockBuilder_Finish block;
          (block_contents, ctype) = compress_block (io_snappy io) (opt_compression (tb_options b)) raw;
          (handle, b) = WriteRawBlock io block_contents ctype b
      in (BlockBuilder_Reset block, handle, b))"

definition TableBuilder_Flush :: "'f table_io \<Rightarrow> 'f TableBuilder \<Rightarrow> 'f TableBuilder" where
  "TableBuilder_Flush io b =
     (if \<not> TableBuilder_ok b then b
      else if BlockBuilder_empty (tb_data_block b) then b
      else
        let (block, handle, b) = WriteBlock io (tb_data_block b) b;
            b = b\<lparr>tb_data_block := block, tb_pending_handle := handle\<rparr>;
            b = (if TableBuilder_ok b then
                   let b = b\<lparr>tb_pending_index_entry := True, tb_block_number := tb_block_number b + 1\<rparr>;
                       (s, f) = io_flush io (tb_file b)
                   in b\<lparr>tb_status := s, tb_file := f\<rparr>
                 else b)
        in b\<lparr>tb_filter_block := map_option (\<lambda>(p, fb). (p, FilterBlockBuilder_StartBlock (fp_CreateFilter p) (tb_offset b) fb)) (tb_filter_block b)\<rparr>)"

definition add_index_entry :: "'f TableBuilder \<Rightarrow> 'f TableBuilder" where
  "add_index_entry b =
     (if tb_pending_index_entry b then
        let handle_encoding = BlockHandle_EncodeTo (tb_pending_handle b) []
        in b\<lparr>tb_index_block := BlockBuilder_Add (opt_block_restart_interval (tb_index_block_options b)) (tb_last_key b)
               handle_encoding (tb_index_block b),
             tb_pending_index_entry := False\<rparr>
      else b)"

definition TableBuilder_Add :: "'f table_io \<Rightarrow> bytes \<Rightarrow> bytes \<Rightarrow> 'f TableBuilder \<Rightarrow> 'f TableBuilder" where
  "TableBuilder_Add io key value b =
     (if \<not> TableBuilder_ok b then b
      else
        let b = add_index_entry b;
            b = b\<lparr>tb_filter_block := map_option (\<lambda>(p, fb). (p, FilterBlockBuilder_AddKey key fb)) (tb_filter_block b)\<rparr>;
            b = b\<lparr>tb_last_key := key, tb_num_entries := tb_num_entries b + 1,
                  tb_data_block := BlockBuilder_Add (opt_block_restart_interval (tb_options b)) key value (tb_data_block b)\<rparr>
        in if BlockBuilder_CurrentSizeEstimate (tb_data_block b) \<ge> opt_block_size (tb_options b)
           then TableBuilder_Flush io b else b)"

text \<open>
  The key of the filter block in the metaindex block has the name of the policy in the current options.
  The code dereferences that policy; the model gives a null policy an empty name.
\<close>

definition filter_key :: "FilterPolicy option \<Rightarrow> bytes" where
  "filter_key policy = map of_char ''filter.'' @ (case policy of None \<Rightarrow> [] | Some p \<Rightarrow> fp_Name p)"

definition Finish_filter :: "'f table_io \<Rightarrow> 'f TableBuilder \<Rightarrow> BlockHandle \<times> 'f TableBuilder" where
  "Finish_filter io b =
     (case tb_filter_block b of
        None \<Rightarrow> (BlockHandle_make, b)
      | Some (p, fb) \<Rightarrow>
          if TableBuilder_ok b then
            let (contents, fb) = FilterBlockBuilder_Finish (fp_CreateFilter p) fb
            in WriteRawBlock io contents kNoCompression (b\<lparr>tb_filter_block := Some (p, fb)\<rparr>)
          else (BlockHandle_make, b))"

definition Finish_metaindex :: "'f table_io \<Rightarrow> BlockHandle \<Rightarrow> 'f TableBuilder \<Rightarrow> BlockHandle \<times> 'f TableBuilder" where
  "Finish_metaindex io filter_handle b =
     (if \<not> TableBuilder_ok b then (BlockHandle_make, b)
      else
        let meta_index_block =
              (case tb_filter_block b of
                 None \<Rightarrow> BlockBuilder_make
               | Some _ \<Rightarrow> BlockBuilder_Add (opt_block_restart_interval (tb_options b)) (filter_key (opt_filter_policy (tb_options b)))
                             (BlockHandle_EncodeTo filter_handle []) BlockBuilder_make);
            (_, handle, b) = WriteBlock io meta_index_block b
        in (handle, b))"

definition Finish_index :: "'f table_io \<Rightarrow> 'f TableBuilder \<Rightarrow> BlockHandle \<times> 'f TableBuilder" where
  "Finish_index io b =
     (if \<not> TableBuilder_ok b then (BlockHandle_make, b)
      else
        let b = add_index_entry b;
            (block, handle, b) = WriteBlock io (tb_index_block b) b
        in (handle, b\<lparr>tb_index_block := block\<rparr>))"

definition Finish_footer :: "'f table_io \<Rightarrow> Footer \<Rightarrow> 'f TableBuilder \<Rightarrow> 'f TableBuilder" where
  "Finish_footer io footer b =
     (if \<not> TableBuilder_ok b then b
      else
        let footer_encoding = Footer_EncodeTo footer [];
            (s, f) = io_append io footer_encoding (tb_file b);
            b = b\<lparr>tb_status := s, tb_file := f\<rparr>
        in if Status_ok s then b\<lparr>tb_offset := tb_offset b + word_of_nat (length footer_encoding)\<rparr> else b)"

definition TableBuilder_Finish :: "'f table_io \<Rightarrow> 'f TableBuilder \<Rightarrow> status \<times> 'f TableBuilder" where
  "TableBuilder_Finish io b =
     (let b = (TableBuilder_Flush io b)\<lparr>tb_closed := True\<rparr>;
          (filter_handle, b) = Finish_filter io b;
          (metaindex_handle, b) = Finish_metaindex io filter_handle b;
          (index_handle, b) = Finish_index io b;
          b = Finish_footer io \<lparr>ft_metaindex_handle = metaindex_handle, ft_index_handle = index_handle\<rparr> b
      in (tb_status b, b))"

definition TableBuilder_Abandon :: "'f TableBuilder \<Rightarrow> 'f TableBuilder" where
  "TableBuilder_Abandon b = b\<lparr>tb_closed := True\<rparr>"

text \<open>\<open>same_comparator\<close> is the comparison of the pointers to the comparators.\<close>

definition TableBuilder_ChangeOptions :: "bool \<Rightarrow> Options \<Rightarrow> 'f TableBuilder \<Rightarrow> status \<times> 'f TableBuilder" where
  "TableBuilder_ChangeOptions same_comparator options b =
     (if \<not> same_comparator then (Status_make kInvalidArgument ''changing comparator while building table'' [], b)
      else (Status_OK, b\<lparr>tb_options := options, tb_index_block_options := options\<lparr>opt_block_restart_interval := 1\<rparr>\<rparr>))"

definition TableBuilder_NumEntries :: "'f TableBuilder \<Rightarrow> u64" where
  "TableBuilder_NumEntries b = tb_num_entries b"

definition TableBuilder_FileSize :: "'f TableBuilder \<Rightarrow> u64" where
  "TableBuilder_FileSize b = tb_offset b"

definition TableBuilder_BlockNumber :: "'f TableBuilder \<Rightarrow> u32" where
  "TableBuilder_BlockNumber b = tb_block_number b"

definition TableBuilder_BlockOffset :: "'f TableBuilder \<Rightarrow> u32" where
  "TableBuilder_BlockOffset b = BlockBuilder_BlockOffset (tb_data_block b)"

section \<open>The layout of a table file\<close>

text \<open>
  What the builder leaves in the file for the data blocks \<open>blks\<close>, as functions of the blocks alone:
  the stored form of a block, its handle, the entries of the index block and the blocks as the filter
  block builder sees them.
\<close>

definition block_bytes :: "nat \<Rightarrow> (bytes \<times> bytes) list \<Rightarrow> bytes" where
  "block_bytes m es = fst (BlockBuilder_Finish (build_block m es))"

definition stored :: "'f table_io \<Rightarrow> CompressionType \<Rightarrow> bytes \<Rightarrow> bytes" where
  "stored io ctype raw =
     (case compress_block (io_snappy io) ctype raw of (c, t) \<Rightarrow> c @ block_trailer (io_extend io) c t)"

definition handle_at :: "'f table_io \<Rightarrow> CompressionType \<Rightarrow> bytes \<Rightarrow> nat \<Rightarrow> BlockHandle" where
  "handle_at io ctype raw ofs =
     \<lparr>bh_offset = word_of_nat ofs, bh_size = word_of_nat (length (fst (compress_block (io_snappy io) ctype raw)))\<rparr>"

abbreviation opt_restarts :: "Options \<Rightarrow> nat" where
  "opt_restarts \<equiv> opt_block_restart_interval"

definition data_bytes :: "'f table_io \<Rightarrow> Options \<Rightarrow> (bytes \<times> bytes) list list \<Rightarrow> bytes" where
  "data_bytes io opts blks = concat (map (\<lambda>blk. stored io (opt_compression opts) (block_bytes (opt_restarts opts) blk)) blks)"

definition data_handle :: "'f table_io \<Rightarrow> Options \<Rightarrow> (bytes \<times> bytes) list list \<Rightarrow> nat \<Rightarrow> BlockHandle" where
  "data_handle io opts blks i =
     handle_at io (opt_compression opts) (block_bytes (opt_restarts opts) (blks ! i)) (length (data_bytes io opts (take i blks)))"

definition index_entries :: "'f table_io \<Rightarrow> Options \<Rightarrow> (bytes \<times> bytes) list list \<Rightarrow> (bytes \<times> bytes) list" where
  "index_entries io opts blks =
     map (\<lambda>i. (fst (last (blks ! i)), BlockHandle_EncodeTo (data_handle io opts blks i) [])) [0..<length blks]"

definition filter_blocks :: "'f table_io \<Rightarrow> Options \<Rightarrow> (bytes \<times> bytes) list list \<Rightarrow> (u64 \<times> bytes list) list" where
  "filter_blocks io opts blks =
     map (\<lambda>i. (word_of_nat (length (data_bytes io opts (take i blks))), map fst (blks ! i))) [0..<length blks]"

definition filter_builder :: "'f table_io \<Rightarrow> Options \<Rightarrow> FilterPolicy \<Rightarrow> (bytes \<times> bytes) list list \<Rightarrow> FilterBlockBuilder" where
  "filter_builder io opts p blks =
     foldl (add_block (fp_CreateFilter p)) FilterBlockBuilder_make (filter_blocks io opts blks)"

definition filter_contents :: "'f table_io \<Rightarrow> Options \<Rightarrow> FilterPolicy \<Rightarrow> (bytes \<times> bytes) list list \<Rightarrow> bytes" where
  "filter_contents io opts p blks = fst (FilterBlockBuilder_Finish (fp_CreateFilter p) (filter_builder io opts p (blks @ [[]])))"

definition filter_bytes :: "'f table_io \<Rightarrow> Options \<Rightarrow> (bytes \<times> bytes) list list \<Rightarrow> bytes" where
  "filter_bytes io opts blks =
     (case opt_filter_policy opts of None \<Rightarrow> [] | Some p \<Rightarrow> stored io kNoCompression (filter_contents io opts p blks))"

definition meta_entries :: "'f table_io \<Rightarrow> Options \<Rightarrow> (bytes \<times> bytes) list list \<Rightarrow> (bytes \<times> bytes) list" where
  "meta_entries io opts blks =
     (case opt_filter_policy opts of
        None \<Rightarrow> []
      | Some p \<Rightarrow> [(filter_key (Some p), BlockHandle_EncodeTo
          (handle_at io kNoCompression (filter_contents io opts p blks) (length (data_bytes io opts blks))) [])])"

definition meta_contents :: "'f table_io \<Rightarrow> Options \<Rightarrow> (bytes \<times> bytes) list list \<Rightarrow> bytes" where
  "meta_contents io opts blks = block_bytes (opt_restarts opts) (meta_entries io opts blks)"

definition meta_start :: "'f table_io \<Rightarrow> Options \<Rightarrow> (bytes \<times> bytes) list list \<Rightarrow> bytes" where
  "meta_start io opts blks = data_bytes io opts blks @ filter_bytes io opts blks"

definition index_contents :: "'f table_io \<Rightarrow> Options \<Rightarrow> (bytes \<times> bytes) list list \<Rightarrow> bytes" where
  "index_contents io opts blks = block_bytes 1 (index_entries io opts blks)"

definition index_start :: "'f table_io \<Rightarrow> Options \<Rightarrow> (bytes \<times> bytes) list list \<Rightarrow> bytes" where
  "index_start io opts blks = meta_start io opts blks @ stored io (opt_compression opts) (meta_contents io opts blks)"

definition table_footer :: "'f table_io \<Rightarrow> Options \<Rightarrow> (bytes \<times> bytes) list list \<Rightarrow> Footer" where
  "table_footer io opts blks =
     \<lparr>ft_metaindex_handle = handle_at io (opt_compression opts) (meta_contents io opts blks) (length (meta_start io opts blks)),
      ft_index_handle = handle_at io (opt_compression opts) (index_contents io opts blks) (length (index_start io opts blks))\<rparr>"

definition table_bytes :: "'f table_io \<Rightarrow> Options \<Rightarrow> (bytes \<times> bytes) list list \<Rightarrow> bytes" where
  "table_bytes io opts blks =
     index_start io opts blks @ stored io (opt_compression opts) (index_contents io opts blks) @
     Footer_EncodeTo (table_footer io opts blks) []"

lemma data_bytes_Nil [simp]: "data_bytes io opts [] = []"
  by (simp add: data_bytes_def)

lemma data_bytes_snoc:
  "data_bytes io opts (blks @ [blk]) = data_bytes io opts blks @ stored io (opt_compression opts) (block_bytes (opt_restarts opts) blk)"
  by (simp add: data_bytes_def)

lemma index_entries_snoc:
  "index_entries io opts (blks @ [blk]) = index_entries io opts blks @
     [(fst (last blk), BlockHandle_EncodeTo (handle_at io (opt_compression opts) (block_bytes (opt_restarts opts) blk)
        (length (data_bytes io opts blks))) [])]"
  by (simp add: index_entries_def data_handle_def nth_append)

lemma filter_blocks_snoc:
  "filter_blocks io opts (blks @ [blk]) =
     filter_blocks io opts blks @ [(word_of_nat (length (data_bytes io opts blks)), map fst blk)]"
  by (simp add: filter_blocks_def nth_append)

lemma filter_builder_snoc:
  "filter_builder io opts p (blks @ [blk]) =
     add_block (fp_CreateFilter p) (filter_builder io opts p blks) (word_of_nat (length (data_bytes io opts blks)), map fst blk)"
  by (simp add: filter_builder_def filter_blocks_snoc)

lemma filter_builder_AddKey:
  "FilterBlockBuilder_AddKey k (filter_builder io opts p (blks @ [cur])) = filter_builder io opts p (blks @ [cur @ [(k, v)]])"
  by (simp add: filter_builder_snoc add_block_def)

lemma filter_builder_StartBlock:
  "FilterBlockBuilder_StartBlock (fp_CreateFilter p) (word_of_nat (length (data_bytes io opts blks))) (filter_builder io opts p blks) =
     filter_builder io opts p (blks @ [[]])"
  by (simp add: filter_builder_snoc add_block_def)

lemma build_block_snoc: "BlockBuilder_Add m k v (build_block m es) = build_block m (es @ [(k, v)])"
  by (simp add: build_block_def)

lemma build_block_Nil [simp]: "build_block m [] = BlockBuilder_make"
  by (simp add: build_block_def)

lemma build_block_empty: "0 < m \<Longrightarrow> BlockBuilder_empty (build_block m es) \<longleftrightarrow> es = []"
  using builder_inv_build [of m es] block_entry_pos
  by (cases es) (auto simp add: builder_inv_def BlockBuilder_empty_def)

lemma Reset_make [simp]: "BlockBuilder_Reset b = BlockBuilder_make"
  by (simp add: BlockBuilder_Reset_def BlockBuilder_make_def)

lemma length_stored: "length (stored io ctype raw) = length (fst (compress_block (io_snappy io) ctype raw)) + kBlockTrailerSize"
  by (simp add: stored_def block_trailer_def kBlockTrailerSize_def Let_def split: prod.split)


definition tb_inv ::
  "'f table_io \<Rightarrow> ('f \<Rightarrow> bytes) \<Rightarrow> ('f \<Rightarrow> bool) \<Rightarrow> Options \<Rightarrow> (bytes \<times> bytes) list list \<Rightarrow> (bytes \<times> bytes) list \<Rightarrow>
    'f TableBuilder \<Rightarrow> bool" where
  "tb_inv io contents good opts blks cur b \<longleftrightarrow>
     tb_status b = Status_OK \<and> good (tb_file b) \<and> tb_options b = opts \<and>
     tb_index_block_options b = opts\<lparr>opt_block_restart_interval := 1\<rparr> \<and>
     contents (tb_file b) = data_bytes io opts blks \<and> tb_offset b = word_of_nat (length (data_bytes io opts blks)) \<and>
     [] \<notin> set blks \<and> tb_data_block b = build_block (opt_restarts opts) cur \<and>
     tb_pending_index_entry b = (cur = [] \<and> blks \<noteq> []) \<and>
     tb_index_block b = build_block 1 (index_entries io opts (if cur = [] then butlast blks else blks)) \<and>
     (cur = [] \<and> blks \<noteq> [] \<longrightarrow>
        tb_pending_handle b = data_handle io opts blks (length blks - 1) \<and> tb_last_key b = fst (last (last blks))) \<and>
     (cur \<noteq> [] \<longrightarrow> tb_last_key b = fst (last cur)) \<and>
     tb_filter_block b = map_option (\<lambda>p. (p, filter_builder io opts p (blks @ [cur]))) (opt_filter_policy opts) \<and>
     tb_num_entries b = word_of_nat (length (concat blks @ cur)) \<and> tb_block_number b = word_of_nat (length blks)"

text \<open>The builder while it finishes the file: \<open>d\<close> is written and the index block is known.\<close>

definition finishing ::
  "'f table_io \<Rightarrow> ('f \<Rightarrow> bytes) \<Rightarrow> ('f \<Rightarrow> bool) \<Rightarrow> Options \<Rightarrow> (bytes \<times> bytes) list list \<Rightarrow> bytes \<Rightarrow> 'f TableBuilder \<Rightarrow> bool" where
  "finishing io contents good opts blks d b \<longleftrightarrow>
     tb_status b = Status_OK \<and> good (tb_file b) \<and> tb_options b = opts \<and> contents (tb_file b) = d \<and>
     tb_offset b = word_of_nat (length d) \<and> (tb_filter_block b = None \<longleftrightarrow> opt_filter_policy opts = None) \<and>
     tb_index_block (add_index_entry b) = build_block 1 (index_entries io opts blks)"

lemma add_index_entry_simps [simp]:
  "tb_status (add_index_entry b) = tb_status b" "tb_file (add_index_entry b) = tb_file b"
  "tb_options (add_index_entry b) = tb_options b" "tb_offset (add_index_entry b) = tb_offset b"
  by (simp_all add: add_index_entry_def Let_def)

lemma add_index_entry_block [simp]:
  "tb_index_block (add_index_entry (b\<lparr>tb_status := s\<rparr>)) = tb_index_block (add_index_entry b)"
  "tb_index_block (add_index_entry (b\<lparr>tb_file := f\<rparr>)) = tb_index_block (add_index_entry b)"
  "tb_index_block (add_index_entry (b\<lparr>tb_offset := n\<rparr>)) = tb_index_block (add_index_entry b)"
  "tb_index_block (add_index_entry (b\<lparr>tb_filter_block := fb\<rparr>)) = tb_index_block (add_index_entry b)"
  by (simp_all add: add_index_entry_def Let_def)

locale table_writer = reliable_file "io_append io" "io_flush io" contents good + checksum "io_extend io" + snappy "io_snappy io"
  for io :: "'f table_io" and contents good
begin

lemma WriteRawBlock_ok:
  assumes "good (tb_file b)"
  obtains f where "good f" "contents f = contents (tb_file b) @ c @ block_trailer (io_extend io) c t"
    "WriteRawBlock io c t b =
      (\<lparr>bh_offset = tb_offset b, bh_size = word_of_nat (length c)\<rparr>,
       b\<lparr>tb_status := Status_OK, tb_file := f, tb_offset := tb_offset b + word_of_nat (length c + kBlockTrailerSize)\<rparr>)"
proof -
  obtain s f where f: "io_append io c (tb_file b) = (s, f)"
    by fastforce
  then have s: "s = Status_OK" "good f" "contents f = contents (tb_file b) @ c"
    using append_ok [OF assms f] append_succeeds [OF assms, of c] by (simp_all add: Status_ok_def Status_OK_def)
  obtain s' f' where f': "io_append io (block_trailer (io_extend io) c t) f = (s', f')"
    by fastforce
  then have s': "s' = Status_OK" "good f'" "contents f' = contents f @ block_trailer (io_extend io) c t"
    using append_ok [OF s(2) f'] append_succeeds [OF s(2), of "block_trailer (io_extend io) c t"]
    by (simp_all add: Status_ok_def Status_OK_def)
  show ?thesis
    using s s' f f' by (intro that [of f']) (simp_all add: WriteRawBlock_def Status_ok_def Status_OK_def)
qed

lemma WriteBlock_ok:
  assumes "good (tb_file b)" "tb_offset b = word_of_nat (length (contents (tb_file b)))" 
  obtains f where "good f" "contents f = contents (tb_file b) @ stored io (opt_compression (tb_options b)) (block_bytes m es)"
    "WriteBlock io (build_block m es) b =
      (BlockBuilder_make, handle_at io (opt_compression (tb_options b)) (block_bytes m es) (length (contents (tb_file b))),
       b\<lparr>tb_status := Status_OK, tb_file := f, tb_offset := word_of_nat (length (contents f))\<rparr>)"
proof -
  obtain c t where c: "compress_block (io_snappy io) (opt_compression (tb_options b)) (block_bytes m es) = (c, t)"
    by fastforce
  obtain f where f: "good f" "contents f = contents (tb_file b) @ c @ block_trailer (io_extend io) c t"
    "WriteRawBlock io c t b =
      (\<lparr>bh_offset = tb_offset b, bh_size = word_of_nat (length c)\<rparr>,
       b\<lparr>tb_status := Status_OK, tb_file := f, tb_offset := tb_offset b + word_of_nat (length c + kBlockTrailerSize)\<rparr>)"
    by (rule WriteRawBlock_ok [OF assms(1)])
  obtain bb where bb: "BlockBuilder_Finish (build_block m es) = (block_bytes m es, bb)"
    by (metis block_bytes_def prod.collapse)
  have "length (block_trailer (io_extend io) c t) = kBlockTrailerSize"
    by (simp add: block_trailer_def kBlockTrailerSize_def Let_def)
  then show ?thesis
    using f c assms(2) bb by (intro that [of f]) (simp_all add: WriteBlock_def stored_def handle_at_def)
qed

lemma Flush_inv:
  assumes "tb_inv io contents good opts blks cur b" "cur \<noteq> []" "0 < opt_restarts opts"
  shows "tb_inv io contents good opts (blks @ [cur]) [] (TableBuilder_Flush io b)"
proof -
  note b = assms(1) [unfolded tb_inv_def]
  have fl: "good (tb_file b)" "tb_offset b = word_of_nat (length (contents (tb_file b)))" "tb_options b = opts"
      "contents (tb_file b) = data_bytes io opts blks"
    using b by simp_all
  obtain f where f: "good f" "contents f = contents (tb_file b) @ stored io (opt_compression (tb_options b)) (block_bytes (opt_restarts opts) cur)"
    "WriteBlock io (build_block (opt_restarts opts) cur) b =
      (BlockBuilder_make, handle_at io (opt_compression (tb_options b)) (block_bytes (opt_restarts opts) cur) (length (contents (tb_file b))),
       b\<lparr>tb_status := Status_OK, tb_file := f, tb_offset := word_of_nat (length (contents f))\<rparr>)"
    by (rule WriteBlock_ok [OF fl(1,2)])
  note f = f [unfolded fl(3,4) data_bytes_snoc [symmetric]]
  obtain s f' where f': "io_flush io f = (s, f')"
    by fastforce
  have s: "s = Status_OK" "good f'" "contents f' = contents f"
    using flush_ok [OF f(1) f'] flush_succeeds [OF f(1)] f' by (simp_all add: Status_ok_def Status_OK_def)
  have "TableBuilder_Flush io b =
      b\<lparr>tb_status := Status_OK, tb_file := f', tb_offset := word_of_nat (length (contents f)),
        tb_data_block := BlockBuilder_make, tb_pending_handle := handle_at io (opt_compression opts)
          (block_bytes (opt_restarts opts) cur) (length (data_bytes io opts blks)),
        tb_pending_index_entry := True, tb_block_number := tb_block_number b + 1,
        tb_filter_block := map_option (\<lambda>(p, fb). (p, FilterBlockBuilder_StartBlock (fp_CreateFilter p) (word_of_nat (length (contents f))) fb))
          (tb_filter_block b)\<rparr>"
    using b assms(2,3) f(3) f' s(1)
    by (simp add: TableBuilder_Flush_def TableBuilder_ok_def Status_ok_def Status_OK_def build_block_empty)
  then show ?thesis
    using b assms(2) f(2) s f(1) filter_builder_StartBlock [of _ io opts "blks @ [cur]"]
    by (auto simp add: tb_inv_def data_handle_def nth_append option.map_comp comp_def)
qed

lemma add_index_entry_inv:
  assumes "tb_inv io contents good opts blks cur b"
  shows "add_index_entry b = b\<lparr>tb_index_block := build_block 1 (index_entries io opts blks), tb_pending_index_entry := False\<rparr>"
proof (cases "cur = [] \<and> blks \<noteq> []")
  case True
  then obtain blks' blk where blks: "blks = blks' @ [blk]"
    by (metis rev_exhaust)
  show ?thesis
    using True assms build_block_snoc [of 1 _ _ "index_entries io opts blks'"]
    by (simp add: tb_inv_def add_index_entry_def blks index_entries_snoc data_handle_def)
next
  case False
  then show ?thesis
    using assms by (auto simp add: tb_inv_def add_index_entry_def)
qed

lemma Add_inv:
  assumes "tb_inv io contents good opts blks cur b" "0 < opt_restarts opts"
  shows "\<exists>blks' cur'. concat blks' @ cur' = concat blks @ cur @ [(k, v)] \<and>
    tb_inv io contents good opts blks' cur' (TableBuilder_Add io k v b)"
proof -
  define b' where "b' =
    b\<lparr>tb_index_block := build_block 1 (index_entries io opts blks), tb_pending_index_entry := False,
      tb_filter_block := map_option (\<lambda>(p, fb). (p, FilterBlockBuilder_AddKey k fb)) (tb_filter_block b),
      tb_last_key := k, tb_num_entries := tb_num_entries b + 1,
      tb_data_block := BlockBuilder_Add (opt_restarts opts) k v (tb_data_block b)\<rparr>"
  have b': "tb_inv io contents good opts blks (cur @ [(k, v)]) b'"
    using assms(1) filter_builder_AddKey [of k io opts _ blks cur v]
    by (auto simp add: tb_inv_def b'_def build_block_snoc option.map_comp comp_def)
  have add: "TableBuilder_Add io k v b =
      (if BlockBuilder_CurrentSizeEstimate (tb_data_block b') \<ge> opt_block_size (tb_options b') then TableBuilder_Flush io b' else b')"
    using assms(1) unfolding TableBuilder_Add_def add_index_entry_inv [OF assms(1)]
    by (simp add: tb_inv_def TableBuilder_ok_def Status_ok_def Status_OK_def b'_def)
  show ?thesis
  proof (cases "BlockBuilder_CurrentSizeEstimate (tb_data_block b') \<ge> opt_block_size (tb_options b')")
    case True
    then show ?thesis
      using Flush_inv [OF b' _ assms(2)] unfolding add
      by (intro exI [of _ "blks @ [cur @ [(k, v)]]"] exI [of _ "[]"]) simp
  next
    case False
    then show ?thesis
      using b' unfolding add by (intro exI [of _ blks] exI [of _ "cur @ [(k, v)]"]) simp
  qed
qed

lemma make_inv:
  assumes "good f" "contents f = []"
  shows "tb_inv io contents good opts [] [] (TableBuilder_make opts f)"
  using assms filter_builder_StartBlock [of _ io opts "[]"]
  by (auto simp add: tb_inv_def TableBuilder_make_def index_entries_def filter_builder_def filter_blocks_def split: option.split)

lemma build_inv:
  assumes "0 < opt_restarts opts" "good f" "contents f = []"
  shows "\<exists>blks cur. concat blks @ cur = es \<and>
    tb_inv io contents good opts blks cur (foldl (\<lambda>b (k, v). TableBuilder_Add io k v b) (TableBuilder_make opts f) es)"
proof (induction es rule: rev_induct)
  case Nil
  show ?case
    using make_inv [OF assms(2,3)] by (intro exI [of _ "[]"]) simp
next
  case (snoc e es)
  then obtain blks cur where es: "concat blks @ cur = es" and
      inv: "tb_inv io contents good opts blks cur (foldl (\<lambda>b (k, v). TableBuilder_Add io k v b) (TableBuilder_make opts f) es)"
    by blast
  show ?case
    using Add_inv [OF inv assms(1), of "fst e" "snd e"] unfolding es [symmetric] by (simp add: case_prod_unfold)
qed

lemma Finish_filter_ok:
  assumes "tb_inv io contents good opts blks [] b"
  obtains b' where "finishing io contents good opts blks (meta_start io opts blks) b'"
    "Finish_filter io b =
      ((case opt_filter_policy opts of None \<Rightarrow> BlockHandle_make
        | Some p \<Rightarrow> handle_at io kNoCompression (filter_contents io opts p blks) (length (data_bytes io opts blks))), b')"
proof (cases "opt_filter_policy opts")
  case None
  then show ?thesis
    using assms add_index_entry_inv [OF assms]
    by (intro that [of b]) (simp_all add: tb_inv_def finishing_def Finish_filter_def meta_start_def filter_bytes_def)
next
  case (Some p)
  note b = assms [unfolded tb_inv_def]
  define c where "c = filter_contents io opts p blks"
  define fb where "fb = snd (FilterBlockBuilder_Finish (fp_CreateFilter p) (filter_builder io opts p (blks @ [[]])))"
  define b' where "b' = b\<lparr>tb_filter_block := Some (p, fb)\<rparr>"
  have c: "FilterBlockBuilder_Finish (fp_CreateFilter p) (filter_builder io opts p (blks @ [[]])) = (c, fb)"
    by (simp add: c_def fb_def filter_contents_def)
  have good: "good (tb_file b')"
    using b by (simp add: b'_def)
  obtain f where f: "good f" "contents f = contents (tb_file b') @ c @ block_trailer (io_extend io) c kNoCompression"
    "WriteRawBlock io c kNoCompression b' =
      (\<lparr>bh_offset = tb_offset b', bh_size = word_of_nat (length c)\<rparr>,
       b'\<lparr>tb_status := Status_OK, tb_file := f, tb_offset := tb_offset b' + word_of_nat (length c + kBlockTrailerSize)\<rparr>)"
    by (rule WriteRawBlock_ok [OF good])
  have "stored io kNoCompression c = c @ block_trailer (io_extend io) c kNoCompression"
      "length (block_trailer (io_extend io) c kNoCompression) = kBlockTrailerSize"
    by (simp_all add: stored_def compress_block_def block_trailer_def kBlockTrailerSize_def Let_def)
  then have d: "contents f = meta_start io opts blks" "tb_offset b' + word_of_nat (length c + kBlockTrailerSize) = word_of_nat (length (contents f))"
    using f(2) b by (simp_all add: meta_start_def filter_bytes_def Some c_def b'_def)
  have "Finish_filter io b = WriteRawBlock io c kNoCompression b'"
    using b c by (simp add: Finish_filter_def Some TableBuilder_ok_def Status_ok_def Status_OK_def b'_def)
  then show ?thesis
    unfolding f(3) d(2) using b f(1) d(1) add_index_entry_inv [OF assms]
    by (intro that) (simp_all add: finishing_def Some handle_at_def compress_block_def c_def b'_def)
qed

lemma Finish_block:
  assumes "finishing io contents good opts blks d b"
  obtains b' where "WriteBlock io (build_block m es) b = (BlockBuilder_make, handle_at io (opt_compression opts) (block_bytes m es) (length d), b')"
    "finishing io contents good opts blks (d @ stored io (opt_compression opts) (block_bytes m es)) b'"
proof -
  note b = assms [unfolded finishing_def]
  have fl: "good (tb_file b)" "tb_offset b = word_of_nat (length (contents (tb_file b)))"
    using b by simp_all
  obtain f where f: "good f" "contents f = contents (tb_file b) @ stored io (opt_compression (tb_options b)) (block_bytes m es)"
    "WriteBlock io (build_block m es) b =
      (BlockBuilder_make, handle_at io (opt_compression (tb_options b)) (block_bytes m es) (length (contents (tb_file b))),
       b\<lparr>tb_status := Status_OK, tb_file := f, tb_offset := word_of_nat (length (contents f))\<rparr>)"
    by (rule WriteBlock_ok [OF fl])
  show ?thesis
    using f b by (intro that [of "b\<lparr>tb_status := Status_OK, tb_file := f, tb_offset := word_of_nat (length (contents f))\<rparr>"])
      (simp_all add: finishing_def)
qed

lemma Finish_metaindex_ok:
  assumes "finishing io contents good opts blks (meta_start io opts blks) b"
    and "h = (case opt_filter_policy opts of None \<Rightarrow> BlockHandle_make
        | Some p \<Rightarrow> handle_at io kNoCompression (filter_contents io opts p blks) (length (data_bytes io opts blks)))"
  obtains b' where "Finish_metaindex io h b = (ft_metaindex_handle (table_footer io opts blks), b')"
    "finishing io contents good opts blks (index_start io opts blks) b'"
proof -
  obtain b' where b': "WriteBlock io (build_block (opt_restarts opts) (meta_entries io opts blks)) b =
        (BlockBuilder_make, handle_at io (opt_compression opts) (block_bytes (opt_restarts opts) (meta_entries io opts blks))
          (length (meta_start io opts blks)), b')"
      "finishing io contents good opts blks (meta_start io opts blks @
        stored io (opt_compression opts) (block_bytes (opt_restarts opts) (meta_entries io opts blks))) b'"
    by (rule Finish_block [OF assms(1)])
  have "(case tb_filter_block b of None \<Rightarrow> BlockBuilder_make
      | Some _ \<Rightarrow> BlockBuilder_Add (opt_restarts (tb_options b)) (filter_key (opt_filter_policy (tb_options b)))
                    (BlockHandle_EncodeTo h []) BlockBuilder_make) =
      build_block (opt_restarts opts) (meta_entries io opts blks)"
    using assms by (auto simp add: finishing_def meta_entries_def build_block_def split: option.split)
  moreover have "TableBuilder_ok b"
    using assms(1) by (simp add: finishing_def TableBuilder_ok_def Status_ok_def Status_OK_def)
  ultimately have "Finish_metaindex io h b = (ft_metaindex_handle (table_footer io opts blks), b')"
    using b'(1) unfolding Finish_metaindex_def by (simp add: table_footer_def meta_contents_def)
  then show ?thesis
    using b'(2) by (intro that) (simp_all add: index_start_def meta_contents_def)
qed

lemma Finish_index_ok:
  assumes "finishing io contents good opts blks (index_start io opts blks) b"
  obtains b' where "Finish_index io b = (ft_index_handle (table_footer io opts blks), b')"
    "tb_status b' = Status_OK" "good (tb_file b')"
    "contents (tb_file b') = index_start io opts blks @ stored io (opt_compression opts) (index_contents io opts blks)"
    "tb_offset b' = word_of_nat (length (contents (tb_file b')))"
proof -
  note b = assms [unfolded finishing_def]
  have b': "tb_index_block (add_index_entry b) = build_block 1 (index_entries io opts blks)" "TableBuilder_ok b"
    using b by (simp_all add: TableBuilder_ok_def Status_ok_def Status_OK_def)
  have fl: "good (tb_file (add_index_entry b))" "tb_offset (add_index_entry b) = word_of_nat (length (contents (tb_file (add_index_entry b))))"
    using b by simp_all
  obtain f where f: "good f" "contents f = contents (tb_file (add_index_entry b)) @
      stored io (opt_compression (tb_options (add_index_entry b))) (block_bytes 1 (index_entries io opts blks))"
    "WriteBlock io (build_block 1 (index_entries io opts blks)) (add_index_entry b) =
      (BlockBuilder_make, handle_at io (opt_compression (tb_options (add_index_entry b))) (block_bytes 1 (index_entries io opts blks))
         (length (contents (tb_file (add_index_entry b)))),
       (add_index_entry b)\<lparr>tb_status := Status_OK, tb_file := f, tb_offset := word_of_nat (length (contents f))\<rparr>)"
    by (rule WriteBlock_ok [OF fl])
  have "Finish_index io b = (ft_index_handle (table_footer io opts blks), (add_index_entry b)\<lparr>tb_status := Status_OK, tb_file := f,
      tb_offset := word_of_nat (length (contents f)), tb_index_block := BlockBuilder_make\<rparr>)"
    using f(3) b b' unfolding Finish_index_def by (simp add: Let_def table_footer_def index_contents_def)
  then show ?thesis
    using f(1,2) b by (elim that) (simp_all add: index_contents_def)
qed

lemma Finish_ok:
  assumes "tb_inv io contents good opts blks [] (TableBuilder_Flush io b)"
  shows "\<exists>b'. TableBuilder_Finish io b = (Status_OK, b') \<and> good (tb_file b') \<and>
    contents (tb_file b') = table_bytes io opts blks \<and> TableBuilder_FileSize b' = word_of_nat (length (table_bytes io opts blks))"
proof -
  have b: "tb_inv io contents good opts blks [] ((TableBuilder_Flush io b)\<lparr>tb_closed := True\<rparr>)"
    using assms by (simp add: tb_inv_def)
  obtain b1 where b1: "finishing io contents good opts blks (meta_start io opts blks) b1"
    "Finish_filter io ((TableBuilder_Flush io b)\<lparr>tb_closed := True\<rparr>) =
      ((case opt_filter_policy opts of None \<Rightarrow> BlockHandle_make
        | Some p \<Rightarrow> handle_at io kNoCompression (filter_contents io opts p blks) (length (data_bytes io opts blks))), b1)"
    by (rule Finish_filter_ok [OF b])
  obtain b2 where b2: "Finish_metaindex io (case opt_filter_policy opts of None \<Rightarrow> BlockHandle_make
        | Some p \<Rightarrow> handle_at io kNoCompression (filter_contents io opts p blks) (length (data_bytes io opts blks))) b1 =
       (ft_metaindex_handle (table_footer io opts blks), b2)"
    "finishing io contents good opts blks (index_start io opts blks) b2"
    by (rule Finish_metaindex_ok [OF b1(1) refl])
  obtain b3 where b3: "Finish_index io b2 = (ft_index_handle (table_footer io opts blks), b3)"
    "tb_status b3 = Status_OK" "good (tb_file b3)"
    "contents (tb_file b3) = index_start io opts blks @ stored io (opt_compression opts) (index_contents io opts blks)"
    "tb_offset b3 = word_of_nat (length (contents (tb_file b3)))"
    by (rule Finish_index_ok [OF b2(2)])
  define d where "d = Footer_EncodeTo (table_footer io opts blks) []"
  obtain s f where f: "io_append io d (tb_file b3) = (s, f)"
    by fastforce
  then have s: "s = Status_OK" "good f" "contents f = table_bytes io opts blks"
    using append_ok [OF b3(3) f] append_succeeds [OF b3(3), of d] b3(4)
    by (simp_all add: Status_ok_def Status_OK_def table_bytes_def d_def)
  have footer: "Finish_footer io (table_footer io opts blks) b3 =
      b3\<lparr>tb_status := Status_OK, tb_file := f, tb_offset := tb_offset b3 + word_of_nat (length d)\<rparr>"
    using f s(1) b3(2) by (simp add: Finish_footer_def TableBuilder_ok_def Status_ok_def Status_OK_def d_def)
  have fold: "\<lparr>ft_metaindex_handle = ft_metaindex_handle F, ft_index_handle = ft_index_handle F\<rparr> = F" for F
    by simp
  show ?thesis
    unfolding TableBuilder_Finish_def Let_def b1(2) prod.case b2(1) b3(1) fold footer
    using s b3(4,5) by (simp add: TableBuilder_FileSize_def table_bytes_def d_def)
qed

lemma build_ok:
  assumes "0 < opt_restarts opts" "good f" "contents f = []"
  shows "\<exists>blks b. concat blks = es \<and> [] \<notin> set blks \<and>
    TableBuilder_Finish io (foldl (\<lambda>b (k, v). TableBuilder_Add io k v b) (TableBuilder_make opts f) es) = (Status_OK, b) \<and>
    good (tb_file b) \<and> contents (tb_file b) = table_bytes io opts blks \<and>
    TableBuilder_FileSize b = word_of_nat (length (table_bytes io opts blks))"
proof -
  obtain blks cur where es: "concat blks @ cur = es" and
      inv: "tb_inv io contents good opts blks cur (foldl (\<lambda>b (k, v). TableBuilder_Add io k v b) (TableBuilder_make opts f) es)" (is "tb_inv _ _ _ _ _ _ ?b")
    using build_inv [OF assms] by blast
  have "\<exists>blks'. concat blks' = es \<and> tb_inv io contents good opts blks' [] (TableBuilder_Flush io ?b)"
  proof (cases "cur = []")
    case True
    then have "TableBuilder_Flush io ?b = ?b"
      using inv build_block_empty [OF assms(1), of "[]"] unfolding TableBuilder_Flush_def tb_inv_def by simp
    then show ?thesis
      using inv es True by auto
  next
    case False
    then show ?thesis
      using Flush_inv [OF inv False assms(1)] es by (intro exI [of _ "blks @ [cur]"]) simp
  qed
  then obtain blks' where blks': "concat blks' = es" "tb_inv io contents good opts blks' [] (TableBuilder_Flush io ?b)"
    by blast
  then have "[] \<notin> set blks'"
    by (simp add: tb_inv_def)
  then show ?thesis
    using Finish_ok [OF blks'(2)] blks'(1) by blast
qed

end

definition mem_io :: "(u32 \<Rightarrow> bytes \<Rightarrow> nat) \<Rightarrow> Snappy \<Rightarrow> FileState table_io" where
  "mem_io addr sn =
     \<lparr>io_append = WritableFileImpl_Append, io_flush = WritableFileImpl_Flush, io_extend = portable_crc addr, io_snappy = sn\<rparr>"

lemma mem_table_writer: "snappy sn \<Longrightarrow> table_writer (mem_io addr sn) fs_contents fs_inv"
  using mem_writer.log_writer_axioms [of addr] by (simp add: table_writer_def log_writer_def mem_io_def)

interpretation no_snappy: snappy Snappy_none
  by unfold_locales (simp add: Snappy_none_def)

interpretation mem_table: table_writer "mem_io addr Snappy_none" fs_contents fs_inv for addr
  by (rule mem_table_writer) (rule no_snappy.snappy_axioms)

end
