(* ===== verification/Table_Reader.thy ===== *)
theory Table_Reader
  imports Table_Builder
begin

text \<open>
  \<^verbatim>\<open>table/table.cc\<close>: opening a table file and looking up keys in it. \<open>table_file\<close> collects what the code
  reads with: the file, the checksum and the decompression. A callback that the code passes together
  with its argument is a function on the argument. Results are \<^const>\<open>None\<close> where a damaged file would make
  the code read outside a buffer.
\<close>

section \<open>Iterators of a block\<close>

text \<open>\<^verbatim>\<open>EmptyIterator\<close> of \<^verbatim>\<open>table/iterator.cc\<close> is never valid and ignores every move.\<close>

primrec it_Valid :: "block_iterator \<Rightarrow> bool" where
  "it_Valid (ErrorIterator s) = False"
| "it_Valid EmptyIterator = False"
| "it_Valid (Iter it) = BlockIter_Valid it"

primrec it_get_status :: "block_iterator \<Rightarrow> status" where
  "it_get_status (ErrorIterator s) = s"
| "it_get_status EmptyIterator = Status_OK"
| "it_get_status (Iter it) = it_status it"

primrec it_get_key :: "block_iterator \<Rightarrow> bytes" where
  "it_get_key (ErrorIterator s) = []"
| "it_get_key EmptyIterator = []"
| "it_get_key (Iter it) = it_key it"

primrec it_get_value :: "block_iterator \<Rightarrow> bytes" where
  "it_get_value (ErrorIterator s) = []"
| "it_get_value EmptyIterator = []"
| "it_get_value (Iter it) = BlockIter_value it"

primrec it_map :: "(BlockIter \<Rightarrow> BlockIter) \<Rightarrow> block_iterator \<Rightarrow> block_iterator" where
  "it_map move (ErrorIterator s) = ErrorIterator s"
| "it_map move EmptyIterator = EmptyIterator"
| "it_map move (Iter it) = Iter (move it)"

section \<open>Opening\<close>

record ReadOptions =
  ro_verify_checksums :: bool
  ro_fill_cache :: bool

definition ReadOptions_make :: ReadOptions where
  "ReadOptions_make = \<lparr>ro_verify_checksums = False, ro_fill_cache = True\<rparr>"

record table_file =
  tf_read :: "u64 \<Rightarrow> nat \<Rightarrow> status \<times> bytes \<times> bool"
  tf_extend :: "u32 \<Rightarrow> bytes \<Rightarrow> u32"
  tf_snappy :: Snappy

record Table =
  tr_options :: Options
  tr_cache_id :: u64
  tr_filter :: "(FilterPolicy \<times> FilterBlockReader) option"
  tr_metaindex_handle :: BlockHandle
  tr_index_block :: Block

abbreviation table_ReadBlock :: "table_file \<Rightarrow> bool \<Rightarrow> BlockHandle \<Rightarrow> (status \<times> BlockContents) option" where
  "table_ReadBlock tf \<equiv> ReadBlock (tf_read tf) (tf_extend tf) (tf_snappy tf)"

definition Table_ReadFilter :: "table_file \<Rightarrow> bytes \<Rightarrow> FilterPolicy \<Rightarrow> Table \<Rightarrow> Table option" where
  "Table_ReadFilter tf filter_handle_value policy t =
     (let (s, filter_handle, _) = BlockHandle_DecodeFrom filter_handle_value
      in if \<not> Status_ok s then Some t
         else
           map_option
             (\<lambda>(s, block). if \<not> Status_ok s then t
                           else t\<lparr>tr_filter := Some (policy, FilterBlockReader_make (bc_data block))\<rparr>)
             (table_ReadBlock tf (opt_paranoid_checks (tr_options t)) filter_handle))"

definition Table_ReadMeta :: "table_file \<Rightarrow> Footer \<Rightarrow> Table \<Rightarrow> Table option" where
  "Table_ReadMeta tf footer t =
     (case opt_filter_policy (tr_options t) of
        None \<Rightarrow> Some t
      | Some policy \<Rightarrow>
          Option.bind (table_ReadBlock tf (opt_paranoid_checks (tr_options t)) (ft_metaindex_handle footer))
            (\<lambda>(s, contents).
               if \<not> Status_ok s then Some t
               else
                 let meta = Block_make (bc_data contents);
                     key = filter_key (Some policy);
                     iter = it_map (BlockIter_Seek BytewiseComparator_Compare key) (Block_NewIterator meta)
                 in if it_Valid iter \<and> Slice_eq (it_get_key iter) key
                    then Table_ReadFilter tf (it_get_value iter) policy t
                    else Some t))"

text \<open>\<open>cache_id\<close> is the identity that the block cache gives to the table.\<close>

definition Table_Open :: "table_file \<Rightarrow> u64 \<Rightarrow> Options \<Rightarrow> u64 \<Rightarrow> (status \<times> Table option) option" where
  "Table_Open tf cache_id options file_size =
     (if unat file_size < kEncodedLength then Some (Corruption ''file is too short to be an sstable'', None)
      else
        let (s, footer_input, _) = tf_read tf (file_size - word_of_nat kEncodedLength) kEncodedLength
        in if \<not> Status_ok s then Some (s, None)
           else if length footer_input < kEncodedLength then None
           else
             let (s, footer) = Footer_DecodeFrom footer_input
             in if \<not> Status_ok s then Some (s, None)
                else
                  Option.bind (table_ReadBlock tf (opt_paranoid_checks options) (ft_index_handle footer))
                    (\<lambda>(s, index_block_contents).
                       if \<not> Status_ok s then Some (s, None)
                       else
                         let rep = \<lparr>tr_options = options, tr_cache_id = cache_id, tr_filter = None,
                                    tr_metaindex_handle = ft_metaindex_handle footer,
                                    tr_index_block = Block_make (bc_data index_block_contents)\<rparr>
                         in map_option (\<lambda>t. (s, Some t)) (Table_ReadMeta tf footer rep)))"

section \<open>Reading blocks\<close>

text \<open>
  The block cache is its lookup; \<^const>\<open>None\<close> is a null pointer. The second component of the result is the
  block that is inserted into the cache, with its key.
\<close>

definition cache_key :: "Table \<Rightarrow> BlockHandle \<Rightarrow> bytes" where
  "cache_key t handle = Fixed64 (tr_cache_id t) @ Fixed64 (bh_offset handle)"

definition Table_BlockReader ::
  "table_file \<Rightarrow> (bytes \<Rightarrow> Block option) option \<Rightarrow> Table \<Rightarrow> ReadOptions \<Rightarrow> bytes \<Rightarrow>
    (block_iterator \<times> (bytes \<times> Block) option) option" where
  "Table_BlockReader tf block_cache t options index_value =
     (let (s, handle, _) = BlockHandle_DecodeFrom index_value
      in if \<not> Status_ok s then Some (ErrorIterator s, None)
         else
           let cached = Option.bind block_cache (\<lambda>lookup. lookup (cache_key t handle))
           in case cached of
                Some block \<Rightarrow> Some (Block_NewIterator block, None)
              | None \<Rightarrow>
                  map_option
                    (\<lambda>(s, contents).
                       if \<not> Status_ok s then (ErrorIterator s, None)
                       else
                         let block = Block_make (bc_data contents)
                         in (Block_NewIterator block,
                             if block_cache \<noteq> None \<and> bc_cachable contents \<and> ro_fill_cache options
                             then Some (cache_key t handle, block) else None))
                    (table_ReadBlock tf (ro_verify_checksums options) handle))"

definition Table_VBlockReader :: "table_file \<Rightarrow> Table \<Rightarrow> ReadOptions \<Rightarrow> bytes \<Rightarrow> block_iterator option" where
  "Table_VBlockReader tf t options index_value =
     (let (s, handle, _) = BlockHandle_DecodeFrom index_value
      in if \<not> Status_ok s then Some (ErrorIterator s)
         else
           map_option
             (\<lambda>(s, contents).
                if \<not> Status_ok s then ErrorIterator s else Block_NewIterator (Block_make (bc_data contents)))
             (table_ReadBlock tf (ro_verify_checksums options) handle))"

section \<open>Lookups\<close>

definition Table_InternalGet ::
  "table_file \<Rightarrow> (bytes \<Rightarrow> Block option) option \<Rightarrow> Table \<Rightarrow> ReadOptions \<Rightarrow> bytes \<Rightarrow> (bytes \<Rightarrow> bytes \<Rightarrow> 'a \<Rightarrow> 'a) \<Rightarrow> 'a \<Rightarrow>
    (status \<times> 'a) option" where
  "Table_InternalGet tf block_cache t options k handle_result arg =
     (let iiter = it_map (BlockIter_Seek (opt_comparator (tr_options t)) k) (Block_NewIterator (tr_index_block t))
      in if \<not> it_Valid iiter then Some (it_get_status iiter, arg)
         else
           let (s, handle, _) = BlockHandle_DecodeFrom (it_get_value iiter);
               skip = (case tr_filter t of
                         None \<Rightarrow> False
                       | Some (policy, filter_reader) \<Rightarrow>
                           Status_ok s \<and>
                           \<not> FilterBlockReader_KeyMayMatch (fp_KeyMayMatch policy) (bh_offset handle) k filter_reader)
           in if skip then Some (it_get_status iiter, arg)
              else
                map_option
                  (\<lambda>(block_iter, _).
                     let block_iter = it_map (BlockIter_Seek (opt_comparator (tr_options t)) k) block_iter;
                         arg = (if it_Valid block_iter
                                then handle_result (it_get_key block_iter) (it_get_value block_iter) arg else arg);
                         s = it_get_status block_iter
                     in (if Status_ok s then it_get_status iiter else s, arg))
                  (Table_BlockReader tf block_cache t options (it_get_value iiter)))"

definition index_entry :: "Table \<Rightarrow> nat \<Rightarrow> block_iterator" where
  "index_entry t block_number =
     (it_map BlockIter_Next ^^ block_number) (it_map BlockIter_SeekToFirst (Block_NewIterator (tr_index_block t)))"

text \<open>
  A value table is read at a block number and an offset in the block. \<open>SeekToNth\<close> may read past the
  block, which is \<^const>\<open>None\<close>.
\<close>

definition Table_InternalVGet ::
  "table_file \<Rightarrow> Table \<Rightarrow> ReadOptions \<Rightarrow> (bytes \<Rightarrow> bytes \<Rightarrow> 'a \<Rightarrow> 'a) \<Rightarrow> nat \<Rightarrow> nat \<Rightarrow> 'a \<Rightarrow> (status \<times> 'a) option" where
  "Table_InternalVGet tf t options handle_result block_number block_offset arg =
     (let iiter = index_entry t block_number
      in if \<not> it_Valid iiter then Some (it_get_status iiter, arg)
         else
           Option.bind (Table_VBlockReader tf t options (it_get_value iiter)) (\<lambda>block_iter.
           Option.bind (case block_iter of Iter it \<Rightarrow> map_option Iter (BlockIter_SeekToNth block_offset it) | other \<Rightarrow> Some other)
             (\<lambda>block_iter.
                let arg = (if it_Valid block_iter
                           then handle_result (it_get_key block_iter) (it_get_value block_iter) arg else arg);
                    s = it_get_status block_iter
                in Some (if Status_ok s then it_get_status iiter else s, arg))))"

lemma ParseNextKey_fails: "ParseNextKey it = (False, it') \<Longrightarrow> \<not> BlockIter_Valid it'"
  by (auto simp add: ParseNextKey_def CorruptionError_def BlockIter_Valid_def Let_def split: if_splits option.splits)

function MergedVGet_loop :: "('a \<Rightarrow> bool) \<Rightarrow> (bytes \<Rightarrow> bytes \<Rightarrow> 'a \<Rightarrow> 'a) \<Rightarrow> BlockIter \<Rightarrow> 'a \<Rightarrow> BlockIter \<times> 'a" where
  "MergedVGet_loop found handle_result it arg =
     (if \<not> BlockIter_Valid it then (it, arg)
      else
        let arg = handle_result (it_key it) (BlockIter_value it) arg
        in if found arg then (it, arg) else MergedVGet_loop found handle_result (BlockIter_Next it) arg)"
  by pat_completeness auto
termination
proof (relation "measure (\<lambda>(_, _, it, _). if BlockIter_Valid it then Suc (scan_measure it) else 0)")
  fix found and handle_result :: "bytes \<Rightarrow> bytes \<Rightarrow> 'a \<Rightarrow> 'a" and it and arg x :: 'a
  assume "\<not> \<not> BlockIter_Valid it"
  then show "((found, handle_result, BlockIter_Next it, x), found, handle_result, it, arg)
      \<in> measure (\<lambda>(_, _, it, _). if BlockIter_Valid it then Suc (scan_measure it) else 0)"
    using ParseNextKey_fails [of it] ParseNextKey_measure [of it]
    by (cases "ParseNextKey it") (auto simp add: BlockIter_Next_def)
qed simp

declare MergedVGet_loop.simps [simp del]

text \<open>\<open>found\<close> and \<open>set_found\<close> read and write the state of the saver that \<open>arg\<close> is.\<close>

definition Table_MergedVGet ::
  "table_file \<Rightarrow> Table \<Rightarrow> ReadOptions \<Rightarrow> ('a \<Rightarrow> bool) \<Rightarrow> ('a \<Rightarrow> 'a) \<Rightarrow> (bytes \<Rightarrow> bytes \<Rightarrow> 'a \<Rightarrow> 'a) \<Rightarrow> nat \<Rightarrow> 'a \<Rightarrow>
    (status \<times> 'a) option" where
  "Table_MergedVGet tf t options found set_found handle_result block_number arg =
     (let iiter = index_entry t block_number
      in if \<not> it_Valid iiter then
           let s = it_get_status iiter in Some (s, set_found arg)
         else
           map_option
             (\<lambda>block_iter.
                let (s, arg) =
                      (case block_iter of
                         Iter it \<Rightarrow>
                           (case MergedVGet_loop found handle_result (BlockIter_SeekToFirst it) arg of
                              (it, arg) \<Rightarrow> (it_status it, arg))
                       | other \<Rightarrow> (it_get_status other, arg))
                in if Status_ok s then (it_get_status iiter, set_found arg) else (s, arg))
             (Table_VBlockReader tf t options (it_get_value iiter)))"

definition Table_ApproximateOffsetOf :: "Table \<Rightarrow> bytes \<Rightarrow> u64" where
  "Table_ApproximateOffsetOf t key =
     (let index_iter = it_map (BlockIter_Seek (opt_comparator (tr_options t)) key) (Block_NewIterator (tr_index_block t))
      in if it_Valid index_iter then
           let (s, handle, _) = BlockHandle_DecodeFrom (it_get_value index_iter)
           in if Status_ok s then bh_offset handle else bh_offset (tr_metaindex_handle t)
         else bh_offset (tr_metaindex_handle t))"

section \<open>Reading a table that was written\<close>

definition table_file_of :: "(u64 \<Rightarrow> nat \<Rightarrow> 'r \<Rightarrow> status \<times> bytes \<times> bool) \<Rightarrow> 'f table_io \<Rightarrow> 'r \<Rightarrow> table_file" where
  "table_file_of read io r =
     \<lparr>tf_read = (\<lambda>offset n. read offset n r), tf_extend = io_extend io, tf_snappy = io_snappy io\<rparr>"

text \<open>The table that opening the file of the blocks \<open>blks\<close> gives.\<close>

definition opened :: "'f table_io \<Rightarrow> Options \<Rightarrow> u64 \<Rightarrow> (bytes \<times> bytes) list list \<Rightarrow> Table" where
  "opened io opts cid blks =
     \<lparr>tr_options = opts, tr_cache_id = cid,
      tr_filter = map_option (\<lambda>p. (p, FilterBlockReader_make (filter_contents io opts p blks))) (opt_filter_policy opts),
      tr_metaindex_handle = ft_metaindex_handle (table_footer io opts blks),
      tr_index_block = Block_make (index_contents io opts blks)\<rparr>"

locale table_reader = random_access_file read contents good + checksum "io_extend io" + snappy "io_snappy io"
  for read :: "u64 \<Rightarrow> nat \<Rightarrow> 'r \<Rightarrow> status \<times> bytes \<times> bool" and contents good and io :: "'f table_io"
begin


lemma trailer_checksum:
  "io_extend io 0 (c @ [CompressionType_byte t]) = Unmask (GetFixed32 (drop 1 (block_trailer (io_extend io) c t)))"
  using DecodeFixed32_EncodeFixed32 [where v = "Mask (io_extend io 0 (c @ [CompressionType_byte t]))" and rest = "[]"]
  by (simp add: block_trailer_def Let_def ext_append Unmask_Mask)

lemma ReadBlock_stored:
  assumes "good r" "contents r = pre @ stored io ctype raw @ post" "length (contents r) < 2 ^ 64"
  shows "\<exists>bc. table_ReadBlock (table_file_of read io r) verify (handle_at io ctype raw (length pre)) = Some (Status_OK, bc) \<and>
    bc_data bc = raw"
proof -
  obtain c t where c: "compress_block (io_snappy io) ctype raw = (c, t)"
    by fastforce
  define tr where "tr = block_trailer (io_extend io) c t"
  have tr: "length tr = 5" "tr ! 0 = CompressionType_byte t" "take 1 tr = [CompressionType_byte t]"
    by (simp_all add: tr_def block_trailer_def Let_def)
  have r: "contents r = pre @ c @ tr @ post"
    using assms(2) c by (simp add: stored_def tr_def)
  have len: "length pre < 2 ^ 64" "length c + 5 < 2 ^ 64"
    using assms(3) tr(1) by (simp_all add: r)
  have ofs: "unat (word_of_nat (length pre) :: u64) = length pre" "unat (word_of_nat (length c) :: u64) = length c"
      "unat (word_of_nat (length c) + word_of_nat kBlockTrailerSize :: u64) = length c + 5"
    using len unfolding kBlockTrailerSize_def of_nat_add [symmetric]
    by (simp_all add: unsigned_of_nat take_bit_nat_eq_self del: of_nat_add)
  obtain in_buf where rd: "read (word_of_nat (length pre)) (length c + 5) r = (Status_OK, c @ tr, in_buf)"
    using read_at [OF assms(1), of "word_of_nat (length pre)" "length c + 5"] tr(1) unfolding ofs r by auto
  have crc: "io_extend io 0 (take (length c + 1) (c @ tr)) = Unmask (GetFixed32 (drop (length c + 1) (c @ tr)))"
    using trailer_checksum [of c t] tr by (simp add: tr_def)
  have kind: "(c @ tr) ! length c = CompressionType_byte t"
    using tr(2) by (simp add: nth_append)
  have uncompress: "t = kNoCompression \<and> c = raw \<or> t = kSnappyCompression \<and>
      Snappy_GetUncompressedLength (io_snappy io) c = Some (length raw) \<and> Snappy_Uncompress (io_snappy io) c = Some raw"
    using c uncompress [of raw c] by (cases ctype) (auto simp add: compress_block_def split: option.splits if_splits)
  show ?thesis
    using uncompress tr(1) kind crc
    unfolding ReadBlock_def handle_at_def c table_file_of_def
    by (auto simp add: Let_def rd ofs Status_ok_def Status_OK_def)
qed

lemma ReadFilter_ok:
  assumes "good r" "contents r = table_bytes io opts blks" "length (table_bytes io opts blks) < 2 ^ 64"
    and "opt_filter_policy opts = Some p"
    and "h = handle_at io kNoCompression (filter_contents io opts p blks) (length (data_bytes io opts blks))"
  shows "Table_ReadFilter (table_file_of read io r) (BlockHandle_EncodeTo h []) p t =
    Some (t\<lparr>tr_filter := Some (p, FilterBlockReader_make (filter_contents io opts p blks))\<rparr>)"
proof -
  have "contents r = data_bytes io opts blks @ stored io kNoCompression (filter_contents io opts p blks) @
      (stored io (opt_compression opts) (meta_contents io opts blks) @ stored io (opt_compression opts) (index_contents io opts blks) @
       Footer_EncodeTo (table_footer io opts blks) [])"
    using assms(2,4) by (simp add: table_bytes_def index_start_def meta_start_def filter_bytes_def)
  from ReadBlock_stored [OF assms(1) this] assms(2,3)
  obtain bc where "table_ReadBlock (table_file_of read io r) (opt_paranoid_checks (tr_options t)) h = Some (Status_OK, bc)"
      "bc_data bc = filter_contents io opts p blks"
    unfolding assms(5) by auto
  then show ?thesis
    using BlockHandle_codec [of h "[]"] by (simp add: Table_ReadFilter_def Status_ok_def Status_OK_def)
qed

lemma ReadMeta_ok:
  assumes "good r" "contents r = table_bytes io opts blks" "length (table_bytes io opts blks) < 2 ^ 64"
    and "length (meta_contents io opts blks) < 2 ^ 32" "0 < opt_restarts opts" "tr_options t = opts" "tr_filter t = None"
  shows "Table_ReadMeta (table_file_of read io r) (table_footer io opts blks) t =
    Some (t\<lparr>tr_filter := map_option (\<lambda>p. (p, FilterBlockReader_make (filter_contents io opts p blks))) (opt_filter_policy opts)\<rparr>)"
proof (cases "opt_filter_policy opts")
  case None
  then show ?thesis
    using assms(6,7) by (simp add: Table_ReadMeta_def)
next
  case (Some p)
  define h where "h = handle_at io kNoCompression (filter_contents io opts p blks) (length (data_bytes io opts blks))"
  define es where "es = [(filter_key (Some p), BlockHandle_EncodeTo h [])]"
  have meta: "meta_contents io opts blks = block_bytes (opt_restarts opts) es"
    by (simp add: meta_contents_def meta_entries_def Some es_def h_def)
  have "contents r = meta_start io opts blks @ stored io (opt_compression opts) (meta_contents io opts blks) @
      (stored io (opt_compression opts) (index_contents io opts blks) @ Footer_EncodeTo (table_footer io opts blks) [])"
    using assms(2) by (simp add: table_bytes_def index_start_def)
  from ReadBlock_stored [OF assms(1) this] assms(2,3)
  obtain bc where bc: "table_ReadBlock (table_file_of read io r) (opt_paranoid_checks opts) (ft_metaindex_handle (table_footer io opts blks)) =
      Some (Status_OK, bc)" "bc_data bc = meta_contents io opts blks"
    by (auto simp add: table_footer_def)
  have "\<not> BytewiseComparator_Compare (filter_key (Some p)) (filter_key (Some p)) < 0"
    using bytewise.user.cmp_eq_0 by simp
  then obtain it where it: "Block_NewIterator (Block_make (meta_contents io opts blks)) = Iter it"
      "shows_entry (BlockIter_Seek BytewiseComparator_Compare (filter_key (Some p)) it) (filter_key (Some p), BlockHandle_EncodeTo h [])"
    using bytewise.user.Seek_block [of "opt_restarts opts" es "filter_key (Some p)"] assms(4,5)
    by (auto simp add: meta block_bytes_def es_def Let_def)
  have "Slice_eq (filter_key (Some p)) (filter_key (Some p))"
    by (simp add: Slice_eq_def)
  then show ?thesis
    using bc it ReadFilter_ok [OF assms(1-3) Some h_def] assms(6)
    by (simp add: Table_ReadMeta_def Some Status_ok_def Status_OK_def shows_entry_def)
qed

lemma Open_ok:
  assumes "good r" "contents r = table_bytes io opts blks" "length (table_bytes io opts blks) < 2 ^ 64"
    and "length (meta_contents io opts blks) < 2 ^ 32" "0 < opt_restarts opts"
  shows "Table_Open (table_file_of read io r) cid opts (word_of_nat (length (table_bytes io opts blks))) =
    Some (Status_OK, Some (opened io opts cid blks))"
proof -
  define pre where "pre = index_start io opts blks @ stored io (opt_compression opts) (index_contents io opts blks)"
  define foot where "foot = Footer_EncodeTo (table_footer io opts blks) []"
  have r: "table_bytes io opts blks = pre @ foot"
    by (simp add: table_bytes_def pre_def foot_def)
  have foot: "length foot = kEncodedLength" "Footer_DecodeFrom foot = (Status_OK, table_footer io opts blks)"
    using footer_codec [of "table_footer io opts blks"] by (simp_all add: foot_def)
  have ofs: "unat (word_of_nat (length (pre @ foot)) :: u64) = length pre + kEncodedLength"
      "unat (word_of_nat (length (pre @ foot)) - word_of_nat kEncodedLength :: u64) = length pre"
  proof -
    have "length (pre @ foot) = length pre + kEncodedLength" "length pre + kEncodedLength < 2 ^ 64"
      using assms(3) foot(1) by (simp_all add: r)
    moreover have "word_of_nat (length pre + kEncodedLength) - word_of_nat kEncodedLength = (word_of_nat (length pre) :: u64)"
      by simp
    ultimately show "unat (word_of_nat (length (pre @ foot)) :: u64) = length pre + kEncodedLength"
        "unat (word_of_nat (length (pre @ foot)) - word_of_nat kEncodedLength :: u64) = length pre"
      by (simp_all add: unsigned_of_nat take_bit_nat_eq_self del: of_nat_add)
  qed
  obtain in_buf where rd: "read (word_of_nat (length (pre @ foot)) - word_of_nat kEncodedLength) kEncodedLength r = (Status_OK, foot, in_buf)"
    using read_at [OF assms(1), of "word_of_nat (length (pre @ foot)) - word_of_nat kEncodedLength" kEncodedLength] foot(1) assms(2)
    unfolding ofs r by auto
  have "contents r = index_start io opts blks @ stored io (opt_compression opts) (index_contents io opts blks) @ foot"
    using assms(2) by (simp add: table_bytes_def foot_def)
  from ReadBlock_stored [OF assms(1) this] assms(2,3)
  obtain bc where bc: "table_ReadBlock (table_file_of read io r) (opt_paranoid_checks opts) (ft_index_handle (table_footer io opts blks)) =
      Some (Status_OK, bc)" "bc_data bc = index_contents io opts blks"
    by (auto simp add: table_footer_def)
  have tf: "tf_read (table_file_of read io r) a n = read a n r" for a n
    by (simp add: table_file_of_def)
  show ?thesis
    using bc(2) ReadMeta_ok [OF assms] foot(1)
    unfolding Table_Open_def r ofs tf rd Let_def prod.case foot(2) bc(1)
    by (simp add: Status_ok_def Status_OK_def opened_def)
qed

end

lemma index_keys: "map fst (index_entries io opts blks) = map (\<lambda>blk. fst (last blk)) blks"
  by (rule nth_equalityI) (simp_all add: index_entries_def)

definition cache_holds :: "'f table_io \<Rightarrow> Options \<Rightarrow> u64 \<Rightarrow> (bytes \<times> bytes) list list \<Rightarrow> (bytes \<Rightarrow> Block option) option \<Rightarrow> bool" where
  "cache_holds io opts cid blks cache \<longleftrightarrow>
     (\<forall>lookup b. \<forall>i<length blks. cache = Some lookup \<and> lookup (cache_key (opened io opts cid blks) (data_handle io opts blks i)) = Some b \<longrightarrow>
        b = Block_make (block_bytes (opt_restarts opts) (blks ! i)))"

lemma table_bytes_block:
  assumes "i < length blks"
  obtains post where "table_bytes io opts blks =
    data_bytes io opts (take i blks) @ stored io (opt_compression opts) (block_bytes (opt_restarts opts) (blks ! i)) @ post"
proof -
  have "data_bytes io opts (take i blks @ blks ! i # drop (Suc i) blks) = data_bytes io opts (take i blks) @
      stored io (opt_compression opts) (block_bytes (opt_restarts opts) (blks ! i)) @ data_bytes io opts (drop (Suc i) blks)"
    by (simp add: data_bytes_def)
  then show ?thesis
    unfolding id_take_nth_drop [OF assms, symmetric] using that
    by (simp add: table_bytes_def index_start_def meta_start_def)
qed

context table_reader
begin

lemma BlockReader_ok:
  assumes "good r" "contents r = table_bytes io opts blks" "length (table_bytes io opts blks) < 2 ^ 64"
    and "i < length blks" "cache_holds io opts cid blks cache"
  obtains ins where "Table_BlockReader (table_file_of read io r) cache (opened io opts cid blks) ro
      (BlockHandle_EncodeTo (data_handle io opts blks i) []) = Some (Block_NewIterator (Block_make (block_bytes (opt_restarts opts) (blks ! i))), ins)"
    "ins = None \<or> ins = Some (cache_key (opened io opts cid blks) (data_handle io opts blks i),
      Block_make (block_bytes (opt_restarts opts) (blks ! i)))"
proof -
  let ?h = "data_handle io opts blks i"
  obtain post where "contents r = data_bytes io opts (take i blks) @
      stored io (opt_compression opts) (block_bytes (opt_restarts opts) (blks ! i)) @ post"
    using table_bytes_block [OF assms(4)] assms(2) by metis
  from ReadBlock_stored [OF assms(1) this] assms(2,3)
  obtain bc where bc: "table_ReadBlock (table_file_of read io r) (ro_verify_checksums ro) ?h = Some (Status_OK, bc)"
      "bc_data bc = block_bytes (opt_restarts opts) (blks ! i)"
    by (auto simp add: data_handle_def)
  show ?thesis
  proof (cases "Option.bind cache (\<lambda>lookup. lookup (cache_key (opened io opts cid blks) ?h))")
    case None
    then show ?thesis
      using bc BlockHandle_codec [of ?h "[]"]
      by (intro that [of "if cache \<noteq> None \<and> bc_cachable bc \<and> ro_fill_cache ro
          then Some (cache_key (opened io opts cid blks) ?h, Block_make (block_bytes (opt_restarts opts) (blks ! i))) else None"])
        (simp_all add: Table_BlockReader_def Status_ok_def Status_OK_def Let_def)
  next
    case (Some b)
    then have "b = Block_make (block_bytes (opt_restarts opts) (blks ! i))"
      using assms(4,5) by (auto simp add: cache_holds_def bind_eq_Some_conv)
    then show ?thesis
      using Some BlockHandle_codec [of ?h "[]"] by (intro that [of None]) (simp_all add: Table_BlockReader_def Status_ok_def Status_OK_def)
  qed
qed

end

locale table_search = table_reader read contents good io + comparator cmp valid
  for read :: "u64 \<Rightarrow> nat \<Rightarrow> 'r \<Rightarrow> status \<times> bytes \<times> bool" and contents good and io :: "'f table_io" and cmp valid
begin

lemma before_last:
  assumes "sorted_wrt (\<lambda>a b. cmp a b < 0) (map fst blk)" "\<forall>e\<in>set blk. valid (fst e)" "valid target" "blk \<noteq> []"
    and "cmp (fst (last blk)) target < 0" "e \<in> set blk"
  shows "cmp (fst e) target < 0"
proof -
  obtain es l where blk: "blk = es @ [l]"
    using assms(4) by (metis rev_exhaust)
  show ?thesis
    using assms cmp_less_trans [of "fst e" "fst l" target] by (auto simp add: blk sorted_wrt_append)
qed

lemma locate:
  assumes "sorted_wrt (\<lambda>a b. cmp a b < 0) (map fst (concat blks))" "\<forall>e\<in>set (concat blks). valid (fst e)" "valid target" "[] \<notin> set blks"
  shows "dropWhile (\<lambda>e. cmp (fst e) target < 0) (concat blks) = [] \<and>
      dropWhile (\<lambda>e. cmp (fst e) target < 0) (index_entries io opts blks) = [] \<or>
    (\<exists>i e es es' is. i < length blks \<and> dropWhile (\<lambda>e. cmp (fst e) target < 0) (concat blks) = e # es' \<and>
       dropWhile (\<lambda>e. cmp (fst e) target < 0) (blks ! i) = e # es \<and> e \<in> set (blks ! i) \<and>
       dropWhile (\<lambda>e. cmp (fst e) target < 0) (index_entries io opts blks) =
         (fst (last (blks ! i)), BlockHandle_EncodeTo (data_handle io opts blks i) []) # is)"
proof -
  let ?P = "\<lambda>e :: bytes \<times> bytes. cmp (fst e) target < 0"
  have block: "?P e" if "j < length blks" "?P (last (blks ! j))" "e \<in> set (blks ! j)" for e j
  proof (rule before_last [OF sorted_nth_concat [OF that(1) assms(1)] _ assms(3) _ that(2,3)])
    show "\<forall>e\<in>set (blks ! j). valid (fst e)"
      using assms(2) set_nth_concat [OF that(1)] by blast
    show "blks ! j \<noteq> []"
      using assms(4) that(1) by (metis nth_mem)
  qed
  show ?thesis
  proof (cases "\<exists>i<length blks. \<not> ?P (last (blks ! i))")
    case False
    then have "\<forall>e\<in>set (concat blks). ?P e"
      using block by (fastforce simp add: in_set_conv_nth [of _ blks])
    moreover have "\<forall>e\<in>set (index_entries io opts blks). ?P e"
      using False by (auto simp add: index_entries_def)
    ultimately show ?thesis
      by (simp add: dropWhile_eq_Nil_conv)
  next
    case True
    define i where "i = (LEAST i. i < length blks \<and> \<not> ?P (last (blks ! i)))"
    have i: "i < length blks" "\<not> ?P (last (blks ! i))"
      unfolding i_def using LeastI_ex [OF True] by simp_all
    have before: "?P (last (blks ! j))" if "j < i" for j
      using not_less_Least [of j "\<lambda>i. i < length blks \<and> \<not> ?P (last (blks ! i))"] that i(1) unfolding i_def by auto
    have mem: "last (blks ! i) \<in> set (blks ! i)"
      using assms(4) i(1) by (metis last_in_set nth_mem)
    have "dropWhile ?P (blks ! i) \<noteq> []"
      using mem i(2) by (auto simp add: dropWhile_eq_Nil_conv)
    then obtain e es where e: "dropWhile ?P (blks ! i) = e # es"
      by (cases "dropWhile ?P (blks ! i)") simp_all
    have "concat (take i blks @ blks ! i # drop (Suc i) blks) = concat (take i blks) @ blks ! i @ concat (drop (Suc i) blks)"
      by simp
    then have "concat blks = concat (take i blks) @ blks ! i @ concat (drop (Suc i) blks)"
      unfolding id_take_nth_drop [OF i(1), symmetric] .
    moreover have "?P e" if mem_take: "e \<in> set (concat (take i blks))" for e
    proof -
      obtain j where "j < i" "j < length blks" "e \<in> set (blks ! j)"
        using mem_take i(1) by (auto simp add: in_set_conv_nth [of _ "take i blks"])
      then show ?thesis
        using block before by blast
    qed
    ultimately have "dropWhile ?P (concat blks) = dropWhile ?P (blks ! i @ concat (drop (Suc i) blks))"
      by (simp only: dropWhile_append2)
    also have "\<dots> = e # es @ concat (drop (Suc i) blks)"
      using dropWhile_append1 [of _ "blks ! i" ?P, OF mem i(2)] e by simp
    finally have "dropWhile ?P (concat blks) = e # es @ concat (drop (Suc i) blks)" .
    moreover have "dropWhile ?P (index_entries io opts blks) =
        index_entries io opts blks ! i # drop (Suc i) (index_entries io opts blks)"
      using i before by (intro dropWhile_first) (simp_all add: index_entries_def)
    moreover have "e \<in> set (blks ! i)"
      using e by (metis list.set_intros(1) set_dropWhileD)
    ultimately show ?thesis
      using i(1) e by (intro disjI2 exI conjI) (auto simp add: index_entries_def)
  qed
qed

lemma InternalGet_ok:
  assumes "good r" "contents r = table_bytes io opts blks" "length (table_bytes io opts blks) < 2 ^ 64"
    and "opt_comparator opts = cmp" "0 < opt_restarts opts" "cache_holds io opts cid blks cache"
    and "sorted_wrt (\<lambda>a b. cmp a b < 0) (map fst (concat blks))" "\<forall>e\<in>set (concat blks). valid (fst e)" "valid k" "[] \<notin> set blks"
    and "length (index_contents io opts blks) < 2 ^ 32" "\<forall>blk\<in>set blks. length (block_bytes (opt_restarts opts) blk) < 2 ^ 32"
  shows "case dropWhile (\<lambda>e. cmp (fst e) k < 0) (concat blks) of
      [] \<Rightarrow> Table_InternalGet (table_file_of read io r) cache (opened io opts cid blks) ro k handle arg = Some (Status_OK, arg)
    | e # _ \<Rightarrow> \<exists>i<length blks. e \<in> set (blks ! i) \<and>
        Table_InternalGet (table_file_of read io r) cache (opened io opts cid blks) ro k handle arg =
          Some (Status_OK,
            if \<forall>p. opt_filter_policy opts = Some p \<longrightarrow>
              FilterBlockReader_KeyMayMatch (fp_KeyMayMatch p) (word_of_nat (length (data_bytes io opts (take i blks)))) k
                (FilterBlockReader_make (filter_contents io opts p blks))
            then handle (fst e) (snd e) arg else arg)"
proof -
  have index: "sorted_wrt (\<lambda>a b. cmp a b < 0) (map fst (index_entries io opts blks))" "\<forall>key\<in>set (map fst (index_entries io opts blks)). valid key"
    unfolding index_keys using sorted_lasts [OF assms(7,10)] assms(8,10) by (auto simp add: last_in_set) (metis last_in_set)
  obtain it where it: "Block_NewIterator (tr_index_block (opened io opts cid blks)) = Iter it"
      "it_status (BlockIter_Seek cmp k it) = Status_OK"
      "case dropWhile (\<lambda>e. cmp (fst e) k < 0) (index_entries io opts blks) of [] \<Rightarrow> \<not> BlockIter_Valid (BlockIter_Seek cmp k it)
       | e # _ \<Rightarrow> shows_entry (BlockIter_Seek cmp k it) e"
    using Seek_block [of 1 "index_entries io opts blks" k] index assms(9,11)
    by (auto simp add: opened_def index_contents_def block_bytes_def Let_def)
  show ?thesis
    using locate [OF assms(7-10), of opts]
  proof (elim disjE exE conjE)
    assume none: "dropWhile (\<lambda>e. cmp (fst e) k < 0) (concat blks) = []" "dropWhile (\<lambda>e. cmp (fst e) k < 0) (index_entries io opts blks) = []"
    show ?thesis
      using it(1,2) it(3) [unfolded none(2)] assms(4) unfolding none(1) by (simp add: Table_InternalGet_def opened_def)
  next
    fix i e es es' "is"
    assume i: "i < length blks" and e: "dropWhile (\<lambda>e. cmp (fst e) k < 0) (concat blks) = e # es'"
        "dropWhile (\<lambda>e. cmp (fst e) k < 0) (blks ! i) = e # es" "e \<in> set (blks ! i)"
      and entry: "dropWhile (\<lambda>e. cmp (fst e) k < 0) (index_entries io opts blks) =
        (fst (last (blks ! i)), BlockHandle_EncodeTo (data_handle io opts blks i) []) # is"
    obtain ins where ins: "Table_BlockReader (table_file_of read io r) cache (opened io opts cid blks) ro
      (BlockHandle_EncodeTo (data_handle io opts blks i) []) = Some (Block_NewIterator (Block_make (block_bytes (opt_restarts opts) (blks ! i))), ins)"
      using BlockReader_ok [OF assms(1-3) i assms(6)] by metis
    have valid: "\<forall>e\<in>set (blks ! i). valid (fst e)"
      using assms(8) set_nth_concat [OF i] by blast
    obtain bit where bit: "Block_NewIterator (Block_make (block_bytes (opt_restarts opts) (blks ! i))) = Iter bit"
        "it_status (BlockIter_Seek cmp k bit) = Status_OK" "shows_entry (BlockIter_Seek cmp k bit) e"
      using Seek_block [of "opt_restarts opts" "blks ! i" k] e(2) assms(5,9,12) sorted_nth_concat [OF i assms(7)] valid i
      by (auto simp add: block_bytes_def Let_def)
    show ?thesis
      using it(1,2) it(3) [unfolded entry] ins bit i e(3) assms(4) BlockHandle_codec [of "data_handle io opts blks i" "[]"] unfolding e(1)
      by (auto simp add: Table_InternalGet_def opened_def shows_entry_def Status_ok_def Status_OK_def data_handle_def handle_at_def Let_def
          split: option.split)
  qed
qed

end

end
