(* ===== verification/Table_Properties.thy ===== *)
theory Table_Properties
  imports Table_Reader
begin

text \<open>
  What a table file is for: lookups in a finished file answer like the list of entries it was built
  from. The sizes of blocks are bounded by the sizes of the entries, blocks lie at different offsets, the
  block cache holds only blocks of the file, and the filters cover their blocks.
\<close>

section \<open>Sizes\<close>

lemma length_varint32: "length (EncodeVarint32 v) \<le> 5"
  by (rule length_EncodeVarint32_le)

lemma length_block_entry: "length (block_entry e) \<le> 15 + length (fst e) + length (snd e)" "length (fst e) \<le> length (block_entry e)"
  unfolding block_entry_def entry_header_def
  using length_varint32 [of 0] length_varint32 [of "word_of_nat (length (fst e))"] length_varint32 [of "word_of_nat (length (snd e))"]
  by simp_all

lemma length_block_bytes:
  assumes "0 < m"
  shows "length (block_bytes m es) \<le> length (concat (map block_entry es)) + 4 * length es + 8"
proof -
  obtain r where r: "bb_buffer (build_block m es) = concat (map block_entry es)"
      "bb_restarts (build_block m es) = map (\<lambda>j. entry_start es (j * m)) [0..<Suc r]"
      "length es = r * m + bb_counter (build_block m es)"
    using builder_inv_build [OF assms, of es] by (auto simp add: builder_inv_def)
  have "r \<le> r * m"
    using assms by simp
  then have "r \<le> length es"
    using r(3) by linarith
  then show ?thesis
    unfolding block_bytes_def BlockBuilder_Finish_def Let_def fst_conv put_words r(1,2)
    by (simp add: PutFixed32_def del: upt_Suc map_map)
qed

definition entries_size :: "(bytes \<times> bytes) list \<Rightarrow> nat" where
  "entries_size es = length (concat (map block_entry es))"

lemma entries_size_simps [simp]:
  "entries_size [] = 0" "entries_size (e # es) = length (block_entry e) + entries_size es"
  "entries_size (es @ es') = entries_size es + entries_size es'"
  by (simp_all add: entries_size_def)

lemma entries_size_nth: "blk \<in> set blks \<Longrightarrow> entries_size blk \<le> entries_size (concat blks) \<and> length blk \<le> length (concat blks)"
  by (induction blks) auto

lemma length_le_concat: "[] \<notin> set blks \<Longrightarrow> length blks \<le> length (concat blks)"
proof (induction blks)
  case (Cons blk blks)
  then show ?case by (cases blk) auto
qed simp

lemma entries_size_last: "blk \<noteq> [] \<Longrightarrow> length (fst (last blk)) \<le> entries_size blk"
  using length_block_entry(2) [of "last blk"] by (cases blk rule: rev_cases) simp_all

lemma sum_index:
  "[] \<notin> set blks \<Longrightarrow> length hs = length blks \<Longrightarrow> \<forall>h\<in>set hs. length h \<le> 20 \<Longrightarrow>
   entries_size (zip (map (\<lambda>blk. fst (last blk)) blks) hs) \<le> entries_size (concat blks) + 35 * length blks"
proof (induction blks arbitrary: hs)
  case (Cons blk blks)
  then obtain h hs' where hs: "hs = h # hs'" "length hs' = length blks" "length h \<le> 20"
    by (cases hs) auto
  have "entries_size (zip (map (\<lambda>blk. fst (last blk)) blks) hs') \<le> entries_size (concat blks) + 35 * length blks"
    using Cons hs by (intro Cons.IH) auto
  moreover have "blk \<noteq> []"
    using Cons.prems(1) by auto
  ultimately show ?case
    using length_block_entry(1) [of "(fst (last blk), h)"] entries_size_last [of blk] hs by simp
qed simp

lemma length_index_contents:
  assumes "[] \<notin> set blks"
  shows "length (index_contents io opts blks) \<le> entries_size (concat blks) + 39 * length (concat blks) + 8"
proof -
  define hs where "hs = map (\<lambda>i. BlockHandle_EncodeTo (data_handle io opts blks i) []) [0..<length blks]"
  have "index_entries io opts blks = zip (map (\<lambda>blk. fst (last blk)) blks) hs"
    by (rule nth_equalityI) (simp_all add: index_entries_def hs_def)
  moreover have "\<forall>h\<in>set hs. length h \<le> 20" "length hs = length blks"
    by (auto simp add: hs_def length_BlockHandle)
  ultimately have "entries_size (index_entries io opts blks) \<le> entries_size (concat blks) + 35 * length blks"
    using sum_index [OF assms, of hs] by simp
  moreover have "length (index_entries io opts blks) = length blks"
    by (simp add: index_entries_def)
  ultimately show ?thesis
    using length_block_bytes [of 1 "index_entries io opts blks"] length_le_concat [OF assms]
    unfolding index_contents_def entries_size_def by linarith
qed

section \<open>Offsets of blocks\<close>

lemma length_stored_pos: "0 < length (stored io ctype raw)"
  by (simp add: length_stored kBlockTrailerSize_def)

lemma data_bytes_append: "data_bytes io opts (a @ b) = data_bytes io opts a @ data_bytes io opts b"
  by (simp add: data_bytes_def)

lemma data_offset_mono:
  assumes "i \<le> j" "j \<le> length blks"
  shows "length (data_bytes io opts (take i blks)) \<le> length (data_bytes io opts (take j blks))"
proof -
  have "take j blks = take i blks @ drop i (take j blks)"
    using assms(1) by (metis append_take_drop_id min.absorb1 take_take)
  then show ?thesis
    by (metis data_bytes_append le_add1 length_append)
qed

lemma data_offset_less:
  assumes "i < j" "j \<le> length blks"
  shows "length (data_bytes io opts (take i blks)) < length (data_bytes io opts (take j blks))"
proof -
  have "take (Suc i) blks = take i blks @ [blks ! i]"
    using assms by (intro take_Suc_conv_app_nth) simp
  then have "length (data_bytes io opts (take i blks)) < length (data_bytes io opts (take (Suc i) blks))"
    using length_stored_pos by (simp add: data_bytes_snoc)
  then show ?thesis
    using data_offset_mono [of "Suc i" j blks io opts] assms by simp
qed

lemma data_bytes_le: "length (data_bytes io opts blks) \<le> length (table_bytes io opts blks)"
  by (simp add: table_bytes_def index_start_def meta_start_def)

lemma unat_data_offset:
  assumes "length (table_bytes io opts blks) < 2 ^ 64" "i \<le> length blks"
  shows "unat (word_of_nat (length (data_bytes io opts (take i blks))) :: u64) = length (data_bytes io opts (take i blks))"
  using assms data_offset_mono [of i "length blks" blks io opts] data_bytes_le [of io opts blks]
  by (simp add: unsigned_of_nat take_bit_nat_eq_self)

section \<open>The block cache\<close>

text \<open>
  What the cache can hold for a table: nothing at first, since the identity of a table is new; then
  blocks that reads at entries of the index have inserted; entries of other tables come and go, and
  every entry may be evicted.
\<close>

inductive cached :: "table_file \<Rightarrow> Table \<Rightarrow> (bytes \<Rightarrow> Block option) \<Rightarrow> bool" for tf t where
  fresh: "(\<And>handle. lookup (cache_key t handle) = None) \<Longrightarrow> cached tf t lookup"
| fill: "cached tf t lookup \<Longrightarrow> (\<And>j. j \<le> i \<Longrightarrow> it_Valid (index_entry t j)) \<Longrightarrow>
    Table_BlockReader tf (Some lookup) t ro (it_get_value (index_entry t i)) = Some (it, Some (key, block)) \<Longrightarrow>
    cached tf t (lookup(key \<mapsto> block))"
| other: "cached tf t lookup \<Longrightarrow> (\<And>handle. key \<noteq> cache_key t handle) \<Longrightarrow> cached tf t (lookup(key := b))"
| evict: "cached tf t lookup \<Longrightarrow> cached tf t (lookup(key := None))"

lemma Fixed64_inject: "Fixed64 a = Fixed64 b \<longleftrightarrow> a = b"
  using DecodeFixed64_EncodeFixed64 [of kLittleEndian kLittleEndian a "[]"] DecodeFixed64_EncodeFixed64 [of kLittleEndian kLittleEndian b "[]"]
  by (metis append_Nil2)

lemma cache_key_eq: "cache_key t h = cache_key t h' \<longleftrightarrow> bh_offset h = bh_offset h'"
  by (simp add: cache_key_def Fixed64_inject)

lemma data_handle_offset: "bh_offset (data_handle io opts blks i) = word_of_nat (length (data_bytes io opts (take i blks)))"
  by (simp add: data_handle_def handle_at_def)

lemma data_handle_distinct:
  assumes "length (table_bytes io opts blks) < 2 ^ 64" "i < length blks" "j < length blks"
    and "cache_key t (data_handle io opts blks i) = cache_key t (data_handle io opts blks j)"
  shows "i = j"
proof -
  have "unat (word_of_nat (length (data_bytes io opts (take i blks))) :: u64) = unat (word_of_nat (length (data_bytes io opts (take j blks))) :: u64)"
    using assms(4) unfolding cache_key_eq data_handle_offset by (rule arg_cong)
  then have "length (data_bytes io opts (take i blks)) = length (data_bytes io opts (take j blks))"
    unfolding unat_data_offset [OF assms(1) less_imp_le [OF assms(2)]] unat_data_offset [OF assms(1) less_imp_le [OF assms(3)]] .
  then show ?thesis
    using data_offset_less [of i j blks io opts] data_offset_less [of j i blks io opts] assms(2,3) by (cases i j rule: linorder_cases) auto
qed

lemma it_map_funpow: "(it_map f ^^ i) (Iter it) = Iter ((f ^^ i) it)"
  by (induction i) simp_all

lemma index_entry_opened:
  assumes "length (index_contents io opts blks) < 2 ^ 32"
  shows "i < length blks \<Longrightarrow> it_Valid (index_entry (opened io opts cid blks) i) \<and>
      it_get_value (index_entry (opened io opts cid blks) i) = BlockHandle_EncodeTo (data_handle io opts blks i) []"
    and "\<not> it_Valid (index_entry (opened io opts cid blks) (length blks))"
proof -
  obtain it where it: "Block_NewIterator (Block_make (index_contents io opts blks)) = Iter it" "block_of (index_entries io opts blks) 1 it"
      "it_status it = Status_OK"
    using new_iterator [of 1 "index_entries io opts blks"] assms by (auto simp add: index_contents_def block_bytes_def)
  have entry: "index_entry (opened io opts cid blks) j = Iter ((BlockIter_Next ^^ j) (BlockIter_SeekToFirst it))" for j
    by (simp add: index_entry_def opened_def it(1) it_map_funpow)
  have len: "length (index_entries io opts blks) = length blks"
    by (simp add: index_entries_def)
  note at = Next_funpow [OF it(2), unfolded len]
  show "\<not> it_Valid (index_entry (opened io opts cid blks) (length blks))"
    using at [of "length blks"] by (simp add: entry past_end_def)
  assume i: "i < length blks"
  then show "it_Valid (index_entry (opened io opts cid blks) i) \<and>
      it_get_value (index_entry (opened io opts cid blks) i) = BlockHandle_EncodeTo (data_handle io opts blks i) []"
    using at [of i] at_entry_shows [of "index_entries io opts blks" 1 i] unfolding entry
    by (simp add: shows_entry_def index_entries_def)
qed

context table_reader
begin

lemma cached_holds:
  assumes "good r" "contents r = table_bytes io opts blks" "length (table_bytes io opts blks) < 2 ^ 64"
    and "length (index_contents io opts blks) < 2 ^ 32"
  shows "cached (table_file_of read io r) (opened io opts cid blks) lookup \<Longrightarrow> cache_holds io opts cid blks (Some lookup)"
proof (induction lookup rule: cached.induct)
  case (fresh lookup)
  then show ?case by (simp add: cache_holds_def)
next
  case (fill lookup i ro it key block)
  have i: "i < length blks"
    using fill.hyps(2) [of "length blks"] index_entry_opened(2) [OF assms(4)] by (meson not_le)
  obtain ins where ins: "Table_BlockReader (table_file_of read io r) (Some lookup) (opened io opts cid blks) ro
      (BlockHandle_EncodeTo (data_handle io opts blks i) []) = Some (Block_NewIterator (Block_make (block_bytes (opt_restarts opts) (blks ! i))), ins)"
    "ins = None \<or> ins = Some (cache_key (opened io opts cid blks) (data_handle io opts blks i),
      Block_make (block_bytes (opt_restarts opts) (blks ! i)))"
    by (rule BlockReader_ok [OF assms(1-3) i fill.IH])
  then have "key = cache_key (opened io opts cid blks) (data_handle io opts blks i)" "block = Block_make (block_bytes (opt_restarts opts) (blks ! i))"
    using fill.hyps(3) index_entry_opened(1) [OF assms(4) i] by auto
  then show ?case
    using fill.IH by (auto simp add: cache_holds_def split: if_splits dest: data_handle_distinct [OF assms(3) _ i])
next
  case (other lookup key b)
  then show ?case by (auto simp add: cache_holds_def)
next
  case (evict lookup key)
  then show ?case by (auto simp add: cache_holds_def split: if_splits)
qed

end

section \<open>Filters\<close>

lemma filter_blocks_sorted:
  assumes "length (table_bytes io opts blks) < 2 ^ 64"
  shows "sorted (map (\<lambda>blk. unat (fst blk)) (filter_blocks io opts (blks @ [[]])))"
proof -
  have "map (\<lambda>blk. unat (fst blk)) (filter_blocks io opts (blks @ [[]])) = map (\<lambda>i. length (data_bytes io opts (take i blks))) [0..<Suc (length blks)]"
    using unat_data_offset [OF assms] unat_data_offset [OF assms order_refl] by (simp add: filter_blocks_def)
  also have "sorted \<dots>"
    unfolding sorted_map by (rule sorted_wrt_mono_rel [OF _ sorted_wrt_upt]) (auto intro!: data_offset_mono)
  finally show ?thesis .
qed

lemma filter_contents_le:
  "opt_filter_policy opts = Some p \<Longrightarrow> length (filter_contents io opts p blks) \<le> length (table_bytes io opts blks)"
  by (simp add: table_bytes_def index_start_def meta_start_def filter_bytes_def length_stored compress_block_def)

lemma filter_matches:
  assumes "filter_policy (fp_CreateFilter p) (fp_KeyMayMatch p)" "opt_filter_policy opts = Some p"
    and "length (table_bytes io opts blks) < 2 ^ 32" "i < length blks" "e \<in> set (blks ! i)"
  shows "FilterBlockReader_KeyMayMatch (fp_KeyMayMatch p) (word_of_nat (length (data_bytes io opts (take i blks)))) (fst e)
    (FilterBlockReader_make (filter_contents io opts p blks))"
  unfolding filter_contents_def filter_builder_def
proof (rule filter_policy.reader_matches [OF assms(1)])
  show "sorted (map (\<lambda>blk. unat (fst blk)) (filter_blocks io opts (blks @ [[]])))"
    using assms(3) by (intro filter_blocks_sorted) simp
  show "length (fst (FilterBlockBuilder_Finish (fp_CreateFilter p)
      (foldl (add_block (fp_CreateFilter p)) FilterBlockBuilder_make (filter_blocks io opts (blks @ [[]]))))) < 2 ^ 32"
    using filter_contents_le [OF assms(2), of io blks] assms(3) by (simp add: filter_contents_def filter_builder_def)
  show "(word_of_nat (length (data_bytes io opts (take i blks))), map fst (blks ! i)) \<in> set (filter_blocks io opts (blks @ [[]]))"
    using assms(4) by (force simp add: filter_blocks_def nth_append)
  show "fst e \<in> set (map fst (blks ! i))"
    using assms(5) by simp
qed

text \<open>The filter policy of a database that is opened with a Bloom filter of \<open>n\<close> bits per key.\<close>

definition bloom_policy :: "nat \<Rightarrow> FilterPolicy" where
  "bloom_policy n =
     \<lparr>fp_Name = map of_char ''leveldb.BuiltinBloomFilter2'', fp_CreateFilter = bloom_create n,
      fp_KeyMayMatch = InternalFilterPolicy_KeyMayMatch BloomFilterPolicy_KeyMayMatch\<rparr>"

lemma bloom_policy_law: "filter_policy (fp_CreateFilter (bloom_policy n)) (fp_KeyMayMatch (bloom_policy n))"
  using internal_bloom.filter_policy_axioms by (simp add: bloom_policy_def)

lemma bloom_policy_user_key:
  "ExtractUserKey a = ExtractUserKey b \<Longrightarrow> fp_KeyMayMatch (bloom_policy n) a = fp_KeyMayMatch (bloom_policy n) b"
  by (simp add: bloom_policy_def InternalFilterPolicy_KeyMayMatch_def fun_eq_iff)

lemma reader_user_key:
  "ExtractUserKey a = ExtractUserKey b \<Longrightarrow>
   FilterBlockReader_KeyMayMatch (fp_KeyMayMatch (bloom_policy n)) ofs a rd = FilterBlockReader_KeyMayMatch (fp_KeyMayMatch (bloom_policy n)) ofs b rd"
  using bloom_policy_user_key [of a b n] by (simp add: FilterBlockReader_KeyMayMatch_def)

lemma length_meta_contents:
  assumes "0 < opt_restarts opts" "opt_filter_policy opts = None \<or> opt_filter_policy opts = Some (bloom_policy n)"
  shows "length (meta_contents io opts blks) < 2 ^ 32"
  using length_block_bytes [OF assms(1), of "meta_entries io opts blks"] assms(2)
    length_block_entry(1) [of "(filter_key (Some (bloom_policy n)), BlockHandle_EncodeTo
      (handle_at io kNoCompression (filter_contents io opts (bloom_policy n) blks) (length (data_bytes io opts blks))) [])"]
    length_BlockHandle [of "handle_at io kNoCompression (filter_contents io opts (bloom_policy n) blks) (length (data_bytes io opts blks))"]
  by (auto simp add: meta_contents_def meta_entries_def filter_key_def bloom_policy_def)

section \<open>Tables in memory files\<close>

lemma mem_table_reader: "snappy sn \<Longrightarrow> table_reader RandomAccessFileImpl_Read fs_contents fs_inv (mem_io addr sn)"
  using mem_random.random_access_file_axioms mem_writer.checksum_axioms [of addr]
  by (simp add: table_reader_def mem_io_def)

lemma mem_table_search:
  "snappy sn \<Longrightarrow> table_search RandomAccessFileImpl_Read fs_contents fs_inv (mem_io addr sn)
     (InternalKeyComparator_Compare BytewiseComparator_Compare) (\<lambda>k. 8 \<le> length k \<and> True)"
  using mem_table_reader bytewise.ikey.comparator_axioms by (simp add: table_search_def)

interpretation mem_search: table_search RandomAccessFileImpl_Read fs_contents fs_inv "mem_io addr Snappy_none"
  "InternalKeyComparator_Compare BytewiseComparator_Compare" "\<lambda>k. 8 \<le> length k \<and> True" for addr
  by (rule mem_table_search) (rule no_snappy.snappy_axioms)

definition build_table :: "'f table_io \<Rightarrow> Options \<Rightarrow> 'f \<Rightarrow> (bytes \<times> bytes) list \<Rightarrow> status \<times> 'f TableBuilder" where
  "build_table io opts f es = TableBuilder_Finish io (foldl (\<lambda>b (k, v). TableBuilder_Add io k v b) (TableBuilder_make opts f) es)"

abbreviation mem_table_file :: "(u32 \<Rightarrow> bytes \<Rightarrow> nat) \<Rightarrow> Snappy \<Rightarrow> FileState \<Rightarrow> table_file" where
  "mem_table_file addr sn \<equiv> table_file_of RandomAccessFileImpl_Read (mem_io addr sn)"

lemma mem_table_built:
  assumes "snappy sn" "0 < opt_restarts opts" "build_table (mem_io addr sn) opts FileState_make es = (s, b)"
  obtains blks where "s = Status_OK" "concat blks = es" "[] \<notin> set blks" "fs_inv (tb_file b)"
    "fs_contents (tb_file b) = table_bytes (mem_io addr sn) opts blks"
    "TableBuilder_FileSize b = word_of_nat (length (table_bytes (mem_io addr sn) opts blks))"
  using table_writer.build_ok [OF mem_table_writer [OF assms(1), of addr] assms(2), of FileState_make es] assms(3)
  by (auto simp add: build_table_def)

lemma table_sizes:
  assumes "entries_size (concat blks) + 64 * length (concat blks) < 2 ^ 31" "[] \<notin> set blks" "0 < opt_restarts opts"
  shows "length (index_contents io opts blks) < 2 ^ 32" "\<forall>blk\<in>set blks. length (block_bytes (opt_restarts opts) blk) < 2 ^ 32"
proof -
  show "length (index_contents io opts blks) < 2 ^ 32"
    using length_index_contents [OF assms(2), of io opts] assms(1) by simp
  show "\<forall>blk\<in>set blks. length (block_bytes (opt_restarts opts) blk) < 2 ^ 32"
  proof
    fix blk assume "blk \<in> set blks"
    then show "length (block_bytes (opt_restarts opts) blk) < 2 ^ 32"
      using length_block_bytes [OF assms(3), of blk] entries_size_nth [of blk blks] assms(1)
      unfolding entries_size_def by simp
  qed
qed

lemma length_data_bytes:
  assumes "[] \<notin> set blks" "0 < opt_restarts opts" "opt_compression opts = kNoCompression"
  shows "length (data_bytes io opts blks) \<le> entries_size (concat blks) + 17 * length (concat blks)"
  using assms(1)
proof (induction blks)
  case (Cons blk blks)
  then show ?case
    using length_block_bytes [OF assms(2), of blk] assms(3)
    by (cases blk) (simp_all add: data_bytes_def length_stored compress_block_def kBlockTrailerSize_def entries_size_def)
qed simp

lemma length_table_bytes:
  assumes "[] \<notin> set blks" "0 < opt_restarts opts" "opt_compression opts = kNoCompression" "opt_filter_policy opts = None"
  shows "length (table_bytes io opts blks) \<le> 2 * entries_size (concat blks) + 56 * length (concat blks) + 100"
  using length_data_bytes [OF assms(1-3), of io] length_index_contents [OF assms(1), of io opts]
    length_block_bytes [OF assms(2), of "[]"] footer_codec [of "table_footer io opts blks"] assms(3,4)
  by (simp add: table_bytes_def index_start_def meta_start_def filter_bytes_def length_stored compress_block_def kBlockTrailerSize_def
      meta_contents_def meta_entries_def kEncodedLength_def kMaxEncodedLength_def)

lemma table_get_ok:
  assumes "snappy sn" "0 < opt_block_restart_interval opts"
    and "opt_comparator opts = InternalKeyComparator_Compare BytewiseComparator_Compare"
    and "opt_filter_policy opts = None \<or> opt_filter_policy opts = Some (bloom_policy n)"
    and "sorted_wrt (\<lambda>a b. InternalKeyComparator_Compare BytewiseComparator_Compare a b < 0) (map fst es)"
    and "\<forall>e\<in>set es. 8 \<le> length (fst e)" "8 \<le> length k" "entries_size es + 64 * length es < 2 ^ 31"
    and "build_table (mem_io addr sn) opts FileState_make es = (s, b)" "length (fs_contents (tb_file b)) < 2 ^ 32"
  shows "s = Status_OK \<and>
    (\<exists>t. Table_Open (mem_table_file addr sn (tb_file b)) cid opts (TableBuilder_FileSize b) = Some (Status_OK, Some t) \<and>
      (\<forall>cache. (\<forall>lookup. cache = Some lookup \<longrightarrow> cached (mem_table_file addr sn (tb_file b)) t lookup) \<longrightarrow>
        (\<exists>arg'. Table_InternalGet (mem_table_file addr sn (tb_file b)) cache t ro k handle arg = Some (Status_OK, arg') \<and>
          (case dropWhile (\<lambda>e. InternalKeyComparator_Compare BytewiseComparator_Compare (fst e) k < 0) es of
             [] \<Rightarrow> arg' = arg
           | e # _ \<Rightarrow> arg' = handle (fst e) (snd e) arg \<or> arg' = arg \<and> ExtractUserKey (fst e) \<noteq> ExtractUserKey k))))"
proof -
  define io where "io = mem_io addr sn"
  note reader = mem_table_reader [OF assms(1), of addr, folded io_def] and search = mem_table_search [OF assms(1), of addr, folded io_def]
  obtain blks where blks: "s = Status_OK" "concat blks = es" "[] \<notin> set blks" "fs_inv (tb_file b)"
      "fs_contents (tb_file b) = table_bytes io opts blks" "TableBuilder_FileSize b = word_of_nat (length (table_bytes io opts blks))"
    using mem_table_built [OF assms(1,2,9)] unfolding io_def by metis
  have len: "length (table_bytes io opts blks) < 2 ^ 32" "length (table_bytes io opts blks) < 2 ^ 64"
    using assms(10) blks(5) by simp_all
  note sizes = table_sizes [OF _ blks(3) assms(2), unfolded blks(2), OF assms(8)]
  define tf where "tf = table_file_of RandomAccessFileImpl_Read io (tb_file b)"
  define t where "t = opened io opts cid blks"
  have opened: "Table_Open tf cid opts (TableBuilder_FileSize b) = Some (Status_OK, Some t)"
    unfolding tf_def t_def blks(6)
    by (rule table_reader.Open_ok [OF reader blks(4,5) len(2) length_meta_contents [OF assms(2,4)] assms(2)])
  have "\<exists>arg'. Table_InternalGet tf cache t ro k handle arg = Some (Status_OK, arg') \<and>
      (case dropWhile (\<lambda>e. InternalKeyComparator_Compare BytewiseComparator_Compare (fst e) k < 0) es of
         [] \<Rightarrow> arg' = arg
       | e # _ \<Rightarrow> arg' = handle (fst e) (snd e) arg \<or> arg' = arg \<and> ExtractUserKey (fst e) \<noteq> ExtractUserKey k)"
    if cache: "\<forall>lookup. cache = Some lookup \<longrightarrow> cached tf t lookup" for cache
  proof -
    have holds: "cache_holds io opts cid blks cache"
      using cache table_reader.cached_holds [OF reader blks(4,5) len(2) sizes(1)]
      unfolding tf_def t_def by (cases cache) (auto simp add: cache_holds_def)
    note get = table_search.InternalGet_ok [OF search blks(4,5) len(2) assms(3,2) holds _ _ _ blks(3) sizes, unfolded blks(2), OF assms(5), folded tf_def t_def]
    show ?thesis
    proof (cases "dropWhile (\<lambda>e. InternalKeyComparator_Compare BytewiseComparator_Compare (fst e) k < 0) es")
      case Nil
      then show ?thesis
        using get [of k ro handle arg] assms(6,7) by (simp only: list.case) simp
    next
      case (Cons e es')
      then obtain i where i: "i < length blks" "e \<in> set (blks ! i)"
        "Table_InternalGet tf cache t ro k handle arg = Some (Status_OK,
            if \<forall>p. opt_filter_policy opts = Some p \<longrightarrow>
              FilterBlockReader_KeyMayMatch (fp_KeyMayMatch p) (word_of_nat (length (data_bytes io opts (take i blks)))) k
                (FilterBlockReader_make (filter_contents io opts p blks))
            then handle (fst e) (snd e) arg else arg)"
        using get [of k ro handle arg] assms(6,7) by auto
      have "ExtractUserKey (fst e) \<noteq> ExtractUserKey k"
        if "opt_filter_policy opts = Some p" "\<not> FilterBlockReader_KeyMayMatch (fp_KeyMayMatch p)
          (word_of_nat (length (data_bytes io opts (take i blks)))) k (FilterBlockReader_make (filter_contents io opts p blks))" for p
      proof
        assume same: "ExtractUserKey (fst e) = ExtractUserKey k"
        have p: "p = bloom_policy n"
          using that(1) assms(4) by simp
        show False
          using that(2) filter_matches [OF bloom_policy_law that(1) [unfolded p] len(1) i(1,2)]
          unfolding p reader_user_key [OF same] by contradiction
      qed
      then show ?thesis
        unfolding Cons list.case i(3) by simp blast
    qed
  qed
  then show ?thesis
    using blks(1) opened unfolding tf_def io_def by blast
qed

text \<open>C5. A table file answers lookups like the sorted list of entries it was built from. For any
  sorted entries with internal keys, any options with a positive restart interval, with or without a
  Bloom filter and compression: building succeeds, opening the finished file succeeds, and a lookup,
  whatever blocks earlier reads have left in the block cache, hands the first entry that is not before
  the target to the handler, or nothing if there is none. Only if that entry has another user key than
  the target may the filter suppress the call.\<close>

theorem table_get:
  assumes "snappy sn" "0 < opt_block_restart_interval opts"
    and "opt_comparator opts = InternalKeyComparator_Compare BytewiseComparator_Compare"
    and "opt_filter_policy opts = None \<or> opt_filter_policy opts = Some (bloom_policy n)"
    and "sorted_wrt (\<lambda>a b. InternalKeyComparator_Compare BytewiseComparator_Compare a b < 0) (map fst es)"
    and "\<forall>e\<in>set es. 8 \<le> length (fst e)" "8 \<le> length k" "entries_size es + 64 * length es < 2 ^ 31"
    and "build_table (mem_io addr sn) opts FileState_make es = (s, b)" "length (fs_contents (tb_file b)) < 2 ^ 32"
  shows "s = Status_OK \<and>
    (\<exists>t. Table_Open (mem_table_file addr sn (tb_file b)) cid opts (TableBuilder_FileSize b) = Some (Status_OK, Some t) \<and>
      (\<forall>cache. (\<forall>lookup. cache = Some lookup \<longrightarrow> cached (mem_table_file addr sn (tb_file b)) t lookup) \<longrightarrow>
        (\<exists>arg'. Table_InternalGet (mem_table_file addr sn (tb_file b)) cache t ro k handle arg = Some (Status_OK, arg') \<and>
          (case dropWhile (\<lambda>e. InternalKeyComparator_Compare BytewiseComparator_Compare (fst e) k < 0) es of
             [] \<Rightarrow> arg' = arg
           | e # _ \<Rightarrow> arg' = handle (fst e) (snd e) arg \<or> arg' = arg \<and> ExtractUserKey (fst e) \<noteq> ExtractUserKey k))))"
  by (rule table_get_ok [OF assms])

theorem table_get_witness:
  "let opts = \<lparr>opt_comparator = InternalKeyComparator_Compare BytewiseComparator_Compare, opt_block_restart_interval = 16,
         opt_block_size = 4096, opt_compression = kNoCompression, opt_filter_policy = None, opt_paranoid_checks = True\<rparr>;
       (s, b) = build_table (mem_io (\<lambda>_ _. 0) Snappy_none) opts FileState_make
         [([1, 1, 0, 0, 0, 0, 0, 0, 0], [2]), ([3, 1, 0, 0, 0, 0, 0, 0, 0], [4])];
       tf = mem_table_file (\<lambda>_ _. 0) Snappy_none (tb_file b)
   in s = Status_OK \<and>
      (\<exists>t. Table_Open tf 1 opts (TableBuilder_FileSize b) = Some (Status_OK, Some t) \<and>
        Table_InternalGet tf None t ReadOptions_make [3, 1, 0, 0, 0, 0, 0, 0, 0] (\<lambda>k v _. v) [] = Some (Status_OK, [4]))"
proof -
  let ?es = "[([1, 1, 0, 0, 0, 0, 0, 0, 0], [2]), ([3, 1, 0, 0, 0, 0, 0, 0, 0], [4])] :: (bytes \<times> bytes) list"
  let ?cmp = "InternalKeyComparator_Compare BytewiseComparator_Compare" and ?k = "[3, 1, 0, 0, 0, 0, 0, 0, 0] :: bytes"
  define opts where "opts = \<lparr>opt_comparator = InternalKeyComparator_Compare BytewiseComparator_Compare, opt_block_restart_interval = 16,
    opt_block_size = 4096, opt_compression = kNoCompression, opt_filter_policy = None, opt_paranoid_checks = True\<rparr>"
  define b where "b = snd (build_table (mem_io (\<lambda>_ _. 0) Snappy_none) opts FileState_make ?es)"
  define s where "s = fst (build_table (mem_io (\<lambda>_ _. 0) Snappy_none) opts FileState_make ?es)"
  have b: "build_table (mem_io (\<lambda>_ _. 0) Snappy_none) opts FileState_make ?es = (s, b)"
    by (simp add: b_def s_def)
  have opts: "0 < opt_block_restart_interval opts" "opt_comparator opts = ?cmp" "opt_filter_policy opts = None"
      "opt_compression opts = kNoCompression"
    by (simp_all add: opts_def)
  have cmp: "?cmp [1, 1, 0, 0, 0, 0, 0, 0, 0] ?k < 0" "\<not> ?cmp ?k ?k < 0"
    by (simp_all add: InternalKeyComparator_Compare_def ExtractUserKey_def BytewiseComparator_Compare_def Slice_compare_def Let_def)
  have small: "entries_size ?es \<le> 60"
    using length_block_entry(1) [of "?es ! 0"] length_block_entry(1) [of "?es ! 1"] by simp
  obtain blks where "concat blks = ?es" "[] \<notin> set blks" "fs_contents (tb_file b) = table_bytes (mem_io (\<lambda>_ _. 0) Snappy_none) opts blks"
    using mem_table_built [OF no_snappy.snappy_axioms opts(1) b] by metis
  then have "length (fs_contents (tb_file b)) < 2 ^ 32"
    using length_table_bytes [of blks opts "mem_io (\<lambda>_ _. 0) Snappy_none"] opts small by simp
  then show ?thesis
    unfolding opts_def [symmetric] Let_def b prod.case
    using table_get [OF no_snappy.snappy_axioms opts(1,2), of 0 ?es ?k "\<lambda>_ _. 0" s b 1 ReadOptions_make "\<lambda>k v _. v" "[]"]
      opts(3) cmp small b by auto
qed

end
