(* ===== verification/Table_Cache.thy ===== *)
theory Table_Cache
  imports File_Names Table_Properties "HOL-Library.AList"
begin

text \<open>
  \<^verbatim>\<open>db/table_cache.cc\<close>: the cache of open tables. The cache is the list of its entries; an eviction removes
  an entry at any time. \<open>new_file\<close> is \<^verbatim>\<open>Env::NewRandomAccessFile\<close> and \<open>cid\<close> the identity that the block cache
  gives to a table that is opened. The path of the learned index is not modelled.
\<close>

record TableCache =
  tc_dbname :: string
  tc_options :: Options
  tc_cache :: "(bytes \<times> table_file \<times> Table) list"

definition TableCache_FindTable ::
  "(string \<Rightarrow> status \<times> table_file) \<Rightarrow> u64 \<Rightarrow> u64 \<Rightarrow> u64 \<Rightarrow> TableCache \<Rightarrow> (status \<times> (table_file \<times> Table) option \<times> TableCache) option" where
  "TableCache_FindTable new_file cid number sz tc =
     (case map_of (tc_cache tc) (Fixed64 number) of
        Some entry \<Rightarrow> Some (Status_OK, Some entry, tc)
      | None \<Rightarrow>
          let (s, tf) = new_file (TableFileName (tc_dbname tc) number);
              (s, tf) =
                (if \<not> Status_ok s then
                   let (s', tf') = new_file (SSTTableFileName (tc_dbname tc) number)
                   in if Status_ok s' then (Status_OK, tf') else (s, tf)
                 else (s, tf))
          in if \<not> Status_ok s then Some (s, None, tc)
             else
               map_option
                 (\<lambda>(s, t). case t of
                    Some t \<Rightarrow>
                      if Status_ok s
                      then (s, Some (tf, t), tc\<lparr>tc_cache := AList.update (Fixed64 number) (tf, t) (tc_cache tc)\<rparr>)
                      else (s, None, tc)
                  | None \<Rightarrow> (s, None, tc))
                 (Table_Open tf cid (tc_options tc) sz))"

text \<open>\<open>block_cache\<close> is the block cache of the options.\<close>

definition TableCache_Get ::
  "(string \<Rightarrow> status \<times> table_file) \<Rightarrow> u64 \<Rightarrow> (bytes \<Rightarrow> Block option) option \<Rightarrow> ReadOptions \<Rightarrow> u64 \<Rightarrow> u64 \<Rightarrow> bytes \<Rightarrow>
    (bytes \<Rightarrow> bytes \<Rightarrow> 'a \<Rightarrow> 'a) \<Rightarrow> 'a \<Rightarrow> TableCache \<Rightarrow> (status \<times> 'a \<times> TableCache) option" where
  "TableCache_Get new_file cid block_cache options number sz k handle_result arg tc =
     Option.bind (TableCache_FindTable new_file cid number sz tc)
       (\<lambda>(s, entry, tc). case entry of
          None \<Rightarrow> Some (s, arg, tc)
        | Some (tf, t) \<Rightarrow>
            map_option (\<lambda>(s, arg). (s, arg, tc)) (Table_InternalGet tf block_cache t options k handle_result arg))"

definition TableCache_Evict :: "u64 \<Rightarrow> TableCache \<Rightarrow> TableCache" where
  "TableCache_Evict number tc = tc\<lparr>tc_cache := AList.delete (Fixed64 number) (tc_cache tc)\<rparr>"

end
