(* ===== verification/Version_Files.thy ===== *)
theory Version_Files
  imports Complex_Main Version_Edit Table_Cache Memtable
begin

text \<open>
  The files of a version, from \<^verbatim>\<open>db/version_set.h\<close> and \<^verbatim>\<open>db/version_set.cc\<close>: searching the files of a
  level, overlap of files with key ranges, lookups in a version, and the files a compaction has to
  include. A version is the lists of the metadata of its files, one list per level; the metadata
  that versions share are copied, and a file is identified by its number. The compaction score, a
  double in the code, is an exact fraction. \<open>ucmp\<close> is the comparator
  of user keys. Modelled is the program without learned index (\<^verbatim>\<open>adgMod::MOD\<close> 0, 8, 9 or 10).
\<close>

section \<open>Searching files\<close>

definition kL0_CompactionTrigger :: nat where
  "kL0_CompactionTrigger = 4"

definition kMaxMemCompactLevel :: nat where
  "kMaxMemCompactLevel = 0"

definition TotalFileSize :: "FileMetaData list \<Rightarrow> int" where
  "TotalFileSize files = foldl (\<lambda>sum f. sum + uint (fm_file_size f)) 0 files"

function FindFile_loop :: "(bytes \<Rightarrow> bytes \<Rightarrow> int) \<Rightarrow> FileMetaData list \<Rightarrow> bytes \<Rightarrow> nat \<Rightarrow> nat \<Rightarrow> nat" where
  "FindFile_loop ucmp files key left right =
     (if left < right then
        let mid = (left + right) div 2;
            f = files ! mid
        in if InternalKeyComparator_Compare ucmp (fm_largest f) key < 0
           then FindFile_loop ucmp files key (mid + 1) right
           else FindFile_loop ucmp files key left mid
      else right)"
  by pat_completeness auto
termination
  by (relation "measure (\<lambda>(_, _, _, left, right). right - left)") auto

declare FindFile_loop.simps [simp del]

definition FindFile :: "(bytes \<Rightarrow> bytes \<Rightarrow> int) \<Rightarrow> FileMetaData list \<Rightarrow> bytes \<Rightarrow> nat" where
  "FindFile ucmp files key = FindFile_loop ucmp files key 0 (length files)"

text \<open>A null pointer to a user key is \<^const>\<open>None\<close>.\<close>

definition AfterFile :: "(bytes \<Rightarrow> bytes \<Rightarrow> int) \<Rightarrow> bytes option \<Rightarrow> FileMetaData \<Rightarrow> bool" where
  "AfterFile ucmp ukey f =
     (case ukey of None \<Rightarrow> False | Some k \<Rightarrow> ucmp k (ExtractUserKey (fm_largest f)) > 0)"

definition BeforeFile :: "(bytes \<Rightarrow> bytes \<Rightarrow> int) \<Rightarrow> bytes option \<Rightarrow> FileMetaData \<Rightarrow> bool" where
  "BeforeFile ucmp ukey f =
     (case ukey of None \<Rightarrow> False | Some k \<Rightarrow> ucmp k (ExtractUserKey (fm_smallest f)) < 0)"

definition SomeFileOverlapsRange ::
  "(bytes \<Rightarrow> bytes \<Rightarrow> int) \<Rightarrow> bool \<Rightarrow> FileMetaData list \<Rightarrow> bytes option \<Rightarrow> bytes option \<Rightarrow> bool" where
  "SomeFileOverlapsRange ucmp disjoint_sorted_files files smallest_user_key largest_user_key =
     (if \<not> disjoint_sorted_files then
        list_ex (\<lambda>f. \<not> (AfterFile ucmp smallest_user_key f \<or> BeforeFile ucmp largest_user_key f)) files
      else
        let index = (case smallest_user_key of
                       None \<Rightarrow> 0
                     | Some k \<Rightarrow> FindFile ucmp files (InternalKey_make k kMaxSequenceNumber kValueTypeForSeek))
        in if index \<ge> length files then False
           else \<not> BeforeFile ucmp largest_user_key (files ! index))"

section \<open>Iterating over the files of a level\<close>

record LevelFileNumIterator =
  lf_flist :: "FileMetaData list"
  lf_index :: nat

definition LevelFileNumIterator_make :: "FileMetaData list \<Rightarrow> LevelFileNumIterator" where
  "LevelFileNumIterator_make flist = \<lparr>lf_flist = flist, lf_index = length flist\<rparr>"

definition LevelFileNumIterator_Valid :: "LevelFileNumIterator \<Rightarrow> bool" where
  "LevelFileNumIterator_Valid it = (lf_index it < length (lf_flist it))"

definition LevelFileNumIterator_Seek :: "(bytes \<Rightarrow> bytes \<Rightarrow> int) \<Rightarrow> bytes \<Rightarrow> LevelFileNumIterator \<Rightarrow> LevelFileNumIterator" where
  "LevelFileNumIterator_Seek ucmp target it = it\<lparr>lf_index := FindFile ucmp (lf_flist it) target\<rparr>"

definition LevelFileNumIterator_SeekToFirst :: "LevelFileNumIterator \<Rightarrow> LevelFileNumIterator" where
  "LevelFileNumIterator_SeekToFirst it = it\<lparr>lf_index := 0\<rparr>"

definition LevelFileNumIterator_SeekToLast :: "LevelFileNumIterator \<Rightarrow> LevelFileNumIterator" where
  "LevelFileNumIterator_SeekToLast it = it\<lparr>lf_index := if lf_flist it = [] then 0 else length (lf_flist it) - 1\<rparr>"

definition LevelFileNumIterator_Next :: "LevelFileNumIterator \<Rightarrow> LevelFileNumIterator" where
  "LevelFileNumIterator_Next it = it\<lparr>lf_index := lf_index it + 1\<rparr>"

definition LevelFileNumIterator_Prev :: "LevelFileNumIterator \<Rightarrow> LevelFileNumIterator" where
  "LevelFileNumIterator_Prev it =
     it\<lparr>lf_index := if lf_index it = 0 then length (lf_flist it) else lf_index it - 1\<rparr>"

definition LevelFileNumIterator_key :: "LevelFileNumIterator \<Rightarrow> bytes" where
  "LevelFileNumIterator_key it = fm_largest (lf_flist it ! lf_index it)"

definition LevelFileNumIterator_value :: "LevelFileNumIterator \<Rightarrow> bytes" where
  "LevelFileNumIterator_value it =
     Fixed64 (fm_number (lf_flist it ! lf_index it)) @ Fixed64 (fm_file_size (lf_flist it ! lf_index it))"

section \<open>Lookups\<close>

datatype SaverState = Saver_kNotFound | Saver_kFound | Saver_kDeleted | Saver_kCorrupt

record Saver =
  sv_state :: SaverState
  sv_user_key :: bytes
  sv_value :: bytes

definition no_parsed_key :: ParsedInternalKey where
  "no_parsed_key = \<lparr>user_key = [], sequence = 0, type = kTypeDeletion, sort_key = 0\<rparr>"

definition save_parsed :: "(bytes \<Rightarrow> bytes \<Rightarrow> int) \<Rightarrow> ParsedInternalKey option \<Rightarrow> bytes \<Rightarrow> Saver \<Rightarrow> Saver" where
  "save_parsed ucmp parsed v s =
     (case parsed of
        None \<Rightarrow> s\<lparr>sv_state := Saver_kCorrupt\<rparr>
      | Some parsed_key \<Rightarrow>
          if ucmp (user_key parsed_key) (sv_user_key s) = 0 then
            let s = s\<lparr>sv_state := if type parsed_key = kTypeValue then Saver_kFound else Saver_kDeleted\<rparr>
            in if sv_state s = Saver_kFound then s\<lparr>sv_value := v\<rparr> else s
          else s)"

definition SaveValue :: "(bytes \<Rightarrow> bytes \<Rightarrow> int) \<Rightarrow> bytes \<Rightarrow> bytes \<Rightarrow> Saver \<Rightarrow> Saver" where
  "SaveValue ucmp ikey v s = save_parsed ucmp (ParseInternalKey ikey no_parsed_key) v s"

definition SaveValueV2 :: "(bytes \<Rightarrow> bytes \<Rightarrow> int) \<Rightarrow> bytes \<Rightarrow> bytes \<Rightarrow> Saver \<Rightarrow> Saver" where
  "SaveValueV2 ucmp ikey v s = save_parsed ucmp (ParseInternalVKey ikey no_parsed_key) v s"

definition IsFound :: "Saver \<Rightarrow> bool" where
  "IsFound s = (sv_state s = Saver_kFound)"

record GetStats =
  seek_file :: "FileMetaData option"
  seek_file_level :: int

record Version =
  ver_files :: "FileMetaData list list"
  ver_vfiles :: "FileMetaData list list"
  ver_file_to_compact :: "FileMetaData option"
  ver_file_to_compact_level :: int
  ver_compaction_score :: rat
  ver_compaction_level :: int
  ver_vfile_map :: "(u64 \<times> FileMetaData) list"
  ver_dep :: dep_map
  ver_vblock_dep_graph :: DependencyGraph

text \<open>\<open>vlevels\<close> is 2 if \<^verbatim>\<open>adgMod::MOD\<close> is 10, otherwise the number of levels.\<close>

definition Version_make :: "nat \<Rightarrow> Version" where
  "Version_make vlevels =
     \<lparr>ver_files = replicate kNumLevels [], ver_vfiles = replicate vlevels [],
      ver_file_to_compact = None, ver_file_to_compact_level = -1, ver_compaction_score = -1, ver_compaction_level = -1,
      ver_vfile_map = [], ver_dep = [], ver_vblock_dep_graph = []\<rparr>"

text \<open>The numbers of the files of a version differ, so sorting by them gives one result.\<close>

definition NewestFirst :: "FileMetaData list \<Rightarrow> FileMetaData list" where
  "NewestFirst files = linorder_class.sort_key (\<lambda>f. - uint (fm_number f)) files"

definition overlaps_user_key :: "(bytes \<Rightarrow> bytes \<Rightarrow> int) \<Rightarrow> bytes \<Rightarrow> FileMetaData \<Rightarrow> bool" where
  "overlaps_user_key ucmp ukey f =
     (ucmp ukey (ExtractUserKey (fm_smallest f)) \<ge> 0 \<and> ucmp ukey (ExtractUserKey (fm_largest f)) \<le> 0)"

text \<open>The files of a level to search, and how one of them is read.\<close>

definition files_to_search :: "(bytes \<Rightarrow> bytes \<Rightarrow> int) \<Rightarrow> Version \<Rightarrow> bytes \<Rightarrow> bytes \<Rightarrow> nat \<Rightarrow> FileMetaData list" where
  "files_to_search ucmp v ukey ikey level =
     (let files = ver_files v ! level in
      if files = [] then []
      else if level = 0 then NewestFirst (filter (overlaps_user_key ucmp ukey) files)
      else
        let index = FindFile ucmp files ikey
        in if index \<ge> length files then []
           else if ucmp ukey (ExtractUserKey (fm_smallest (files ! index))) < 0 then []
           else [files ! index])"

primrec ForEachOverlapping_files :: "(nat \<Rightarrow> FileMetaData \<Rightarrow> 'a \<Rightarrow> bool \<times> 'a) \<Rightarrow> nat \<Rightarrow> FileMetaData list \<Rightarrow> 'a \<Rightarrow> bool \<times> 'a" where
  "ForEachOverlapping_files func level [] arg = (True, arg)"
| "ForEachOverlapping_files func level (f # files) arg =
     (case func level f arg of
        (False, arg) \<Rightarrow> (False, arg)
      | (True, arg) \<Rightarrow> ForEachOverlapping_files func level files arg)"

primrec ForEachOverlapping_levels ::
  "(nat \<Rightarrow> FileMetaData \<Rightarrow> 'a \<Rightarrow> bool \<times> 'a) \<Rightarrow> (nat \<Rightarrow> FileMetaData list) \<Rightarrow> nat list \<Rightarrow> 'a \<Rightarrow> 'a" where
  "ForEachOverlapping_levels func files [] arg = arg"
| "ForEachOverlapping_levels func files (level # levels) arg =
     (case ForEachOverlapping_files func level (files level) arg of
        (False, arg) \<Rightarrow> arg
      | (True, arg) \<Rightarrow> ForEachOverlapping_levels func files levels arg)"

definition ForEachOverlapping ::
  "(bytes \<Rightarrow> bytes \<Rightarrow> int) \<Rightarrow> Version \<Rightarrow> bytes \<Rightarrow> bytes \<Rightarrow> (nat \<Rightarrow> FileMetaData \<Rightarrow> 'a \<Rightarrow> bool \<times> 'a) \<Rightarrow> 'a \<Rightarrow> 'a" where
  "ForEachOverlapping ucmp v ukey ikey func arg =
     ForEachOverlapping_levels func (files_to_search ucmp v ukey ikey) [0..<kNumLevels] arg"

record get_state =
  gs_status :: status
  gs_value :: bytes
  gs_stats :: GetStats
  gs_last_file_read :: "FileMetaData option"
  gs_last_file_read_level :: int

text \<open>
  \<open>table_get\<close> is \<^verbatim>\<open>TableCache::Get\<close> with \<^const>\<open>SaveValue\<close> as the handler. The first component of the result
  is true when the loop goes on.
\<close>

definition Get_file ::
  "(FileMetaData \<Rightarrow> bytes \<Rightarrow> Saver \<Rightarrow> status \<times> Saver) \<Rightarrow> bytes \<Rightarrow> bytes \<Rightarrow> nat \<Rightarrow> FileMetaData \<Rightarrow> get_state \<Rightarrow> bool \<times> get_state" where
  "Get_file table_get ukey ikey level f g =
     (let g = (if gs_last_file_read g \<noteq> None \<and> seek_file (gs_stats g) = None
               then g\<lparr>gs_stats := \<lparr>seek_file = gs_last_file_read g, seek_file_level = gs_last_file_read_level g\<rparr>\<rparr> else g);
          g = g\<lparr>gs_last_file_read := Some f, gs_last_file_read_level := int level\<rparr>;
          (s, saver) = table_get f ikey \<lparr>sv_state = Saver_kNotFound, sv_user_key = ukey, sv_value = gs_value g\<rparr>;
          g = g\<lparr>gs_status := s, gs_value := sv_value saver\<rparr>
      in if \<not> Status_ok s then (False, g)
         else
           case sv_state saver of
             Saver_kNotFound \<Rightarrow> (True, g)
           | Saver_kFound \<Rightarrow> (False, g)
           | Saver_kDeleted \<Rightarrow> (False, g\<lparr>gs_status := NotFound []\<rparr>)
           | Saver_kCorrupt \<Rightarrow> (False, g\<lparr>gs_status := Status_make kCorruption ''corrupted key for '' (map (\<lambda>b. char_of (unat b)) ukey)\<rparr>))"

definition Version_Get ::
  "(bytes \<Rightarrow> bytes \<Rightarrow> int) \<Rightarrow> (FileMetaData \<Rightarrow> bytes \<Rightarrow> Saver \<Rightarrow> status \<times> Saver) \<Rightarrow> Version \<Rightarrow> LookupKey \<Rightarrow> bytes \<Rightarrow>
    status \<times> bytes \<times> GetStats" where
  "Version_Get ucmp table_get v k value =
     (let ikey = LookupKey_internal_key k;
          ukey = LookupKey_user_key k;
          g = ForEachOverlapping_levels (Get_file table_get ukey ikey) (files_to_search ucmp v ukey ikey) [0..<kNumLevels]
                \<lparr>gs_status = Status_OK, gs_value = value, gs_stats = \<lparr>seek_file = None, seek_file_level = -1\<rparr>,
                 gs_last_file_read = None, gs_last_file_read_level = -1\<rparr>
      in (gs_status g, gs_value g, gs_stats g))"

text \<open>
  Lookups in a value table. \<open>vtables\<close> are the tables opened so far, \<open>new_file\<close> is \<^verbatim>\<open>Env::NewRandomAccessFile\<close>,
  \<open>cid\<close> the identity a table gets from the block cache. The state of the saver is not looked at.
\<close>

definition GetFromVFile_table ::
  "(table_file \<Rightarrow> Table \<Rightarrow> Saver \<Rightarrow> (status \<times> Saver) option) \<Rightarrow> (string \<Rightarrow> status \<times> table_file) \<Rightarrow> string \<Rightarrow> Options \<Rightarrow> u64 \<Rightarrow>
    (u64 \<times> table_file \<times> Table) list \<Rightarrow> bytes \<Rightarrow> bytes \<Rightarrow> u64 \<Rightarrow> u64 \<Rightarrow>
    (status \<times> bytes \<times> (u64 \<times> table_file \<times> Table) list) option" where
  "GetFromVFile_table vget new_file dbname options cid vtables ukey val number sz =
     (let saver = \<lparr>sv_state = Saver_kNotFound, sv_user_key = ukey, sv_value = val\<rparr> in
      case map_of vtables number of
        Some (tf, t) \<Rightarrow> map_option (\<lambda>(s, saver). (s, sv_value saver, vtables)) (vget tf t saver)
      | None \<Rightarrow>
          let (s, tf) = new_file (VTableFileName dbname number)
          in if \<not> Status_ok s then Some (s, val, vtables)
             else
               Option.bind (Table_Open tf cid options sz)
                 (\<lambda>(s, t). case t of
                    None \<Rightarrow> Some (s, val, vtables)
                  | Some t \<Rightarrow>
                      if \<not> Status_ok s then Some (s, val, vtables)
                      else map_option (\<lambda>(s, saver). (s, sv_value saver, AList.update number (tf, t) vtables)) (vget tf t saver)))"

definition GetFromVFile ::
  "(bytes \<Rightarrow> bytes \<Rightarrow> int) \<Rightarrow> (string \<Rightarrow> status \<times> table_file) \<Rightarrow> string \<Rightarrow> Options \<Rightarrow> u64 \<Rightarrow> ReadOptions \<Rightarrow>
    (u64 \<times> table_file \<times> Table) list \<Rightarrow> bytes \<Rightarrow> bytes \<Rightarrow> u64 \<Rightarrow> u64 \<Rightarrow> nat \<Rightarrow> nat \<Rightarrow>
    (status \<times> bytes \<times> (u64 \<times> table_file \<times> Table) list) option" where
  "GetFromVFile ucmp new_file dbname options cid ro vtables ukey val number sz block_number block_offset =
     GetFromVFile_table (\<lambda>tf t saver. Table_InternalVGet tf t ro (SaveValueV2 ucmp) block_number block_offset saver)
       new_file dbname options cid vtables ukey val number sz"

definition GetFromMergedVFile ::
  "(bytes \<Rightarrow> bytes \<Rightarrow> int) \<Rightarrow> (string \<Rightarrow> status \<times> table_file) \<Rightarrow> string \<Rightarrow> Options \<Rightarrow> u64 \<Rightarrow> ReadOptions \<Rightarrow>
    (u64 \<times> table_file \<times> Table) list \<Rightarrow> bytes \<Rightarrow> bytes \<Rightarrow> u64 \<Rightarrow> u64 \<Rightarrow> nat \<Rightarrow>
    (status \<times> bytes \<times> (u64 \<times> table_file \<times> Table) list) option" where
  "GetFromMergedVFile ucmp new_file dbname options cid ro vtables ukey val number sz block_number =
     GetFromVFile_table
       (\<lambda>tf t saver. Table_MergedVGet tf t ro IsFound (\<lambda>s. s\<lparr>sv_state := Saver_kFound\<rparr>) (SaveValueV2 ucmp) block_number saver)
       new_file dbname options cid vtables ukey val number sz"

section \<open>Seek statistics\<close>

definition update_file :: "u64 \<Rightarrow> (FileMetaData \<Rightarrow> FileMetaData) \<Rightarrow> Version \<Rightarrow> Version" where
  "update_file number upd v =
     v\<lparr>ver_files := map (map (\<lambda>f. if fm_number f = number then upd f else f)) (ver_files v),
       ver_file_to_compact := map_option (\<lambda>f. if fm_number f = number then upd f else f) (ver_file_to_compact v)\<rparr>"

definition UpdateStats :: "GetStats \<Rightarrow> Version \<Rightarrow> bool \<times> Version" where
  "UpdateStats stats v =
     (case seek_file stats of
        None \<Rightarrow> (False, v)
      | Some f \<Rightarrow>
          let f = f\<lparr>fm_allowed_seeks := fm_allowed_seeks f - 1\<rparr>;
              v = update_file (fm_number f) (\<lambda>_. f) v
          in if fm_allowed_seeks f \<le> 0 \<and> ver_file_to_compact v = None
             then (True, v\<lparr>ver_file_to_compact := Some f, ver_file_to_compact_level := seek_file_level stats\<rparr>)
             else (False, v))"

definition RecordReadSample_Match :: "nat \<Rightarrow> FileMetaData \<Rightarrow> GetStats \<times> nat \<Rightarrow> bool \<times> GetStats \<times> nat" where
  "RecordReadSample_Match level f state =
     (let matches = snd state + 1;
          stats = (if matches = 1 then \<lparr>seek_file = Some f, seek_file_level = int level\<rparr> else fst state)
      in (matches < 2, stats, matches))"

definition RecordReadSample :: "(bytes \<Rightarrow> bytes \<Rightarrow> int) \<Rightarrow> bytes \<Rightarrow> Version \<Rightarrow> bool \<times> Version" where
  "RecordReadSample ucmp internal_key v =
     (case ParseInternalKey internal_key no_parsed_key of
        None \<Rightarrow> (False, v)
      | Some ikey \<Rightarrow>
          let (stats, matches) = ForEachOverlapping ucmp v (user_key ikey) internal_key RecordReadSample_Match
                (\<lparr>seek_file = None, seek_file_level = 0\<rparr>, 0)
          in if matches \<ge> 2 then UpdateStats stats v else (False, v))"

section \<open>Overlapping files\<close>

definition OverlapInLevel :: "(bytes \<Rightarrow> bytes \<Rightarrow> int) \<Rightarrow> Version \<Rightarrow> nat \<Rightarrow> bytes option \<Rightarrow> bytes option \<Rightarrow> bool" where
  "OverlapInLevel ucmp v level smallest_user_key largest_user_key =
     SomeFileOverlapsRange ucmp (level > 0) (ver_files v ! level) smallest_user_key largest_user_key"

text \<open>The search starts again when a file of level 0 widens the range; \<^const>\<open>None\<close> is a null pointer.\<close>

partial_function (option) GetOverlappingInputs_loop ::
  "(bytes \<Rightarrow> bytes \<Rightarrow> int) \<Rightarrow> bool \<Rightarrow> FileMetaData list \<Rightarrow> nat \<Rightarrow> bytes option \<Rightarrow> bytes option \<Rightarrow> FileMetaData list \<Rightarrow>
    FileMetaData list option" where
  "GetOverlappingInputs_loop ucmp level0 files i user_begin user_end inputs =
     (if i \<ge> length files then Some inputs
      else
        let f = files ! i;
            i = i + 1;
            file_start = ExtractUserKey (fm_smallest f);
            file_limit = ExtractUserKey (fm_largest f)
        in if (case user_begin of None \<Rightarrow> False | Some b \<Rightarrow> ucmp file_limit b < 0)
           then GetOverlappingInputs_loop ucmp level0 files i user_begin user_end inputs
           else if (case user_end of None \<Rightarrow> False | Some e \<Rightarrow> ucmp file_start e > 0)
           then GetOverlappingInputs_loop ucmp level0 files i user_begin user_end inputs
           else if level0 \<and> (case user_begin of None \<Rightarrow> False | Some b \<Rightarrow> ucmp file_start b < 0)
           then GetOverlappingInputs_loop ucmp level0 files 0 (Some file_start) user_end []
           else if level0 \<and> (case user_end of None \<Rightarrow> False | Some e \<Rightarrow> ucmp file_limit e > 0)
           then GetOverlappingInputs_loop ucmp level0 files 0 user_begin (Some file_limit) []
           else GetOverlappingInputs_loop ucmp level0 files i user_begin user_end (inputs @ [f]))"

definition GetOverlappingInputs ::
  "(bytes \<Rightarrow> bytes \<Rightarrow> int) \<Rightarrow> Version \<Rightarrow> nat \<Rightarrow> bytes option \<Rightarrow> bytes option \<Rightarrow> FileMetaData list option" where
  "GetOverlappingInputs ucmp v level begin_key end_key =
     GetOverlappingInputs_loop ucmp (level = 0) (ver_files v ! level) 0
       (map_option ExtractUserKey begin_key) (map_option ExtractUserKey end_key) []"

definition MaxGrandParentOverlapBytes :: "nat \<Rightarrow> int" where
  "MaxGrandParentOverlapBytes max_file_size = 10 * int max_file_size"

partial_function (option) PickLevel_loop :: "(bytes \<Rightarrow> bytes \<Rightarrow> int) \<Rightarrow> nat \<Rightarrow> Version \<Rightarrow> bytes \<Rightarrow> bytes \<Rightarrow> nat \<Rightarrow> nat option" where
  "PickLevel_loop ucmp max_file_size v smallest_user_key largest_user_key level =
     (if level < kMaxMemCompactLevel then
        if OverlapInLevel ucmp v (level + 1) (Some smallest_user_key) (Some largest_user_key) then Some level
        else if level + 2 < kNumLevels then
          Option.bind
            (GetOverlappingInputs ucmp v (level + 2)
              (Some (InternalKey_make smallest_user_key kMaxSequenceNumber kValueTypeForSeek))
              (Some (InternalKey_make largest_user_key 0 kTypeDeletion)))
            (\<lambda>overlaps.
               if TotalFileSize overlaps > MaxGrandParentOverlapBytes max_file_size then Some level
               else PickLevel_loop ucmp max_file_size v smallest_user_key largest_user_key (level + 1))
        else PickLevel_loop ucmp max_file_size v smallest_user_key largest_user_key (level + 1)
      else Some level)"

definition PickLevelForMemTableOutput ::
  "(bytes \<Rightarrow> bytes \<Rightarrow> int) \<Rightarrow> nat \<Rightarrow> Version \<Rightarrow> bytes \<Rightarrow> bytes \<Rightarrow> nat option" where
  "PickLevelForMemTableOutput ucmp max_file_size v smallest_user_key largest_user_key =
     (if \<not> OverlapInLevel ucmp v 0 (Some smallest_user_key) (Some largest_user_key)
      then PickLevel_loop ucmp max_file_size v smallest_user_key largest_user_key 0 else Some 0)"

text \<open>The value files that belong to the inputs of a compaction.\<close>

definition SetVInput_level :: "FileMetaData list \<Rightarrow> FileMetaData list \<Rightarrow> FileMetaData list" where
  "SetVInput_level vfiles inputs =
     List.map_filter (\<lambda>f. find (\<lambda>vmeta. fm_number f = fm_number vmeta) vfiles) inputs"

definition SetVInput ::
  "Version \<Rightarrow> nat \<Rightarrow> FileMetaData list \<times> FileMetaData list \<Rightarrow> FileMetaData list \<times> FileMetaData list \<Rightarrow>
    FileMetaData list \<times> FileMetaData list" where
  "SetVInput v which inputs vinputs =
     (fst vinputs @ SetVInput_level (ver_vfiles v ! which) (fst inputs),
      snd vinputs @ SetVInput_level (ver_vfiles v ! (which + 1)) (snd inputs))"

definition SetVInputV2 :: "nat \<Rightarrow> Version \<Rightarrow> nat \<Rightarrow> u32 set \<Rightarrow> FileMetaData list \<Rightarrow> FileMetaData list" where
  "SetVInputV2 value_size v which vfiles vinputs =
     (let max_stalled_level = (if value_size \<le> 256 then 3 else if value_size \<le> 4096 then 2 else 1)
      in if which \<ge> max_stalled_level
         then vinputs @ concat (map (\<lambda>level. filter (\<lambda>vmeta. fm_number vmeta \<in> ucast ` vfiles) (ver_vfiles v ! level)) [0..<which + 1])
         else vinputs)"

definition Version_DebugString :: "Version \<Rightarrow> string" where
  "Version_DebugString v =
     concat (map (\<lambda>level.
       ''--- level '' @ NumberToString (word_of_nat level) @ '' ---'' @ [CHR 0x0A] @
       concat (map (\<lambda>f. '' '' @ NumberToString (fm_number f) @ '':'' @ NumberToString (fm_file_size f) @ ''['' @
         InternalKey_DebugString (fm_smallest f) @ '' .. '' @ InternalKey_DebugString (fm_largest f) @ '']'' @ [CHR 0x0A])
         (ver_files v ! level))) [0..<kNumLevels])"

section \<open>Sorted levels\<close>

text \<open>
  The levels above 0 hold files in key order without overlap, and the bounds of a file are internal
  keys with a proper tag.
\<close>

definition proper_key :: "(bytes \<Rightarrow> bool) \<Rightarrow> bytes \<Rightarrow> bool" where
  "proper_key uvalid k \<longleftrightarrow> (\<exists>u s t. k = InternalKey_make u s t \<and> s \<le> kMaxSequenceNumber \<and> uvalid u)"

definition file_ok :: "(bytes \<Rightarrow> bytes \<Rightarrow> int) \<Rightarrow> (bytes \<Rightarrow> bool) \<Rightarrow> FileMetaData \<Rightarrow> bool" where
  "file_ok ucmp uvalid f \<longleftrightarrow> proper_key uvalid (fm_smallest f) \<and> proper_key uvalid (fm_largest f) \<and>
     InternalKeyComparator_Compare ucmp (fm_smallest f) (fm_largest f) \<le> 0"

definition level_ok :: "(bytes \<Rightarrow> bytes \<Rightarrow> int) \<Rightarrow> (bytes \<Rightarrow> bool) \<Rightarrow> FileMetaData list \<Rightarrow> bool" where
  "level_ok ucmp uvalid files \<longleftrightarrow> (\<forall>f\<in>set files. file_ok ucmp uvalid f) \<and>
     sorted_wrt (\<lambda>f g. InternalKeyComparator_Compare ucmp (fm_largest f) (fm_smallest g) < 0) files"

lemma ExtractUserKey_make [simp]: "ExtractUserKey (InternalKey_make u s t) = u"
  by (simp add: InternalKey_make_eq)

context user_comparator
begin

lemma proper_ivalid: "proper_key uvalid k \<Longrightarrow> ivalid k"
  by (auto simp add: proper_key_def)

lemma file_ok_ivalid: "file_ok ucmp uvalid f \<Longrightarrow> ivalid (fm_smallest f) \<and> ivalid (fm_largest f)"
  by (simp only: file_ok_def proper_ivalid)

lemma level_okD:
  assumes "level_ok ucmp uvalid files" "i < length files"
  shows "file_ok ucmp uvalid (files ! i)" "ivalid (fm_smallest (files ! i))" "ivalid (fm_largest (files ! i))"
    "uvalid (ExtractUserKey (fm_smallest (files ! i)))" "uvalid (ExtractUserKey (fm_largest (files ! i)))"
    "icmp (fm_smallest (files ! i)) (fm_largest (files ! i)) \<le> 0"
  using assms file_ok_ivalid [of "files ! i"] by (auto simp add: level_ok_def file_ok_def)

lemma level_ok_less:
  assumes "level_ok ucmp uvalid files" "i < j" "j < length files"
  shows "icmp (fm_largest (files ! i)) (fm_smallest (files ! j)) < 0"
  using assms sorted_wrt_nth_less [OF _ assms(2,3)] by (auto simp add: level_ok_def)

lemma largest_less:
  assumes "level_ok ucmp uvalid files" "i < j" "j < length files"
  shows "icmp (fm_largest (files ! i)) (fm_largest (files ! j)) < 0"
  using ikey.cmp_less_le_trans [OF _ _ _ level_ok_less [OF assms]] level_okD [OF assms(1)] assms by (meson less_trans)

lemma smallest_less:
  assumes "level_ok ucmp uvalid files" "i < j" "j < length files"
  shows "icmp (fm_smallest (files ! i)) (fm_smallest (files ! j)) < 0"
  using ikey.cmp_le_less_trans [OF _ _ _ _ level_ok_less [OF assms]] level_okD [OF assms(1)] assms by (meson less_trans)

lemma FindFile_loop_first:
  assumes "level_ok ucmp uvalid files" "ivalid key" "right \<le> length files" "left \<le> right"
    and "\<forall>j<left. icmp (fm_largest (files ! j)) key < 0" "\<forall>j. right \<le> j \<and> j < length files \<longrightarrow> \<not> icmp (fm_largest (files ! j)) key < 0"
  shows "FindFile_loop ucmp files key left right \<le> length files \<and>
    (\<forall>j<FindFile_loop ucmp files key left right. icmp (fm_largest (files ! j)) key < 0) \<and>
    (\<forall>j. FindFile_loop ucmp files key left right \<le> j \<and> j < length files \<longrightarrow> \<not> icmp (fm_largest (files ! j)) key < 0)"
  using assms(3-6)
proof (induction "right - left" arbitrary: left right rule: less_induct)
  case less
  show ?case
  proof (cases "left < right")
    case False
    then show ?thesis
      using less.prems by (subst FindFile_loop.simps, subst FindFile_loop.simps, subst FindFile_loop.simps) auto
  next
    case True
    define mid where "mid = (left + right) div 2"
    have mid: "left \<le> mid" "mid < right" "mid < length files"
      using True less.prems(1) by (auto simp add: mid_def)
    have step: "FindFile_loop ucmp files key left right = (if icmp (fm_largest (files ! mid)) key < 0
        then FindFile_loop ucmp files key (mid + 1) right else FindFile_loop ucmp files key left mid)"
      using True by (subst FindFile_loop.simps) (simp add: mid_def Let_def)
    show ?thesis
    proof (cases "icmp (fm_largest (files ! mid)) key < 0")
      case lt: True
      have "icmp (fm_largest (files ! j)) key < 0" if "j < mid + 1" for j
        using ikey.cmp_less_trans [OF _ _ assms(2) largest_less [OF assms(1) _ mid(3)] lt, of j] level_okD [OF assms(1)] that lt mid(3)
        by (cases "j = mid") auto
      then show ?thesis
        unfolding step if_P [OF lt] using less.prems mid by (intro less.hyps) auto
    next
      case ge: False
      have "\<not> icmp (fm_largest (files ! j)) key < 0" if "mid \<le> j" "j < length files" for j
        using ikey.cmp_less_trans [OF _ _ assms(2) largest_less [OF assms(1) _ that(2)], of mid] level_okD [OF assms(1)] that ge mid(3)
        by (cases "j = mid") auto
      then show ?thesis
        unfolding step if_not_P [OF ge] using less.prems mid by (intro less.hyps) auto
    qed
  qed
qed

lemma FindFile_first:
  assumes "level_ok ucmp uvalid files" "ivalid key"
  shows "FindFile ucmp files key \<le> length files" "j < FindFile ucmp files key \<Longrightarrow> icmp (fm_largest (files ! j)) key < 0"
    "FindFile ucmp files key \<le> j \<Longrightarrow> j < length files \<Longrightarrow> \<not> icmp (fm_largest (files ! j)) key < 0"
  using FindFile_loop_first [OF assms order_refl] by (auto simp add: FindFile_def)

lemma seek_key_less:
  assumes "proper_key uvalid k" "uvalid u"
  shows "icmp k (InternalKey_make u kMaxSequenceNumber kValueTypeForSeek) < 0 \<longleftrightarrow> ucmp (ExtractUserKey k) u < 0"
  using assms by (auto simp add: proper_key_def kValueTypeForSeek_def icmp_make_less_iff leD)

lemma user_key_le: "ivalid a \<Longrightarrow> ivalid b \<Longrightarrow> icmp a b \<le> 0 \<Longrightarrow> ucmp (ExtractUserKey a) (ExtractUserKey b) \<le> 0"
  using ikey.cmp_le_iff [of a b] icmp_user_key(1) [of a b] by auto

lemma overlaps_sorted:
  assumes "level_ok ucmp uvalid files" "\<forall>k. sk = Some k \<longrightarrow> uvalid k" "\<forall>k. lk = Some k \<longrightarrow> uvalid k"
  shows "SomeFileOverlapsRange ucmp True files sk lk = SomeFileOverlapsRange ucmp False files sk lk"
proof -
  define index where "index = (case sk of None \<Rightarrow> 0 | Some k \<Rightarrow> FindFile ucmp files (InternalKey_make k kMaxSequenceNumber kValueTypeForSeek))"
  have after: "AfterFile ucmp sk (files ! j) \<longleftrightarrow> j < index" if "j < length files" for j
  proof (cases sk)
    case (Some k)
    then have k: "uvalid k"
      using assms(2) by simp
    have "icmp (fm_largest (files ! j)) (InternalKey_make k kMaxSequenceNumber kValueTypeForSeek) < 0 \<longleftrightarrow> j < index"
      using FindFile_first(2,3) [OF assms(1), of "InternalKey_make k kMaxSequenceNumber kValueTypeForSeek" j] k that
      by (cases "j < index") (simp_all add: index_def Some)
    then show ?thesis
      using level_okD [OF assms(1) that] k by (auto simp add: AfterFile_def Some seek_key_less file_ok_def user.cmp_gt_iff)
  qed (simp add: index_def AfterFile_def)
  have before: "BeforeFile ucmp lk (files ! j)" if bf: "BeforeFile ucmp lk (files ! i)" and ij: "i \<le> j" "j < length files" for i j
  proof -
    obtain k where k: "lk = Some k" "uvalid k" "ucmp k (ExtractUserKey (fm_smallest (files ! i))) < 0"
      using bf assms(3) by (auto simp add: BeforeFile_def split: option.splits)
    have "ucmp (ExtractUserKey (fm_smallest (files ! i))) (ExtractUserKey (fm_smallest (files ! j))) \<le> 0"
      using smallest_less [OF assms(1), of i j] level_okD [OF assms(1)] ij
      by (cases "i = j") (auto intro!: user_key_le)
    then show ?thesis
      using user.cmp_less_le_trans [OF k(2) _ _ k(3)] level_okD [OF assms(1)] ij by (simp add: BeforeFile_def k(1))
  qed
  have "SomeFileOverlapsRange ucmp False files sk lk \<longleftrightarrow> (\<exists>j<length files. index \<le> j \<and> \<not> BeforeFile ucmp lk (files ! j))"
    unfolding SomeFileOverlapsRange_def list_ex_length using after by (auto simp add: not_less)
  also have "\<dots> \<longleftrightarrow> index < length files \<and> \<not> BeforeFile ucmp lk (files ! index)"
    using before by (meson order_refl order_le_less_trans)
  finally show ?thesis
    by (auto simp add: SomeFileOverlapsRange_def index_def Let_def)
qed

end

section \<open>Overlapping inputs\<close>

abbreviation file_start :: "FileMetaData \<Rightarrow> bytes" where
  "file_start f \<equiv> ExtractUserKey (fm_smallest f)"

abbreviation file_limit :: "FileMetaData \<Rightarrow> bytes" where
  "file_limit f \<equiv> ExtractUserKey (fm_largest f)"

definition overlaps_range :: "(bytes \<Rightarrow> bytes \<Rightarrow> int) \<Rightarrow> bytes option \<Rightarrow> bytes option \<Rightarrow> FileMetaData \<Rightarrow> bool" where
  "overlaps_range ucmp b e f \<longleftrightarrow> (\<forall>k. b = Some k \<longrightarrow> \<not> ucmp (file_limit f) k < 0) \<and> (\<forall>k. e = Some k \<longrightarrow> \<not> ucmp (file_start f) k > 0)"

definition in_range :: "(bytes \<Rightarrow> bytes \<Rightarrow> int) \<Rightarrow> bytes option \<Rightarrow> bytes option \<Rightarrow> FileMetaData \<Rightarrow> bool" where
  "in_range ucmp b e f \<longleftrightarrow> (\<forall>k. b = Some k \<longrightarrow> \<not> ucmp (file_start f) k < 0) \<and> (\<forall>k. e = Some k \<longrightarrow> \<not> ucmp (file_limit f) k > 0)"

text \<open>Files that a chain of overlapping files connects with the range.\<close>

inductive overlap_chain :: "(bytes \<Rightarrow> bytes \<Rightarrow> int) \<Rightarrow> FileMetaData set \<Rightarrow> bytes option \<Rightarrow> bytes option \<Rightarrow> FileMetaData \<Rightarrow> bool"
  for ucmp files b e where
  "f \<in> files \<Longrightarrow> overlaps_range ucmp b e f \<Longrightarrow> overlap_chain ucmp files b e f"
| "overlap_chain ucmp files b e f \<Longrightarrow> g \<in> files \<Longrightarrow> overlaps_range ucmp (Some (file_start f)) (Some (file_limit f)) g \<Longrightarrow>
   overlap_chain ucmp files b e g"

definition file_bounds :: "(bytes \<Rightarrow> bytes \<Rightarrow> int) \<Rightarrow> (bytes \<Rightarrow> bool) \<Rightarrow> FileMetaData \<Rightarrow> bool" where
  "file_bounds ucmp uvalid f \<longleftrightarrow> uvalid (file_start f) \<and> uvalid (file_limit f) \<and> ucmp (file_start f) (file_limit f) \<le> 0"

definition outside :: "(bytes \<Rightarrow> bytes \<Rightarrow> int) \<Rightarrow> FileMetaData list \<Rightarrow> bytes option \<Rightarrow> bytes option \<Rightarrow> nat" where
  "outside ucmp files b e =
     length (filter (\<lambda>f. \<exists>k. b = Some k \<and> ucmp (file_start f) k < 0) files) +
     length (filter (\<lambda>f. \<exists>k. e = Some k \<and> ucmp (file_limit f) k > 0) files)"

lemma length_filter_less:
  "x \<in> set xs \<Longrightarrow> P x \<Longrightarrow> \<not> Q x \<Longrightarrow> (\<And>y. y \<in> set xs \<Longrightarrow> Q y \<Longrightarrow> P y) \<Longrightarrow> length (filter Q xs) < length (filter P xs)"
proof (induction xs)
  case (Cons a xs)
  have le: "length (filter Q ys) \<le> length (filter P ys)" if "\<And>y. y \<in> set ys \<Longrightarrow> Q y \<Longrightarrow> P y" for ys
    using that by (induction ys) auto
  show ?case
  proof (cases "x = a")
    case True
    then show ?thesis using le [of xs] Cons.prems by (auto simp add: less_Suc_eq_le)
  next
    case False
    then show ?thesis using Cons by auto
  qed
qed simp

context user_comparator
begin

lemma file_ok_bounds: "file_ok ucmp uvalid f \<Longrightarrow> file_bounds ucmp uvalid f"
  using file_ok_ivalid [of f] user_key_le [of "fm_smallest f" "fm_largest f"] by (auto simp add: file_bounds_def file_ok_def)

abbreviation bound_ok :: "bytes option \<Rightarrow> bool" where
  "bound_ok b \<equiv> \<forall>k. b = Some k \<longrightarrow> uvalid k"

lemma widen_begin:
  assumes "file_bounds ucmp uvalid f" "file_bounds ucmp uvalid g" "uvalid k" "ucmp (file_start f) k < 0" "overlaps_range ucmp (Some k) e f"
  shows "overlaps_range ucmp (Some k) e g \<Longrightarrow> overlaps_range ucmp (Some (file_start f)) e g"
    and "overlaps_range ucmp (Some (file_start f)) e g \<Longrightarrow> \<not> overlaps_range ucmp (Some k) e g \<Longrightarrow>
      overlaps_range ucmp (Some (file_start f)) (Some (file_limit f)) g"
proof -
  show "overlaps_range ucmp (Some k) e g \<Longrightarrow> overlaps_range ucmp (Some (file_start f)) e g"
    using assms by (auto simp add: overlaps_range_def file_bounds_def intro: user.cmp_less_trans)
  assume "overlaps_range ucmp (Some (file_start f)) e g" "\<not> overlaps_range ucmp (Some k) e g"
  then have "ucmp (file_limit g) k < 0" "\<not> ucmp (file_limit g) (file_start f) < 0"
    by (auto simp add: overlaps_range_def)
  moreover have "ucmp k (file_limit f) \<le> 0"
    using assms user.cmp_not_less by (auto simp add: overlaps_range_def file_bounds_def)
  ultimately have "ucmp (file_start g) (file_limit f) < 0"
    using assms user.cmp_le_less_trans [of "file_start g" "file_limit g" k] user.cmp_less_le_trans [of "file_start g" k "file_limit f"]
    by (simp add: file_bounds_def)
  then show "overlaps_range ucmp (Some (file_start f)) (Some (file_limit f)) g"
    using \<open>\<not> ucmp (file_limit g) (file_start f) < 0\<close> by (simp add: overlaps_range_def)
qed

lemma widen_end:
  assumes "file_bounds ucmp uvalid f" "file_bounds ucmp uvalid g" "uvalid k" "ucmp (file_limit f) k > 0" "overlaps_range ucmp b (Some k) f"
  shows "overlaps_range ucmp b (Some k) g \<Longrightarrow> overlaps_range ucmp b (Some (file_limit f)) g"
    and "overlaps_range ucmp b (Some (file_limit f)) g \<Longrightarrow> \<not> overlaps_range ucmp b (Some k) g \<Longrightarrow>
      overlaps_range ucmp (Some (file_start f)) (Some (file_limit f)) g"
proof -
  have less: "ucmp k (file_limit f) < 0"
    using assms user.cmp_gt_iff by (simp add: file_bounds_def)
  show "overlaps_range ucmp b (Some (file_limit f)) g" if "overlaps_range ucmp b (Some k) g"
  proof -
    have "\<not> ucmp (file_limit f) (file_start g) < 0"
      using that assms less user.cmp_less_trans [of k "file_limit f" "file_start g"] user.cmp_gt_iff
      by (auto simp add: overlaps_range_def file_bounds_def)
    then show ?thesis
      using that assms user.cmp_gt_iff by (auto simp add: overlaps_range_def file_bounds_def)
  qed
  assume "overlaps_range ucmp b (Some (file_limit f)) g" "\<not> overlaps_range ucmp b (Some k) g"
  then have g: "ucmp (file_start g) k > 0" "\<not> ucmp (file_start g) (file_limit f) > 0"
    by (auto simp add: overlaps_range_def)
  then have "ucmp k (file_start g) < 0"
    using assms user.cmp_gt_iff by (simp add: file_bounds_def)
  moreover have "ucmp (file_start f) k \<le> 0"
    using assms user.cmp_not_less user.cmp_gt_iff by (auto simp add: overlaps_range_def file_bounds_def)
  ultimately have "ucmp (file_start f) (file_limit g) < 0"
    using assms user.cmp_le_less_trans [of "file_start f" k "file_start g"] user.cmp_less_le_trans [of "file_start f" "file_start g" "file_limit g"]
    by (simp add: file_bounds_def)
  then have "\<not> ucmp (file_limit g) (file_start f) < 0"
    using assms user.cmp_swap by (fastforce simp add: file_bounds_def)
  then show "overlaps_range ucmp (Some (file_start f)) (Some (file_limit f)) g"
    using g(2) by (simp add: overlaps_range_def)
qed

lemma restart_measure: "m < n \<Longrightarrow> m * Suc l + (l - 0) < n * Suc l + (l - i)" for m n l i :: nat
proof -
  assume "m < n"
  then have "Suc m * Suc l \<le> n * Suc l"
    by (intro mult_le_mono1) simp
  then show ?thesis by simp
qed

lemma restart_begin:
  assumes "\<forall>f\<in>set files. file_bounds ucmp uvalid f" "f \<in> set files" "uvalid k" "ucmp (file_start f) k < 0"
  shows "outside ucmp files (Some (file_start f)) e < outside ucmp files (Some k) e"
proof -
  have f: "uvalid (file_start f)"
    using assms(1,2) by (simp add: file_bounds_def)
  have "ucmp (file_start g) k < 0" if "g \<in> set files" "ucmp (file_start g) (file_start f) < 0" for g
    using user.cmp_less_trans [OF _ f assms(3) that(2) assms(4)] assms(1) that(1) by (simp add: file_bounds_def)
  then have "length (filter (\<lambda>g. ucmp (file_start g) (file_start f) < 0) files) < length (filter (\<lambda>g. ucmp (file_start g) k < 0) files)"
    using assms(2,4) user.cmp_refl [OF f] by (intro length_filter_less [of f]) auto
  then show ?thesis
    by (simp add: outside_def)
qed

lemma restart_end:
  assumes "\<forall>f\<in>set files. file_bounds ucmp uvalid f" "f \<in> set files" "uvalid k" "ucmp (file_limit f) k > 0"
  shows "outside ucmp files b (Some (file_limit f)) < outside ucmp files b (Some k)"
proof -
  have f: "uvalid (file_limit f)"
    using assms(1,2) by (simp add: file_bounds_def)
  have "ucmp (file_limit g) k > 0" if "g \<in> set files" "ucmp (file_limit g) (file_limit f) > 0" for g
  proof -
    have g: "uvalid (file_limit g)"
      using assms(1) that(1) by (simp add: file_bounds_def)
    then show ?thesis
      using user.cmp_less_trans [OF assms(3) f g] assms(4) that(2) user.cmp_gt_iff [OF f assms(3)] user.cmp_gt_iff [OF g f]
        user.cmp_gt_iff [OF g assms(3)] by simp
  qed
  then have "length (filter (\<lambda>g. ucmp (file_limit g) (file_limit f) > 0) files) < length (filter (\<lambda>g. ucmp (file_limit g) k > 0) files)"
    using assms(2,4) user.cmp_refl [OF f] by (intro length_filter_less [of f]) auto
  then show ?thesis
    by (simp add: outside_def)
qed

lemma GetOverlappingInputs_loop_ok:
  assumes files: "\<forall>f\<in>set files. file_bounds ucmp uvalid f"
  shows "bound_ok b \<Longrightarrow> bound_ok e \<Longrightarrow> i \<le> length files \<Longrightarrow> inputs = filter (overlaps_range ucmp b e) (take i files) \<Longrightarrow>
    (level0 \<longrightarrow> (\<forall>f\<in>set inputs. in_range ucmp b e f)) \<Longrightarrow>
    (\<forall>f\<in>set files. overlaps_range ucmp b e f \<longrightarrow> overlap_chain ucmp (set files) b0 e0 f) \<Longrightarrow>
    \<exists>b' e'. GetOverlappingInputs_loop ucmp level0 files i b e inputs = Some (filter (overlaps_range ucmp b' e') files) \<and>
      bound_ok b' \<and> bound_ok e' \<and> (\<forall>f\<in>set files. overlaps_range ucmp b e f \<longrightarrow> overlaps_range ucmp b' e' f) \<and>
      (\<forall>f\<in>set files. overlaps_range ucmp b' e' f \<longrightarrow> overlap_chain ucmp (set files) b0 e0 f) \<and>
      (if level0 then \<forall>f\<in>set files. overlaps_range ucmp b' e' f \<longrightarrow> in_range ucmp b' e' f else b' = b \<and> e' = e)"
proof (induction "outside ucmp files b e * Suc (length files) + (length files - i)" arbitrary: b e i inputs rule: less_induct)
  case less
  show ?case
  proof (cases "i < length files")
    case False
    then have "inputs = filter (overlaps_range ucmp b e) files"
      using less.prems(3,4) by simp
    then show ?thesis
      using False less.prems by (subst GetOverlappingInputs_loop.simps) (intro exI [of _ b] exI [of _ e], auto)
  next
    case True
    define f where "f = files ! i"
    have f: "f \<in> set files" "file_bounds ucmp uvalid f"
      using True files by (auto simp add: f_def)
    have take: "take (Suc i) files = take i files @ [f]"
      using True by (simp add: f_def take_Suc_conv_app_nth)
    have unfold: "GetOverlappingInputs_loop ucmp level0 files i b e inputs =
      (if \<not> overlaps_range ucmp b e f then GetOverlappingInputs_loop ucmp level0 files (Suc i) b e inputs
       else if level0 \<and> (\<exists>k. b = Some k \<and> ucmp (file_start f) k < 0)
       then GetOverlappingInputs_loop ucmp level0 files 0 (Some (file_start f)) e []
       else if level0 \<and> (\<exists>k. e = Some k \<and> ucmp (file_limit f) k > 0)
       then GetOverlappingInputs_loop ucmp level0 files 0 b (Some (file_limit f)) []
       else GetOverlappingInputs_loop ucmp level0 files (Suc i) b e (inputs @ [f]))"
      using True by (subst GetOverlappingInputs_loop.simps)
        (auto simp add: Let_def f_def overlaps_range_def not_le split: option.splits)
    consider (skip) "\<not> overlaps_range ucmp b e f"
      | (left) k where "overlaps_range ucmp b e f" "level0" "b = Some k" "ucmp (file_start f) k < 0"
      | (right) k where "overlaps_range ucmp b e f" "level0" "\<not> (\<exists>k. b = Some k \<and> ucmp (file_start f) k < 0)"
          "e = Some k" "ucmp (file_limit f) k > 0"
      | (take) "overlaps_range ucmp b e f" "level0 \<longrightarrow> in_range ucmp b e f"
      by (auto simp add: in_range_def)
    then show ?thesis
    proof cases
      case skip
      then show ?thesis
        unfolding unfold using less.prems True take by (simp add: less.hyps)
    next
      case take
      have "GetOverlappingInputs_loop ucmp level0 files i b e inputs = GetOverlappingInputs_loop ucmp level0 files (Suc i) b e (inputs @ [f])"
        unfolding unfold using take by (auto simp add: in_range_def)
      then show ?thesis
        using less.prems True take \<open>take (Suc i) files = take i files @ [f]\<close> by (simp add: less.hyps)
    next
      case (left k)
      have k: "uvalid k"
        using less.prems(1) left(3) by simp
      note widen = widen_begin [OF f(2) _ k left(4) left(1) [unfolded left(3)]]
      have smaller: "outside ucmp files (Some (file_start f)) e < outside ucmp files b e"
        using restart_begin [OF files f(1) k left(4)] by (simp add: left(3))
      have chain: "\<forall>g\<in>set files. overlaps_range ucmp (Some (file_start f)) e g \<longrightarrow> overlap_chain ucmp (set files) b0 e0 g"
        using widen(2) files less.prems(6) left(1,3) f(1) overlap_chain.intros(2) by metis
      have "\<exists>b' e'. GetOverlappingInputs_loop ucmp level0 files 0 (Some (file_start f)) e [] = Some (filter (overlaps_range ucmp b' e') files) \<and>
        bound_ok b' \<and> bound_ok e' \<and> (\<forall>g\<in>set files. overlaps_range ucmp (Some (file_start f)) e g \<longrightarrow> overlaps_range ucmp b' e' g) \<and>
        (\<forall>f\<in>set files. overlaps_range ucmp b' e' f \<longrightarrow> overlap_chain ucmp (set files) b0 e0 f) \<and>
        (if level0 then \<forall>f\<in>set files. overlaps_range ucmp b' e' f \<longrightarrow> in_range ucmp b' e' f else b' = Some (file_start f) \<and> e' = e)"
        by (rule less.hyps [OF restart_measure [OF smaller] _ less.prems(2) _ _ _ chain]) (use f(2) in \<open>simp_all add: file_bounds_def\<close>)
      moreover have "GetOverlappingInputs_loop ucmp level0 files i b e inputs = GetOverlappingInputs_loop ucmp level0 files 0 (Some (file_start f)) e []"
        unfolding unfold using left by simp
      moreover have "\<forall>g\<in>set files. overlaps_range ucmp b e g \<longrightarrow> overlaps_range ucmp (Some (file_start f)) e g"
        using widen(1) files left(3) by blast
      ultimately show ?thesis
        using left(2) by simp blast
    next
      case (right k)
      have k: "uvalid k"
        using less.prems(2) right(4) by simp
      note widen = widen_end [OF f(2) _ k right(5) right(1) [unfolded right(4)]]
      have smaller: "outside ucmp files b (Some (file_limit f)) < outside ucmp files b e"
        using restart_end [OF files f(1) k right(5)] by (simp add: right(4))
      have chain: "\<forall>g\<in>set files. overlaps_range ucmp b (Some (file_limit f)) g \<longrightarrow> overlap_chain ucmp (set files) b0 e0 g"
        using widen(2) files less.prems(6) right(1,4) f(1) overlap_chain.intros(2) by metis
      have "\<exists>b' e'. GetOverlappingInputs_loop ucmp level0 files 0 b (Some (file_limit f)) [] = Some (filter (overlaps_range ucmp b' e') files) \<and>
        bound_ok b' \<and> bound_ok e' \<and> (\<forall>g\<in>set files. overlaps_range ucmp b (Some (file_limit f)) g \<longrightarrow> overlaps_range ucmp b' e' g) \<and>
        (\<forall>f\<in>set files. overlaps_range ucmp b' e' f \<longrightarrow> overlap_chain ucmp (set files) b0 e0 f) \<and>
        (if level0 then \<forall>f\<in>set files. overlaps_range ucmp b' e' f \<longrightarrow> in_range ucmp b' e' f else b' = b \<and> e' = Some (file_limit f))"
        by (rule less.hyps [OF restart_measure [OF smaller] less.prems(1) _ _ _ _ chain]) (use f(2) in \<open>simp_all add: file_bounds_def\<close>)
      moreover have "GetOverlappingInputs_loop ucmp level0 files i b e inputs = GetOverlappingInputs_loop ucmp level0 files 0 b (Some (file_limit f)) []"
        unfolding unfold using right by auto
      moreover have "\<forall>g\<in>set files. overlaps_range ucmp b e g \<longrightarrow> overlaps_range ucmp b (Some (file_limit f)) g"
        using widen(1) files right(4) by blast
      ultimately show ?thesis
        using right(2) by simp blast
    qed
  qed
qed

lemma in_range_overlap:
  assumes "file_bounds ucmp uvalid f" "file_bounds ucmp uvalid g" "bound_ok b" "bound_ok e" "in_range ucmp b e f"
    and "overlaps_range ucmp (Some (file_start f)) (Some (file_limit f)) g"
  shows "overlaps_range ucmp b e g"
proof -
  have "\<not> ucmp (file_limit g) k < 0" if "b = Some k" for k
    using user.cmp_less_le_trans [of "file_limit g" k "file_start f"] user.cmp_not_less [of "file_start f" k] assms that
    by (auto simp add: in_range_def overlaps_range_def file_bounds_def)
  moreover have "\<not> ucmp (file_start g) k > 0" if "e = Some k" for k
  proof -
    have u: "uvalid k" "uvalid (file_start g)" "uvalid (file_limit f)"
      using assms(1-4) that by (auto simp add: file_bounds_def)
    have "ucmp (file_limit f) k \<le> 0" "ucmp (file_start g) (file_limit f) \<le> 0"
      using assms(5,6) that by (auto simp add: in_range_def overlaps_range_def)
    then show ?thesis
      using user.cmp_le_trans [OF u(2,3,1)] by simp
  qed
  ultimately show ?thesis
    by (simp add: overlaps_range_def)
qed

lemma GetOverlappingInputs_ok:
  assumes "\<forall>f\<in>set (ver_files v ! level). file_ok ucmp uvalid f" "\<forall>k. b = Some k \<longrightarrow> ivalid k" "\<forall>k. e = Some k \<longrightarrow> ivalid k"
  shows "\<exists>inputs. GetOverlappingInputs ucmp v level b e = Some inputs \<and>
    inputs = filter (\<lambda>f. f \<in> set inputs) (ver_files v ! level) \<and>
    (\<forall>f. f \<in> set inputs \<longleftrightarrow>
      (if level = 0 then overlap_chain ucmp (set (ver_files v ! level)) (map_option ExtractUserKey b) (map_option ExtractUserKey e) f
       else f \<in> set (ver_files v ! level) \<and> overlaps_range ucmp (map_option ExtractUserKey b) (map_option ExtractUserKey e) f))"
proof -
  let ?files = "ver_files v ! level" and ?b = "map_option ExtractUserKey b" and ?e = "map_option ExtractUserKey e"
  have files: "\<forall>f\<in>set ?files. file_bounds ucmp uvalid f"
    using assms(1) file_ok_bounds by blast
  have "bound_ok ?b" "bound_ok ?e"
    using assms(2,3) by auto
  moreover have "\<forall>f\<in>set ?files. overlaps_range ucmp ?b ?e f \<longrightarrow> overlap_chain ucmp (set ?files) ?b ?e f"
    by (simp add: overlap_chain.intros(1))
  ultimately obtain b' e' where r: "GetOverlappingInputs ucmp v level b e = Some (filter (overlaps_range ucmp b' e') ?files)"
      "bound_ok b'" "bound_ok e'" "\<forall>f\<in>set ?files. overlaps_range ucmp ?b ?e f \<longrightarrow> overlaps_range ucmp b' e' f"
      "\<forall>f\<in>set ?files. overlaps_range ucmp b' e' f \<longrightarrow> overlap_chain ucmp (set ?files) ?b ?e f"
      "if level = 0 then \<forall>f\<in>set ?files. overlaps_range ucmp b' e' f \<longrightarrow> in_range ucmp b' e' f else b' = ?b \<and> e' = ?e"
    using GetOverlappingInputs_loop_ok [OF files, of ?b ?e 0 "[]" "level = 0" ?b ?e] unfolding GetOverlappingInputs_def by fastforce
  have chain: "f \<in> set ?files \<and> overlaps_range ucmp b' e' f" if "overlap_chain ucmp (set ?files) ?b ?e f" "level = 0" for f
    using that(1)
  proof (induction rule: overlap_chain.induct)
    case (1 f)
    then show ?case using r(4) by blast
  next
    case (2 f g)
    have "in_range ucmp b' e' f"
      using 2(4) r(6) that(2) by simp
    then show ?case
      using in_range_overlap [OF _ _ r(2,3), of f g] 2 files by blast
  qed
  show ?thesis
  proof (intro exI [of _ "filter (overlaps_range ucmp b' e') ?files"] conjI allI r(1))
    show "filter (overlaps_range ucmp b' e') ?files = filter (\<lambda>f. f \<in> set (filter (overlaps_range ucmp b' e') ?files)) ?files"
      by (rule filter_cong) simp_all
    fix f
    show "f \<in> set (filter (overlaps_range ucmp b' e') ?files) \<longleftrightarrow>
        (if level = 0 then overlap_chain ucmp (set ?files) ?b ?e f else f \<in> set ?files \<and> overlaps_range ucmp ?b ?e f)"
      using r(5,6) chain [of f] by auto
  qed
qed

end

section \<open>Properties\<close>

text \<open>C39. The search for the compaction inputs of a range of user keys ends. At level 0 it returns
  exactly the files that a chain of overlapping files connects with the range; at the other levels
  exactly the files that overlap the range; in both cases in the order of the level.\<close>

theorem overlapping_inputs:
  assumes "\<forall>f\<in>set (ver_files v ! level). file_ok BytewiseComparator_Compare (\<lambda>_. True) f"
    and "\<forall>k. b = Some k \<longrightarrow> 8 \<le> length k" "\<forall>k. e = Some k \<longrightarrow> 8 \<le> length k"
  shows "\<exists>inputs. GetOverlappingInputs BytewiseComparator_Compare v level b e = Some inputs \<and>
    inputs = filter (\<lambda>f. f \<in> set inputs) (ver_files v ! level) \<and>
    (\<forall>f. f \<in> set inputs \<longleftrightarrow>
      (if level = 0
       then overlap_chain BytewiseComparator_Compare (set (ver_files v ! level)) (map_option ExtractUserKey b) (map_option ExtractUserKey e) f
       else f \<in> set (ver_files v ! level) \<and>
         overlaps_range BytewiseComparator_Compare (map_option ExtractUserKey b) (map_option ExtractUserKey e) f))"
  using bytewise.GetOverlappingInputs_ok [of v level b e] assms by simp

definition range_file :: "bytes \<Rightarrow> bytes \<Rightarrow> FileMetaData" where
  "range_file a b = FileMetaData_make\<lparr>fm_smallest := InternalKey_make a 1 kTypeValue, fm_largest := InternalKey_make b 1 kTypeValue\<rparr>"

lemma proper_key_make: "s \<le> kMaxSequenceNumber \<Longrightarrow> uvalid u \<Longrightarrow> proper_key uvalid (InternalKey_make u s t)"
  unfolding proper_key_def by blast

lemma range_file_keys [simp]:
  "fm_smallest (range_file a b) = InternalKey_make a 1 kTypeValue" "fm_largest (range_file a b) = InternalKey_make b 1 kTypeValue"
  by (simp_all add: range_file_def)

lemma range_file_ok:
  "BytewiseComparator_Compare a b < 0 \<or> a = b \<Longrightarrow> file_ok BytewiseComparator_Compare (\<lambda>_. True) (range_file a b)"
  using bytewise.icmp_make_less_iff [of 1 1 a kTypeValue b kTypeValue] bytewise.ikey.cmp_refl [of "InternalKey_make a 1 kTypeValue"]
  by (auto simp add: file_ok_def proper_key_make kMaxSequenceNumber_def)

theorem overlapping_inputs_witness:
  "let v = (Version_make kNumLevels)\<lparr>ver_files := [[range_file [3] [5], range_file [1] [3], range_file [7] [7]]]\<rparr>
   in \<exists>inputs. GetOverlappingInputs BytewiseComparator_Compare v 0 None (Some (InternalKey_make [2] 1 kTypeValue)) = Some inputs \<and>
     range_file [3] [5] \<in> set inputs"
proof -
  define v where "v = (Version_make kNumLevels)\<lparr>ver_files := [[range_file [3] [5], range_file [1] [3], range_file [7] [7]]]\<rparr>"
  note cmp = BytewiseComparator_Compare_def Slice_compare_def Let_def
  let ?e = "Some (InternalKey_make [2] 1 kTypeValue)"
  have files: "ver_files v ! 0 = [range_file [3] [5], range_file [1] [3], range_file [7] [7]]"
    by (simp add: v_def)
  have ok: "\<forall>f\<in>set (ver_files v ! 0). file_ok BytewiseComparator_Compare (\<lambda>_. True) f"
    unfolding files by (auto intro!: range_file_ok simp add: cmp)
  have "overlap_chain BytewiseComparator_Compare (set (ver_files v ! 0)) None (Some [2]) (range_file [1] [3])"
    by (rule overlap_chain.intros(1)) (simp_all add: files overlaps_range_def cmp)
  then have "overlap_chain BytewiseComparator_Compare (set (ver_files v ! 0)) None (Some [2]) (range_file [3] [5])"
    by (rule overlap_chain.intros(2)) (simp_all add: files overlaps_range_def cmp)
  then show ?thesis
    using overlapping_inputs [OF ok, of None ?e] unfolding v_def [symmetric] Let_def by auto
qed

text \<open>C40. Whether some file of a sorted level of disjoint files overlaps a range of user keys can be
  decided by a binary search: it gives the answer of the scan over all files.\<close>

theorem some_file_overlaps:
  assumes "level_ok BytewiseComparator_Compare (\<lambda>_. True) files"
  shows "SomeFileOverlapsRange BytewiseComparator_Compare True files smallest largest =
    SomeFileOverlapsRange BytewiseComparator_Compare False files smallest largest"
  by (rule bytewise.overlaps_sorted [OF assms]) simp_all

theorem some_file_overlaps_witness:
  "\<not> SomeFileOverlapsRange BytewiseComparator_Compare True [range_file [1] [3], range_file [5] [7]] (Some [4]) (Some [4])"
proof -
  note cmp = BytewiseComparator_Compare_def Slice_compare_def Let_def
  have "level_ok BytewiseComparator_Compare (\<lambda>_. True) [range_file [1] [3], range_file [5] [7]]"
    using bytewise.icmp_make_less_iff [of 1 1 "[3]" kTypeValue "[5]" kTypeValue]
    by (auto simp add: level_ok_def kMaxSequenceNumber_def cmp intro!: range_file_ok)
  then show ?thesis
    by (simp add: some_file_overlaps) (simp add: SomeFileOverlapsRange_def AfterFile_def BeforeFile_def cmp)
qed

end
