(* ===== verification/Version_Lookup.thy ===== *)
theory Version_Lookup
  imports Version_Files
begin

text \<open>
  Lookups in a version: \<open>Version_Get\<close>, over the files of all levels read through the table cache,
  against the entry a lookup has to find, the newest one a snapshot sees. A version asks of its files
  what the locale \<open>table_store\<close> says; the interpretation discharges it for files in memory that were
  written by the table builder.
\<close>

section \<open>What a lookup has to find\<close>

type_synonym run = "mem_entry list"

definition visible :: "bytes \<Rightarrow> SequenceNumber \<Rightarrow> mem_entry \<Rightarrow> bool" where
  "visible u s e \<longleftrightarrow> fst e = u \<and> fst (snd e) \<le> s"

text \<open>The newest entry of a set of entries that a snapshot sees for a user key, or none.\<close>

definition newest_visible :: "bytes \<Rightarrow> SequenceNumber \<Rightarrow> mem_entry set \<Rightarrow> mem_entry option \<Rightarrow> bool" where
  "newest_visible u s E r \<longleftrightarrow>
     (case r of
        None \<Rightarrow> \<forall>e\<in>E. \<not> visible u s e
      | Some e \<Rightarrow> e \<in> E \<and> visible u s e \<and> (\<forall>e'\<in>E. visible u s e' \<longrightarrow> fst (snd e') \<le> fst (snd e)))"

definition newer_run :: "run \<Rightarrow> run \<Rightarrow> bool" where
  "newer_run r r' \<longleftrightarrow> (\<forall>e\<in>set r. \<forall>e'\<in>set r'. fst e = fst e' \<longrightarrow> fst (snd e') < fst (snd e))"

definition newest_first :: "run list \<Rightarrow> bool" where
  "newest_first runs \<longleftrightarrow> sorted_wrt newer_run runs"

fun first_some :: "'a option list \<Rightarrow> 'a option" where
  "first_some [] = None"
| "first_some (None # xs) = first_some xs"
| "first_some (Some x # xs) = Some x"

lemma first_some_append: "first_some (xs @ ys) = (case first_some xs of None \<Rightarrow> first_some ys | Some x \<Rightarrow> Some x)"
  by (induction xs rule: first_some.induct) simp_all

lemma first_some_Cons: "first_some (x # xs) = (case x of None \<Rightarrow> first_some xs | Some y \<Rightarrow> Some y)"
  by (cases x) simp_all

lemma first_some_filter: "(\<And>x. x \<in> set xs \<Longrightarrow> \<not> P x \<Longrightarrow> f x = None) \<Longrightarrow> first_some (map f (filter P xs)) = first_some (map f xs)"
proof (induction xs)
  case (Cons x xs)
  then show ?case by (cases "f x") auto
qed simp

lemma first_some_concat: "first_some (concat xss) = first_some (map first_some xss)"
proof (induction xss)
  case (Cons xs xss)
  then show ?case by (cases "first_some xs") (simp_all add: first_some_append)
qed simp

lemma lookup_entry_visible: "lookup_entry u s es = find (visible u s) es"
  unfolding lookup_entry_def by (rule arg_cong [of _ _ "\<lambda>p. find p es"]) (auto simp add: visible_def fun_eq_iff)

lemma lookup_entry_append:
  "lookup_entry u s (xs @ ys) = (case lookup_entry u s xs of None \<Rightarrow> lookup_entry u s ys | Some e \<Rightarrow> Some e)"
  unfolding lookup_entry_def by (induction xs) auto

lemma newest_visible_Un:
  assumes "newest_visible u s A r" "newest_visible u s B r'"
    and "\<forall>e\<in>A. \<forall>e'\<in>B. fst e = fst e' \<longrightarrow> fst (snd e') < fst (snd e)"
  shows "newest_visible u s (A \<union> B) (case r of None \<Rightarrow> r' | Some e \<Rightarrow> Some e)"
proof (cases r)
  case None
  then show ?thesis
    using assms by (cases r') (auto simp add: newest_visible_def)
next
  case (Some e)
  then have e: "e \<in> A" "visible u s e" "\<forall>e'\<in>A. visible u s e' \<longrightarrow> fst (snd e') \<le> fst (snd e)"
    using assms(1) by (simp_all add: newest_visible_def)
  have "fst (snd e') \<le> fst (snd e)" if "e' \<in> B" "visible u s e'" for e'
    using assms(3) e(1,2) that by (fastforce simp add: visible_def)
  then show ?thesis
    using e by (auto simp add: newest_visible_def Some)
qed

lemma newest_visible_runs:
  assumes "newest_first runs" "\<forall>r\<in>set runs. newest_visible u s (set r) (lookup_entry u s r)"
  shows "newest_visible u s (set (concat runs)) (first_some (map (lookup_entry u s) runs))"
  using assms
proof (induction runs)
  case Nil
  show ?case by (simp add: newest_visible_def)
next
  case (Cons r runs)
  have "newest_visible u s (set (concat runs)) (first_some (map (lookup_entry u s) runs))"
    using Cons by (simp add: newest_first_def)
  moreover have "\<forall>e\<in>set r. \<forall>e'\<in>set (concat runs). fst e = fst e' \<longrightarrow> fst (snd e') < fst (snd e)"
    using Cons.prems(1) by (auto simp add: newest_first_def newer_run_def)
  ultimately have "newest_visible u s (set r \<union> set (concat runs))
      (case lookup_entry u s r of None \<Rightarrow> first_some (map (lookup_entry u s) runs) | Some e \<Rightarrow> Some e)"
    using Cons.prems(2) by (intro newest_visible_Un) simp_all
  then show ?case
    by (cases "lookup_entry u s r") simp_all
qed

context user_comparator
begin

lemma lookup_entry_newest:
  assumes "sorted_wrt (before_entry ucmp) es" "\<forall>e\<in>set es. entry_fits e \<and> uvalid (fst e)"
  shows "newest_visible u s (set es) (lookup_entry u s es)"
  using assms
proof (induction es)
  case Nil
  show ?case by (simp add: newest_visible_def lookup_entry_def)
next
  case (Cons e es)
  have IH: "newest_visible u s (set es) (lookup_entry u s es)"
    using Cons by simp
  have newer: "fst (snd e') \<le> fst (snd e)" if "e' \<in> set es" "fst e' = fst e" for e'
  proof -
    have "icmp (entry_key e) (entry_key e') < 0"
      using Cons.prems(1) that(1) by (simp add: before_entry_def)
    moreover have "entry_fits e" "entry_fits e'" "uvalid (fst e)"
      using Cons.prems(2) that(1) by simp_all
    ultimately show ?thesis
      using that icmp_make_less_iff [of "fst e" "fst e'" "fst (snd e)" "fst (snd e')" "fst (snd (snd e))" "fst (snd (snd e'))"]
      by (cases e; cases e') (auto simp add: user.cmp_refl)
  qed
  show ?case
  proof (cases "visible u s e")
    case True
    then have "lookup_entry u s (e # es) = Some e"
      by (simp add: lookup_entry_visible)
    then show ?thesis
      using True newer by (auto simp add: newest_visible_def visible_def)
  next
    case False
    then have "lookup_entry u s (e # es) = lookup_entry u s es"
      by (simp add: lookup_entry_visible)
    then show ?thesis
      using IH False by (auto simp add: newest_visible_def split: option.splits)
  qed
qed

end

section \<open>Lookups in a version\<close>

text \<open>
  What a lookup relies on: \<open>table_get\<close> answers like the sorted, non-empty list of entries of the
  file, and the bounds of a file are its first and its last key.
\<close>

definition saved :: "mem_entry option \<Rightarrow> bytes \<Rightarrow> bytes \<Rightarrow> Saver" where
  "saved r u value =
     (case r of
        None \<Rightarrow> \<lparr>sv_state = Saver_kNotFound, sv_user_key = u, sv_value = value\<rparr>
      | Some (_, _, kTypeValue, v) \<Rightarrow> \<lparr>sv_state = Saver_kFound, sv_user_key = u, sv_value = v\<rparr>
      | Some (_, _, kTypeDeletion, _) \<Rightarrow> \<lparr>sv_state = Saver_kDeleted, sv_user_key = u, sv_value = value\<rparr>)"

definition outcome :: "mem_entry option \<Rightarrow> bytes \<Rightarrow> status \<times> bytes" where
  "outcome r value =
     (case r of
        None \<Rightarrow> (Status_OK, value)
      | Some (_, _, kTypeValue, v) \<Rightarrow> (Status_OK, v)
      | Some (_, _, kTypeDeletion, _) \<Rightarrow> (NotFound [], value))"

definition version_runs :: "(FileMetaData \<Rightarrow> run) \<Rightarrow> Version \<Rightarrow> run list" where
  "version_runs entries v =
     map entries (NewestFirst (ver_files v ! 0)) @
     map (\<lambda>level. concat (map entries (ver_files v ! level))) [1..<kNumLevels]"

text \<open>
  What is known of the files of a version: at level 0 a file with a larger number is newer, and every
  level is newer than the levels after it.
\<close>

definition newest_files :: "(FileMetaData \<Rightarrow> run) \<Rightarrow> Version \<Rightarrow> bool" where
  "newest_files entries v \<longleftrightarrow> distinct (map fm_number (ver_files v ! 0)) \<and>
     (\<forall>f\<in>set (ver_files v ! 0). \<forall>g\<in>set (ver_files v ! 0). fm_number g < fm_number f \<longrightarrow> newer_run (entries f) (entries g)) \<and>
     (\<forall>level level'. level < level' \<longrightarrow> level' < kNumLevels \<longrightarrow>
        (\<forall>f\<in>set (ver_files v ! level). \<forall>g\<in>set (ver_files v ! level'). newer_run (entries f) (entries g)))"

definition version_entries :: "(FileMetaData \<Rightarrow> run) \<Rightarrow> Version \<Rightarrow> mem_entry set" where
  "version_entries entries v = (\<Union>level<kNumLevels. \<Union>f\<in>set (ver_files v ! level). set (entries f))"

lemma descending_numbers:
  "sorted (map (\<lambda>f. - uint (fm_number f)) fs) \<Longrightarrow> distinct (map fm_number fs) \<Longrightarrow> sorted_wrt (\<lambda>f g. fm_number g < fm_number f) fs"
proof (induction fs)
  case (Cons f fs)
  have "fm_number g < fm_number f" if "g \<in> set fs" for g
  proof -
    have "uint (fm_number g) \<le> uint (fm_number f)"
      using Cons.prems(1) that by simp
    moreover have "fm_number f \<noteq> fm_number g"
      using Cons.prems(2) that by (auto simp del: word_neq_0_conv)
    ultimately show ?thesis
      by (simp add: word_le_def [symmetric])
  qed
  then show ?case
    using Cons by simp
qed simp

lemma NewestFirst_sorted:
  assumes "distinct (map fm_number files)"
  shows "sorted_wrt (\<lambda>f g. fm_number g < fm_number f) (NewestFirst files)"
proof (rule descending_numbers)
  show "sorted (map (\<lambda>f. - uint (fm_number f)) (NewestFirst files))"
    by (simp add: NewestFirst_def)
  have "mset (map fm_number (NewestFirst files)) = mset (map fm_number files)"
    by (simp add: NewestFirst_def)
  then show "distinct (map fm_number (NewestFirst files))"
    using assms by (metis mset_eq_imp_distinct_iff)
qed

lemma newest_files_runs:
  assumes "newest_files entries v"
  shows "newest_first (version_runs entries v)"
proof -
  have files: "distinct (map fm_number (ver_files v ! 0))"
      "\<And>f g. f \<in> set (ver_files v ! 0) \<Longrightarrow> g \<in> set (ver_files v ! 0) \<Longrightarrow> fm_number g < fm_number f \<Longrightarrow> newer_run (entries f) (entries g)"
      "\<And>level level' f g. level < level' \<Longrightarrow> level' < kNumLevels \<Longrightarrow> f \<in> set (ver_files v ! level) \<Longrightarrow> g \<in> set (ver_files v ! level') \<Longrightarrow>
        newer_run (entries f) (entries g)"
    using assms by (auto simp add: newest_files_def)
  have "sorted_wrt newer_run (map entries (NewestFirst (ver_files v ! 0)))"
    unfolding sorted_wrt_map
    by (rule sorted_wrt_mono_rel [OF _ NewestFirst_sorted [OF files(1)]]) (auto intro: files(2) simp add: NewestFirst_def)
  moreover have "sorted_wrt newer_run (map (\<lambda>level. concat (map entries (ver_files v ! level))) [1..<kNumLevels])"
    unfolding sorted_wrt_map
    by (rule sorted_wrt_mono_rel [OF _ sorted_wrt_upt]) (use files(3) in \<open>fastforce simp add: newer_run_def\<close>)
  moreover have "newer_run (entries f) (concat (map entries (ver_files v ! level)))"
    if "f \<in> set (ver_files v ! 0)" "0 < level" "level < kNumLevels" for f level
    using files(3) [OF that(2,3,1)] by (auto simp add: newer_run_def)
  ultimately show ?thesis
    by (auto simp add: newest_first_def version_runs_def sorted_wrt_append NewestFirst_def)
qed

lemma version_entries_runs: "set (concat (version_runs entries v)) = version_entries entries v"
proof -
  have "{..<kNumLevels} = insert 0 {1..<kNumLevels}"
    by (auto simp add: kNumLevels_def)
  then show ?thesis
    by (auto simp add: version_entries_def version_runs_def NewestFirst_def)
qed

definition version_ok :: "(bytes \<Rightarrow> bytes \<Rightarrow> int) \<Rightarrow> (bytes \<Rightarrow> bool) \<Rightarrow> (FileMetaData \<Rightarrow> bool) \<Rightarrow> Version \<Rightarrow> bool" where
  "version_ok ucmp uvalid good v \<longleftrightarrow> length (ver_files v) = kNumLevels \<and> (\<forall>level<kNumLevels. \<forall>f\<in>set (ver_files v ! level). good f) \<and>
     (\<forall>level<kNumLevels. 0 < level \<longrightarrow> level_ok ucmp uvalid (ver_files v ! level))"

locale table_store = user_comparator ucmp uvalid
  for ucmp :: "bytes \<Rightarrow> bytes \<Rightarrow> int" and uvalid :: "bytes \<Rightarrow> bool" +
  fixes table_get :: "FileMetaData \<Rightarrow> bytes \<Rightarrow> Saver \<Rightarrow> status \<times> Saver" and entries :: "FileMetaData \<Rightarrow> run"
    and good :: "FileMetaData \<Rightarrow> bool"
  assumes table_lookup: "good f \<Longrightarrow> uvalid u \<Longrightarrow> s \<le> kMaxSequenceNumber \<Longrightarrow>
      table_get f (seek_key u s) \<lparr>sv_state = Saver_kNotFound, sv_user_key = u, sv_value = value\<rparr> =
        (Status_OK, saved (lookup_entry u s (entries f)) u value)"
    and sorted_entries: "good f \<Longrightarrow> sorted_wrt (before_entry ucmp) (entries f)"
    and valid_entries: "good f \<Longrightarrow> e \<in> set (entries f) \<Longrightarrow> entry_fits e \<and> uvalid (fst e)"
    and bounds: "good f \<Longrightarrow> entries f \<noteq> [] \<and> fm_smallest f = entry_key (hd (entries f)) \<and> fm_largest f = entry_key (last (entries f))"
begin

lemma entry_bounds:
  assumes "good f" "e \<in> set (entries f)"
  shows "icmp (fm_smallest f) (entry_key e) \<le> 0" "icmp (entry_key e) (fm_largest f) \<le> 0"
proof -
  have *: "icmp (entry_key a) (entry_key b) \<le> 0" if "before_entry ucmp a b \<or> a = b" "a \<in> set (entries f)" for a b
    using that ikey.cmp_refl [OF entry_key_valid, of a] valid_entries [OF assms(1)] by (auto simp add: before_entry_def)
  obtain a as where as: "entries f = a # as"
    using bounds [OF assms(1)] by (cases "entries f") simp_all
  obtain z zs where zs: "entries f = zs @ [z]"
    using bounds [OF assms(1)] by (cases "entries f" rule: rev_cases) simp_all
  show "icmp (fm_smallest f) (entry_key e) \<le> 0"
    using sorted_entries [OF assms(1)] assms(2) bounds [OF assms(1)] by (auto simp add: as intro!: *)
  show "icmp (entry_key e) (fm_largest f) \<le> 0"
    using sorted_entries [OF assms(1)] assms(2) bounds [OF assms(1)]
    by (auto simp add: zs sorted_wrt_append intro!: *)
qed

lemma entry_proper: "entry_fits e \<Longrightarrow> uvalid (fst e) \<Longrightarrow> proper_key uvalid (entry_key e)"
  by (cases e) (auto simp add: proper_key_def)

lemma good_proper: "good f \<Longrightarrow> proper_key uvalid (fm_smallest f) \<and> proper_key uvalid (fm_largest f)"
  using bounds [of f] valid_entries [of f "hd (entries f)"] valid_entries [of f "last (entries f)"] by (simp add: entry_proper)

lemma file_lookup_outside:
  assumes "good f" "uvalid u" "s \<le> kMaxSequenceNumber" "\<not> overlaps_user_key ucmp u f"
  shows "lookup_entry u s (entries f) = None"
proof -
  have "fst e \<noteq> u" if "e \<in> set (entries f)" for e
  proof
    assume "fst e = u"
    moreover have "ivalid (entry_key e)" "ivalid (fm_smallest f)" "ivalid (fm_largest f)"
      using valid_entries [OF assms(1) that] good_proper [OF assms(1)] proper_ivalid entry_key_valid by auto
    ultimately have "ucmp (ExtractUserKey (fm_smallest f)) u \<le> 0" "ucmp u (ExtractUserKey (fm_largest f)) \<le> 0"
      using entry_bounds [OF assms(1) that] user_key_le [of "fm_smallest f" "entry_key e"] user_key_le [of "entry_key e" "fm_largest f"]
      by (cases e; simp)+
    then show False
      using assms(2,4) good_proper [OF assms(1)] user.cmp_ge_iff [of u "ExtractUserKey (fm_smallest f)"] proper_ivalid
      by (auto simp add: overlaps_user_key_def)
  qed
  then show ?thesis
    unfolding lookup_entry_visible find_None_iff visible_def by blast
qed

lemma level_entries_sorted:
  assumes "\<forall>f\<in>set files. good f" "level_ok ucmp uvalid files"
  shows "sorted_wrt (before_entry ucmp) (concat (map entries files))"
proof (rule sorted_wrt_concat)
  show "\<forall>r\<in>set (map entries files). sorted_wrt (before_entry ucmp) r"
    using assms(1) sorted_entries by simp
  have less: "before_entry ucmp a b" if "good f" "good g" "icmp (fm_largest f) (fm_smallest g) < 0" "a \<in> set (entries f)" "b \<in> set (entries g)" for f g a b
  proof -
    have v: "ivalid (entry_key a)" "ivalid (entry_key b)" "ivalid (fm_largest f)" "ivalid (fm_smallest g)"
      using that valid_entries entry_key_valid good_proper proper_ivalid by blast+
    show ?thesis
      unfolding before_entry_def
      by (rule ikey.cmp_le_less_trans [OF v(1,3,2) entry_bounds(2) [OF that(1,4)]],
          rule ikey.cmp_less_le_trans [OF v(3,4,2) that(3) entry_bounds(1) [OF that(2,5)]])
  qed
  have "sorted_wrt (\<lambda>f g. icmp (fm_largest f) (fm_smallest g) < 0) files"
    using assms(2) by (simp only: level_ok_def)
  then show "sorted_wrt (\<lambda>r r'. \<forall>x\<in>set r. \<forall>y\<in>set r'. before_entry ucmp x y) (map entries files)"
    unfolding sorted_wrt_map by (rule sorted_wrt_mono_rel [rotated]) (use assms(1) less in blast)
qed

lemma level_lookup:
  assumes "\<forall>f\<in>set files. good f" "level_ok ucmp uvalid files" "uvalid u" "s \<le> kMaxSequenceNumber"
  shows "lookup_entry u s (concat (map entries files)) =
    (let i = FindFile ucmp files (seek_key u s) in if i < length files then lookup_entry u s (entries (files ! i)) else None)"
proof -
  define P where "P = (\<lambda>e. icmp (entry_key e) (seek_key u s) < 0)"
  define i where "i = FindFile ucmp files (seek_key u s)"
  have key: "ivalid (seek_key u s)"
    using assms(3) by simp
  note i = FindFile_first [OF assms(2) key, folded i_def]
  have fits: "\<forall>e\<in>set (concat (map entries files)). entry_fits e \<and> uvalid (fst e)"
    using assms(1) valid_entries by auto
  note lookup = lookup_entry_seek [OF level_entries_sorted [OF assms(1,2)] fits assms(3,4), folded P_def]
  have below: "P e" if "j < i" "e \<in> set (entries (files ! j))" for j e
  proof -
    have g: "good (files ! j)"
      using assms(1) that(1) i(1) by simp
    then have "ivalid (entry_key e)" "ivalid (fm_largest (files ! j))"
      using valid_entries [OF g that(2)] entry_key_valid good_proper [OF g] proper_ivalid by blast+
    then show ?thesis
      unfolding P_def using ikey.cmp_le_less_trans [OF _ _ key entry_bounds(2) [OF g that(2)] i(2) [OF that(1)]] by simp
  qed
  show ?thesis
  proof (cases "i < length files")
    case False
    then have "\<forall>e\<in>set (concat (map entries files)). P e"
      using below i(1) by (fastforce simp add: in_set_conv_nth [of _ files])
    then have nil: "dropWhile P (concat (map entries files)) = []"
      by (simp add: dropWhile_eq_Nil_conv)
    show ?thesis
      unfolding lookup nil using False by (simp add: i_def hd_opt_def)
  next
    case True
    then have g: "good (files ! i)"
      using assms(1) by simp
    have "concat (map entries (take i files @ files ! i # drop (Suc i) files)) =
        concat (map entries (take i files)) @ entries (files ! i) @ concat (map entries (drop (Suc i) files))"
      by simp
    then have split: "concat (map entries files) = concat (map entries (take i files)) @ entries (files ! i) @ concat (map entries (drop (Suc i) files))"
      unfolding id_take_nth_drop [OF True, symmetric] .
    have dropped: "P e" if e: "e \<in> set (concat (map entries (take i files)))" for e
    proof -
      obtain j where "j < i" "e \<in> set (entries (files ! j))"
        using e i(1) by (auto simp add: in_set_conv_nth [of _ "take i files"])
      then show ?thesis
        by (rule below)
    qed
    have kept: "last (entries (files ! i)) \<in> set (entries (files ! i))" "\<not> P (last (entries (files ! i)))"
      using bounds [OF g] i(3) [OF order_refl True] by (auto simp add: P_def)
    have front: "dropWhile P (concat (map entries (take i files)) @ es) = dropWhile P es" for es
      using dropped by (rule dropWhile_append2)
    have "dropWhile P (concat (map entries files)) = dropWhile P (entries (files ! i)) @ concat (map entries (drop (Suc i) files))"
      unfolding split front by (rule dropWhile_append1 [where P = P, OF kept])
    moreover have "dropWhile P (entries (files ! i)) \<noteq> []"
      using kept by (auto simp add: dropWhile_eq_Nil_conv)
    ultimately have "hd_opt (dropWhile P (concat (map entries files))) = hd_opt (dropWhile P (entries (files ! i)))"
      by (cases "dropWhile P (entries (files ! i))") (simp_all only: hd_opt_def append_Cons list.case simp_thms)
    then show ?thesis
      unfolding lookup using lookup_entry_seek [OF sorted_entries [OF g] _ assms(3,4)] valid_entries [OF g] True
      by (simp add: i_def P_def)
  qed
qed

lemma Get_file_ok:
  assumes "good f" "uvalid u" "s \<le> kMaxSequenceNumber" "gs_value g = value"
  shows "\<exists>g'. Get_file table_get u (seek_key u s) level f g = (lookup_entry u s (entries f) = None, g') \<and>
    (gs_status g', gs_value g') = outcome (lookup_entry u s (entries f)) value"
proof -
  have "sv_state (saved r u value) = (case r of None \<Rightarrow> Saver_kNotFound | Some (_, _, t, _) \<Rightarrow> if t = kTypeValue then Saver_kFound else Saver_kDeleted)" for r
    by (auto simp add: saved_def split: option.split ValueType.split)
  then show ?thesis
    using assms unfolding Get_file_def
    by (auto simp add: table_lookup Let_def outcome_def saved_def Status_ok_def Status_OK_def split: option.split ValueType.split)
qed

lemma Get_files_ok:
  assumes "\<forall>f\<in>set files. good f" "uvalid u" "s \<le> kMaxSequenceNumber"
  shows "(gs_status g, gs_value g) = (Status_OK, value) \<Longrightarrow>
    \<exists>g'. ForEachOverlapping_files (Get_file table_get u (seek_key u s)) level files g =
      (first_some (map (\<lambda>f. lookup_entry u s (entries f)) files) = None, g') \<and>
    (gs_status g', gs_value g') = outcome (first_some (map (\<lambda>f. lookup_entry u s (entries f)) files)) value"
  using assms(1)
proof (induction files arbitrary: g)
  case Nil
  then show ?case by (simp add: outcome_def)
next
  case (Cons f files)
  obtain g' where g': "Get_file table_get u (seek_key u s) level f g = (lookup_entry u s (entries f) = None, g')"
      "(gs_status g', gs_value g') = outcome (lookup_entry u s (entries f)) value"
    using Get_file_ok [of f u s g "value" level] Cons.prems assms(2,3) by auto
  show ?case
  proof (cases "lookup_entry u s (entries f)")
    case None
    then show ?thesis
      using Cons.IH [of g'] g' Cons.prems(2) by (simp add: outcome_def)
  next
    case (Some e)
    then show ?thesis
      using g' by simp
  qed
qed

lemma Get_levels_ok:
  assumes "\<forall>level\<in>set levels. \<forall>f\<in>set (files level). good f" "uvalid u" "s \<le> kMaxSequenceNumber"
  shows "(gs_status g, gs_value g) = (Status_OK, value) \<Longrightarrow>
    (let g' = ForEachOverlapping_levels (Get_file table_get u (seek_key u s)) files levels g
     in (gs_status g', gs_value g') =
       outcome (first_some (map (\<lambda>level. first_some (map (\<lambda>f. lookup_entry u s (entries f)) (files level))) levels)) value)"
  using assms(1)
proof (induction levels arbitrary: g)
  case Nil
  then show ?case by (simp add: outcome_def)
next
  case (Cons level levels)
  obtain g' where g': "ForEachOverlapping_files (Get_file table_get u (seek_key u s)) level (files level) g =
      (first_some (map (\<lambda>f. lookup_entry u s (entries f)) (files level)) = None, g')"
    "(gs_status g', gs_value g') = outcome (first_some (map (\<lambda>f. lookup_entry u s (entries f)) (files level))) value"
    using Get_files_ok [of "files level" u s g "value" level] Cons.prems assms(2,3) by auto
  show ?case
  proof (cases "first_some (map (\<lambda>f. lookup_entry u s (entries f)) (files level))")
    case None
    then show ?thesis
      using Cons.IH [of g'] g' Cons.prems(2) by (simp add: outcome_def)
  next
    case (Some e)
    then show ?thesis
      using g' by simp
  qed
qed

lemma search_level_0:
  assumes "\<forall>f\<in>set (ver_files v ! 0). good f" "uvalid u" "s \<le> kMaxSequenceNumber"
  shows "first_some (map (\<lambda>f. lookup_entry u s (entries f)) (files_to_search ucmp v u (seek_key u s) 0)) =
    first_some (map (\<lambda>f. lookup_entry u s (entries f)) (NewestFirst (ver_files v ! 0)))"
proof -
  have "files_to_search ucmp v u (seek_key u s) 0 = filter (overlaps_user_key ucmp u) (NewestFirst (ver_files v ! 0))"
    by (simp add: files_to_search_def NewestFirst_def filter_sort Let_def)
  then show ?thesis
    using assms file_lookup_outside by (auto simp add: NewestFirst_def intro!: first_some_filter)
qed

lemma search_level:
  assumes "\<forall>f\<in>set (ver_files v ! level). good f" "level_ok ucmp uvalid (ver_files v ! level)" "0 < level" "uvalid u" "s \<le> kMaxSequenceNumber"
  shows "first_some (map (\<lambda>f. lookup_entry u s (entries f)) (files_to_search ucmp v u (seek_key u s) level)) =
    lookup_entry u s (concat (map entries (ver_files v ! level)))"
proof -
  let ?files = "ver_files v ! level"
  define i where "i = FindFile ucmp ?files (seek_key u s)"
  have "lookup_entry u s (entries (?files ! i)) = None" if "i < length ?files" "ucmp u (ExtractUserKey (fm_smallest (?files ! i))) < 0"
    using that assms(1,4,5) by (intro file_lookup_outside) (simp_all add: overlaps_user_key_def)
  moreover have "first_some [r] = r" for r :: "mem_entry option"
    by (cases r) simp_all
  ultimately show ?thesis
    unfolding level_lookup [OF assms(1,2,4,5)] files_to_search_def Let_def i_def [symmetric] using assms(3) by auto
qed

lemma Version_Get_ok:
  assumes "version_ok ucmp uvalid good v" "uvalid u" "s \<le> kMaxSequenceNumber" "newest_first (version_runs entries v)"
  shows "\<exists>r stats. Version_Get ucmp table_get v (LookupKey_make u s) value = (fst (outcome r value), snd (outcome r value), stats) \<and>
    newest_visible u s (set (concat (version_runs entries v))) r"
proof -
  define lk where "lk = (\<lambda>f. lookup_entry u s (entries f))"
  define files where "files = files_to_search ucmp v u (seek_key u s)"
  have v: "\<forall>f\<in>set (ver_files v ! level). good f" "0 < level \<Longrightarrow> level_ok ucmp uvalid (ver_files v ! level)" if "level < kNumLevels" for level
    using assms(1) that by (auto simp add: version_ok_def)
  have k: "LookupKey_internal_key (LookupKey_make u s) = seek_key u s" "LookupKey_user_key (LookupKey_make u s) = u"
    by (simp_all add: LookupKey_internal_key_def LookupKey_user_key_def LookupKey_make_def InternalKey_make_eq kValueTypeForSeek_def)
  have searched: "set (files level) \<subseteq> set (ver_files v ! level)" for level
    by (auto simp add: files_def files_to_search_def NewestFirst_def Let_def)
  then have "\<forall>level\<in>set [0..<kNumLevels]. \<forall>f\<in>set (files level). good f"
    using v(1) by fastforce
  from Get_levels_ok [OF this assms(2,3), of _ "value", folded lk_def]
  obtain stats where get: "Version_Get ucmp table_get v (LookupKey_make u s) value =
      (fst (outcome r value), snd (outcome r value), stats)" if "r = first_some (map (\<lambda>level. first_some (map lk (files level))) [0..<kNumLevels])" for r
    unfolding Version_Get_def Let_def k files_def [symmetric] by (metis (no_types, lifting) fst_conv get_state.select_convs(1,2) snd_conv)
  have "[0..<kNumLevels] = 0 # [1..<kNumLevels]"
    by (simp add: kNumLevels_def upt_conv_Cons)
  moreover have "first_some (map lk (files 0)) = first_some (map (lookup_entry u s) (map entries (NewestFirst (ver_files v ! 0))))"
    using search_level_0 [of v u s] v(1) [of 0] assms(2,3) by (simp add: lk_def files_def kNumLevels_def comp_def)
  moreover have "map (\<lambda>level. first_some (map lk (files level))) [1..<kNumLevels] =
      map (lookup_entry u s) (map (\<lambda>level. concat (map entries (ver_files v ! level))) [1..<kNumLevels])"
    using search_level [of v _ u s] v assms(2,3) by (auto simp add: lk_def files_def)
  ultimately have "first_some (map (\<lambda>level. first_some (map lk (files level))) [0..<kNumLevels]) =
      first_some (map (lookup_entry u s) (version_runs entries v))"
    unfolding version_runs_def map_append first_some_append One_nat_def
    by (simp add: first_some_Cons del: map_map)
  moreover have "newest_visible u s (set (concat (version_runs entries v))) (first_some (map (lookup_entry u s) (version_runs entries v)))"
  proof (rule newest_visible_runs [OF assms(4)], rule ballI)
    fix r assume "r \<in> set (version_runs entries v)"
    then consider f where "r = entries f" "f \<in> set (ver_files v ! 0)" | level where "r = concat (map entries (ver_files v ! level))" "0 < level" "level < kNumLevels"
      by (auto simp add: version_runs_def NewestFirst_def)
    then show "newest_visible u s (set r) (lookup_entry u s r)"
    proof cases
      case 1
      have "good f"
        using v(1) [of 0] 1(2) by (simp add: kNumLevels_def)
      then show ?thesis
        unfolding 1(1) using sorted_entries valid_entries by (intro lookup_entry_newest) blast+
    next
      case 2
      show ?thesis
        unfolding 2(1) using v [OF 2(3)] 2(2) valid_entries
        by (intro lookup_entry_newest level_entries_sorted) auto
    qed
  qed
  ultimately show ?thesis
    using get [OF refl] by metis
qed

end

section \<open>Files in the table cache\<close>

definition entry_pair :: "mem_entry \<Rightarrow> bytes \<times> bytes" where
  "entry_pair e = (entry_key e, snd (snd (snd e)))"

text \<open>The reads of a version go through the table cache; reading outside a buffer counts as corruption.\<close>

definition cache_get ::
  "(string \<Rightarrow> status \<times> table_file) \<Rightarrow> u64 \<Rightarrow> (bytes \<Rightarrow> Block option) option \<Rightarrow> ReadOptions \<Rightarrow> TableCache \<Rightarrow>
    FileMetaData \<Rightarrow> bytes \<Rightarrow> Saver \<Rightarrow> status \<times> Saver" where
  "cache_get new_file cid block_cache ro tc f ikey saver =
     (case TableCache_Get new_file cid block_cache ro (fm_number f) (fm_file_size f) ikey (SaveValue BytewiseComparator_Compare) saver tc of
        Some (s, saver, _) \<Rightarrow> (s, saver)
      | None \<Rightarrow> (Corruption ''block access'', saver))"

text \<open>
  A file that was built from its entries and is found under its name; its table may be in the table
  cache, and its blocks in the block cache.
\<close>

definition table_options :: "Options \<Rightarrow> bool" where
  "table_options opts \<longleftrightarrow> 0 < opt_block_restart_interval opts \<and>
     opt_comparator opts = InternalKeyComparator_Compare BytewiseComparator_Compare \<and>
     (opt_filter_policy opts = None \<or> (\<exists>n. opt_filter_policy opts = Some (bloom_policy n)))"

definition table_built ::
  "(u32 \<Rightarrow> bytes \<Rightarrow> nat) \<Rightarrow> Snappy \<Rightarrow> (string \<Rightarrow> status \<times> table_file) \<Rightarrow> (bytes \<Rightarrow> Block option) option \<Rightarrow> TableCache \<Rightarrow>
    (FileMetaData \<Rightarrow> run) \<Rightarrow> FileMetaData \<Rightarrow> bool" where
  "table_built addr sn new_file block_cache tc entries f \<longleftrightarrow>
     snappy sn \<and> table_options (tc_options tc) \<and>
     sorted_wrt (before_entry BytewiseComparator_Compare) (entries f) \<and> (\<forall>e\<in>set (entries f). entry_fits e) \<and>
     entries_size (map entry_pair (entries f)) + 64 * length (entries f) < 2 ^ 31 \<and>
     entries f \<noteq> [] \<and> fm_smallest f = entry_key (hd (entries f)) \<and> fm_largest f = entry_key (last (entries f)) \<and>
     (\<exists>s b. build_table (mem_io addr sn) (tc_options tc) FileState_make (map entry_pair (entries f)) = (s, b) \<and>
        length (fs_contents (tb_file b)) < 2 ^ 32 \<and> fm_file_size f = TableBuilder_FileSize b \<and>
        new_file (TableFileName (tc_dbname tc) (fm_number f)) = (Status_OK, mem_table_file addr sn (tb_file b)) \<and>
        (\<forall>entry. map_of (tc_cache tc) (Fixed64 (fm_number f)) = Some entry \<longrightarrow>
           fst entry = mem_table_file addr sn (tb_file b) \<and>
           (\<exists>cid. Table_Open (fst entry) cid (tc_options tc) (fm_file_size f) = Some (Status_OK, Some (snd entry)))) \<and>
        (\<forall>cid t lookup. block_cache = Some lookup \<longrightarrow>
           Table_Open (mem_table_file addr sn (tb_file b)) cid (tc_options tc) (fm_file_size f) = Some (Status_OK, Some t) \<longrightarrow>
           cached (mem_table_file addr sn (tb_file b)) t lookup))"

lemma SaveValue_entry:
  assumes "entry_fits e"
  shows "SaveValue BytewiseComparator_Compare (fst (entry_pair e)) (snd (entry_pair e))
      \<lparr>sv_state = Saver_kNotFound, sv_user_key = u, sv_value = value\<rparr> = saved (if fst e = u then Some e else None) u value"
proof -
  obtain u' s t v where e: "e = (u', s, t, v)"
    by (cases e)
  have "BytewiseComparator_Compare u' u = 0 \<longleftrightarrow> u' = u"
    using bytewise.user.cmp_eq_0 by simp
  then show ?thesis
    using assms by (cases t) (auto simp add: e entry_pair_def SaveValue_def save_parsed_def saved_def ParseInternalKey_InternalKey_make Let_def)
qed

lemma table_cache_lookup:
  assumes "table_built addr sn new_file block_cache tc entries f" "s \<le> kMaxSequenceNumber"
  shows "cache_get new_file cid block_cache ro tc f (InternalKey_make u s kTypeValue)
      \<lparr>sv_state = Saver_kNotFound, sv_user_key = u, sv_value = value\<rparr> =
    (Status_OK, saved (lookup_entry u s (entries f)) u value)"
proof -
  let ?cmp = "InternalKeyComparator_Compare BytewiseComparator_Compare" and ?k = "InternalKey_make u s kTypeValue"
  let ?saver = "\<lparr>sv_state = Saver_kNotFound, sv_user_key = u, sv_value = value\<rparr>" and ?h = "SaveValue BytewiseComparator_Compare"
  define es where "es = map entry_pair (entries f)"
  have f: "snappy sn" "table_options (tc_options tc)" "sorted_wrt (before_entry BytewiseComparator_Compare) (entries f)"
      "\<forall>e\<in>set (entries f). entry_fits e" "entries_size es + 64 * length es < 2 ^ 31"
    using assms(1) by (simp_all add: table_built_def es_def)
  obtain st b where b: "build_table (mem_io addr sn) (tc_options tc) FileState_make es = (st, b)" "length (fs_contents (tb_file b)) < 2 ^ 32"
      "fm_file_size f = TableBuilder_FileSize b"
      "new_file (TableFileName (tc_dbname tc) (fm_number f)) = (Status_OK, mem_table_file addr sn (tb_file b))"
      "\<And>tf t. map_of (tc_cache tc) (Fixed64 (fm_number f)) = Some (tf, t) \<Longrightarrow> tf = mem_table_file addr sn (tb_file b) \<and>
         (\<exists>cid. Table_Open tf cid (tc_options tc) (fm_file_size f) = Some (Status_OK, Some t))"
      "\<And>cid t lookup. block_cache = Some lookup \<Longrightarrow>
         Table_Open (mem_table_file addr sn (tb_file b)) cid (tc_options tc) (fm_file_size f) = Some (Status_OK, Some t) \<Longrightarrow>
         cached (mem_table_file addr sn (tb_file b)) t lookup"
    using assms(1) unfolding table_built_def es_def [symmetric] by fastforce
  define tf where "tf = mem_table_file addr sn (tb_file b)"
  obtain n where opts: "0 < opt_block_restart_interval (tc_options tc)" "opt_comparator (tc_options tc) = ?cmp"
      "opt_filter_policy (tc_options tc) = None \<or> opt_filter_policy (tc_options tc) = Some (bloom_policy n)"
    using f(2) unfolding table_options_def by blast
  have sorted: "sorted_wrt (\<lambda>a b. ?cmp a b < 0) (map fst es)"
    using f(3) by (simp add: es_def sorted_wrt_map entry_pair_def before_entry_def [abs_def])
  have lens: "\<forall>e\<in>set es. 8 \<le> length (fst e)" "8 \<le> length ?k"
    by (auto simp add: es_def entry_pair_def)
  have hd: "hd_opt (dropWhile (\<lambda>e. ?cmp (fst e) ?k < 0) es) =
      map_option entry_pair (hd_opt (dropWhile (\<lambda>e. ?cmp (entry_key e) ?k < 0) (entries f)))"
    by (simp add: es_def dropWhile_map comp_def entry_pair_def map_option_hd_opt)
  note lookup = bytewise.lookup_entry_seek [OF f(3) _ TrueI assms(2), of u]
  have seek: "lookup_entry u s (entries f) =
      (case hd_opt (dropWhile (\<lambda>e. ?cmp (entry_key e) ?k < 0) (entries f)) of None \<Rightarrow> None | Some e \<Rightarrow> if fst e = u then Some e else None)"
    by (rule lookup) (use f(4) in simp)
  have ex: "\<exists>t. Table_Open tf cid' (tc_options tc) (fm_file_size f) = Some (Status_OK, Some t) \<and>
    (\<forall>cache. (\<forall>lookup. cache = Some lookup \<longrightarrow> cached tf t lookup) \<longrightarrow>
      (\<exists>arg'. Table_InternalGet tf cache t ro ?k ?h ?saver = Some (Status_OK, arg') \<and>
        (case dropWhile (\<lambda>e. ?cmp (fst e) ?k < 0) es of [] \<Rightarrow> arg' = ?saver
         | e # _ \<Rightarrow> arg' = ?h (fst e) (snd e) ?saver \<or> arg' = ?saver \<and> ExtractUserKey (fst e) \<noteq> ExtractUserKey ?k)))" for cid'
    unfolding tf_def b(3)
    using table_get_ok [OF f(1) opts sorted lens f(5) b(1,2), THEN conjunct2] .
  have get: "Table_InternalGet tf block_cache t ro ?k ?h ?saver = Some (Status_OK, saved (lookup_entry u s (entries f)) u value)"
    if t: "Table_Open tf cid' (tc_options tc) (fm_file_size f) = Some (Status_OK, Some t)" for t cid'
  proof -
    have cache: "\<forall>lookup. block_cache = Some lookup \<longrightarrow> cached tf t lookup"
      using b(6) t unfolding tf_def by blast
    have found: "\<exists>arg'. Table_InternalGet tf block_cache t ro ?k ?h ?saver = Some (Status_OK, arg') \<and>
        (case dropWhile (\<lambda>e. ?cmp (fst e) ?k < 0) es of [] \<Rightarrow> arg' = ?saver
         | e # _ \<Rightarrow> arg' = ?h (fst e) (snd e) ?saver \<or> arg' = ?saver \<and> ExtractUserKey (fst e) \<noteq> ExtractUserKey ?k)"
      using ex [of cid'] cache unfolding t option.inject prod.inject simp_thms by blast
    then obtain arg' where arg': "Table_InternalGet tf block_cache t ro ?k ?h ?saver = Some (Status_OK, arg')"
        "case dropWhile (\<lambda>e. ?cmp (fst e) ?k < 0) es of [] \<Rightarrow> arg' = ?saver
         | e # _ \<Rightarrow> arg' = ?h (fst e) (snd e) ?saver \<or> arg' = ?saver \<and> ExtractUserKey (fst e) \<noteq> ExtractUserKey ?k"
      by blast
    have "arg' = saved (lookup_entry u s (entries f)) u value"
    proof (cases "dropWhile (\<lambda>e. ?cmp (entry_key e) ?k < 0) (entries f)")
      case Nil
      have d: "dropWhile (\<lambda>e. ?cmp (fst e) ?k < 0) es = []"
        unfolding es_def dropWhile_map comp_def entry_pair_def fst_conv Nil by simp
      show ?thesis
        using arg'(2) unfolding seek Nil d by (simp add: saved_def)
    next
      case (Cons e rest)
      have d: "dropWhile (\<lambda>e. ?cmp (fst e) ?k < 0) es = entry_pair e # map entry_pair rest"
        unfolding es_def dropWhile_map comp_def entry_pair_def fst_conv Cons by simp
      have "e \<in> set (entries f)"
        by (metis Cons list.set_intros(1) set_dropWhileD)
      then have "entry_fits e"
        using f(4) by blast
      from SaveValue_entry [OF this, of u "value"] show ?thesis
        using arg'(2) unfolding seek Cons d hd_opt_simps by (cases e) (auto simp add: entry_pair_def saved_def)
    qed
    then show ?thesis
      using arg'(1) by simp
  qed
  show ?thesis
  proof (cases "map_of (tc_cache tc) (Fixed64 (fm_number f))")
    case None
    obtain t where t: "Table_Open tf cid (tc_options tc) (fm_file_size f) = Some (Status_OK, Some t)"
      using ex [of cid] by (elim exE conjE)
    show ?thesis
      using get [OF t] t None b(4) by (simp add: cache_get_def TableCache_Get_def TableCache_FindTable_def tf_def Status_ok_def Status_OK_def)
  next
    case (Some entry)
    obtain tf' t where entry: "entry = (tf', t)"
      by (cases entry)
    obtain cid' where t: "Table_Open tf cid' (tc_options tc) (fm_file_size f) = Some (Status_OK, Some t)" and tf': "tf' = tf"
      using b(5) [OF Some [unfolded entry]] unfolding tf_def by blast
    show ?thesis
      using get [OF t] Some entry tf' by (simp add: cache_get_def TableCache_Get_def TableCache_FindTable_def)
  qed
qed

interpretation store: table_store BytewiseComparator_Compare "\<lambda>_. True" "cache_get new_file cid block_cache ro tc" entries
    "table_built addr sn new_file block_cache tc entries"
  for addr sn new_file cid block_cache ro tc entries
  by unfold_locales (simp_all add: table_cache_lookup, simp_all add: table_built_def)

text \<open>C2. A lookup in a version answers with the newest visible entry. The files of the version are in
  memory, each built from its sorted entries and read through the table cache, whatever tables and
  blocks the caches hold; the files of the levels above 0 are sorted and disjoint; for every user key the
  entries of a file have larger sequence numbers than those of the files of later levels and, at level 0,
  than those of the files with smaller numbers. Then the entry found is the one with the largest sequence number, among all
  entries of all files, that the snapshot sees for the user key: a value is returned, a deletion gives
  NotFound. If there is none the value stays and the status is OK.\<close>

theorem version_get:
  assumes "version_ok BytewiseComparator_Compare (\<lambda>_. True) (table_built addr sn new_file block_cache tc entries) v"
    and "newest_files entries v" "s \<le> kMaxSequenceNumber"
  shows "\<exists>r stats. Version_Get BytewiseComparator_Compare (cache_get new_file cid block_cache ro tc) v (LookupKey_make u s) value =
      (fst (outcome r value), snd (outcome r value), stats) \<and>
    newest_visible u s (version_entries entries v) r"
  unfolding version_entries_runs [symmetric]
  by (rule store.Version_Get_ok [OF assms(1) TrueI assms(3) newest_files_runs [OF assms(2)]])

definition sample_options :: Options where
  "sample_options = \<lparr>opt_comparator = InternalKeyComparator_Compare BytewiseComparator_Compare, opt_block_restart_interval = 16,
    opt_block_size = 4096, opt_compression = kNoCompression, opt_filter_policy = None, opt_paranoid_checks = True\<rparr>"

definition sample_table :: "run \<Rightarrow> FileState TableBuilder" where
  "sample_table es = snd (build_table (mem_io (\<lambda>_ _. 0) Snappy_none) sample_options FileState_make (map entry_pair es))"

definition sample_files :: "run list \<Rightarrow> string \<Rightarrow> status \<times> table_file" where
  "sample_files runs name =
     (case find (\<lambda>(i, es). name = TableFileName [] (word_of_nat i)) (enumerate 0 runs) of
        Some (_, es) \<Rightarrow> (Status_OK, mem_table_file (\<lambda>_ _. 0) Snappy_none (tb_file (sample_table es)))
      | None \<Rightarrow> (NotFound [], mem_table_file (\<lambda>_ _. 0) Snappy_none FileState_make))"

definition sample_meta :: "run list \<Rightarrow> nat \<Rightarrow> FileMetaData" where
  "sample_meta runs i = FileMetaData_make\<lparr>fm_number := word_of_nat i, fm_file_size := TableBuilder_FileSize (sample_table (runs ! i)),
     fm_smallest := entry_key (hd (runs ! i)), fm_largest := entry_key (last (runs ! i))\<rparr>"

definition sample_cache :: TableCache where
  "sample_cache = \<lparr>tc_dbname = [], tc_options = sample_options, tc_cache = []\<rparr>"

lemma TableFileName_inject: "TableFileName d n = TableFileName d m \<longleftrightarrow> n = m"
proof
  assume "TableFileName d n = TableFileName d m"
  then have "padded n = padded m"
    by (simp add: TableFileName_def MakeFileName_def)
  then have "unat n = unat m"
    using padded_digits [of n] padded_digits [of m] by simp
  then show "n = m"
    by (simp add: word_unat_eq_iff)
qed simp

lemma entries_size_le: "\<forall>e\<in>set es. length (fst e) + length (snd e) \<le> c \<Longrightarrow> entries_size es \<le> (15 + c) * length es"
proof (induction es)
  case (Cons e es)
  then show ?case
    using length_block_entry(1) [of e] by simp
qed simp

lemma sample_built:
  assumes "i < length runs" "length runs < 2 ^ 32" "sorted_wrt (before_entry BytewiseComparator_Compare) (runs ! i)" "runs ! i \<noteq> []"
    and "\<forall>e\<in>set (runs ! i). entry_fits e \<and> length (fst e) + length (snd (snd (snd e))) < 100" "length (runs ! i) < 100"
  shows "table_built (\<lambda>_ _. 0) Snappy_none (sample_files runs) None sample_cache (\<lambda>f. runs ! unat (fm_number f)) (sample_meta runs i)"
proof -
  let ?io = "mem_io (\<lambda>_ _. 0) Snappy_none" and ?es = "map entry_pair (runs ! i)"
  define st where "st = fst (build_table ?io sample_options FileState_make ?es)"
  have b: "build_table ?io sample_options FileState_make ?es = (st, sample_table (runs ! i))"
    by (simp add: st_def sample_table_def)
  have opts: "0 < opt_restarts sample_options" "table_options sample_options" "opt_compression sample_options = kNoCompression"
      "opt_filter_policy sample_options = None"
    by (simp_all add: sample_options_def table_options_def)
  have "\<forall>e\<in>set ?es. length (fst e) + length (snd e) \<le> 108"
    using assms(5) by (fastforce simp add: entry_pair_def)
  then have size: "entries_size ?es \<le> 123 * length (runs ! i)"
    using entries_size_le [of ?es 108] by simp
  obtain blks where blks: "concat blks = ?es" "[] \<notin> set blks" "fs_contents (tb_file (sample_table (runs ! i))) = table_bytes ?io sample_options blks"
    using mem_table_built [OF no_snappy.snappy_axioms opts(1) b] by metis
  have "length (table_bytes ?io sample_options blks) \<le> 2 * entries_size ?es + 56 * length (runs ! i) + 100"
    using length_table_bytes [OF blks(2) opts(1,3,4), of ?io] by (simp add: blks(1))
  then have len: "length (fs_contents (tb_file (sample_table (runs ! i)))) < 2 ^ 32"
    using size assms(6) by (simp add: blks(3))
  have small: "(word_of_nat i :: u64) = word_of_nat j \<longleftrightarrow> j = i" if "j < length runs" for j
    using that assms(1,2) by (auto simp add: word_unat_eq_iff unat_of_nat)
  have nth: "enumerate 0 runs ! j = (j, runs ! j)" if "j < length runs" for j
    using that by (simp add: nth_enumerate_eq)
  have "find (\<lambda>(j, es). TableFileName [] (word_of_nat i) = TableFileName [] (word_of_nat j)) (enumerate 0 runs) = Some (i, runs ! i)"
    using find_unique [of i "enumerate 0 runs" "\<lambda>(j, es). TableFileName [] (word_of_nat i) = TableFileName [] (word_of_nat j)"] assms(1)
    by (simp add: nth TableFileName_inject small)
  then have found: "sample_files runs (TableFileName (tc_dbname sample_cache) (word_of_nat i)) =
      (Status_OK, mem_table_file (\<lambda>_ _. 0) Snappy_none (tb_file (sample_table (runs ! i))))"
    by (simp add: sample_files_def sample_cache_def)
  have i: "unat (word_of_nat i :: u64) = i"
    using assms(1,2) by (simp add: unat_of_nat)
  have "\<exists>st b. build_table ?io (tc_options sample_cache) FileState_make ?es = (st, b) \<and> length (fs_contents (tb_file b)) < 2 ^ 32 \<and>
      fm_file_size (sample_meta runs i) = TableBuilder_FileSize b \<and>
      sample_files runs (TableFileName (tc_dbname sample_cache) (word_of_nat i)) = (Status_OK, mem_table_file (\<lambda>_ _. 0) Snappy_none (tb_file b))"
    using b len found by (intro exI [of _ st] exI [of _ "sample_table (runs ! i)"]) (simp add: sample_meta_def sample_cache_def)
  then show ?thesis
    using assms size opts(2) no_snappy.snappy_axioms
    by (simp add: table_built_def sample_meta_def sample_cache_def FileMetaData_make_def i)
qed

theorem version_get_witness:
  "let runs = [[([1], 3, kTypeValue, [6]), ([2], 4, kTypeValue, [7])], [([1], 5, kTypeValue, [8])], [([1], 7, kTypeDeletion, [])]];
       v = (Version_make kNumLevels)\<lparr>ver_files := [[sample_meta runs 1, sample_meta runs 2], [sample_meta runs 0], [], [], [], [], []]\<rparr>
   in \<exists>stats. Version_Get BytewiseComparator_Compare (cache_get (sample_files runs) 1 None ReadOptions_make sample_cache) v
        (LookupKey_make [1] 6) [] = (Status_OK, [8], stats)"
proof -
  define runs :: "run list" where "runs = [[([1], 3, kTypeValue, [6]), ([2], 4, kTypeValue, [7])], [([1], 5, kTypeValue, [8])], [([1], 7, kTypeDeletion, [])]]"
  define v where "v = (Version_make kNumLevels)\<lparr>ver_files := [[sample_meta runs 1, sample_meta runs 2], [sample_meta runs 0], [], [], [], [], []]\<rparr>"
  let ?entries = "\<lambda>f. runs ! unat (fm_number f)"
  have built: "table_built (\<lambda>_ _. 0) Snappy_none (sample_files runs) None sample_cache ?entries (sample_meta runs i)" if "i < 3" for i
    using that by (intro sample_built) (auto simp add: runs_def less_Suc_eq numeral_3_eq_3 before_entry_def bytewise.icmp_make_less_iff kMaxSequenceNumber_def
        BytewiseComparator_Compare_def Slice_compare_def Let_def)
  have "InternalKeyComparator_Compare BytewiseComparator_Compare (InternalKey_make [1] 3 kTypeValue) (InternalKey_make [2] 4 kTypeValue) < 0"
    by (simp add: bytewise.icmp_make_less_iff kMaxSequenceNumber_def BytewiseComparator_Compare_def Slice_compare_def Let_def)
  then have level: "level_ok BytewiseComparator_Compare (\<lambda>_. True) [sample_meta runs 0]"
    by (simp add: level_ok_def file_ok_def proper_key_make sample_meta_def runs_def kMaxSequenceNumber_def)
  have files: "ver_files v ! level = (if level = 0 then [sample_meta runs 1, sample_meta runs 2] else if level = 1 then [sample_meta runs 0] else [])"
    if "level < kNumLevels" for level
    using that by (auto simp add: v_def kNumLevels_def less_Suc_eq numeral_nat)
  have entries: "?entries (sample_meta runs 0) = runs ! 0" "?entries (sample_meta runs 1) = runs ! 1" "?entries (sample_meta runs 2) = runs ! 2"
    by (simp_all add: sample_meta_def)
  have all: "version_entries ?entries v = set (runs ! 0) \<union> set (runs ! 1) \<union> set (runs ! 2)"
  proof -
    have "{..<kNumLevels} = {0, 1, 2, 3, 4, 5, 6}"
      by (auto simp add: kNumLevels_def)
    then show ?thesis
      using entries by (auto simp add: version_entries_def files kNumLevels_def)
  qed
  have "newest_files ?entries v"
    unfolding newest_files_def using files entries
    by (auto simp add: newer_run_def runs_def kNumLevels_def sample_meta_def split: if_splits)
  moreover have "version_ok BytewiseComparator_Compare (\<lambda>_. True) (table_built (\<lambda>_ _. 0) Snappy_none (sample_files runs) None sample_cache ?entries) v"
    using built level files by (auto simp add: version_ok_def level_ok_def) (simp add: v_def kNumLevels_def)
  ultimately obtain r stats where r: "Version_Get BytewiseComparator_Compare (cache_get (sample_files runs) 1 None ReadOptions_make sample_cache) v
        (LookupKey_make [1] 6) [] = (fst (outcome r []), snd (outcome r []), stats)"
      "newest_visible [1] 6 (version_entries ?entries v) r"
    using version_get [of "\<lambda>_ _. 0" Snappy_none "sample_files runs" None sample_cache ?entries v 6 1 ReadOptions_make "[1]" "[]"]
    by (auto simp add: kMaxSequenceNumber_def)
  have "r = Some ([1], 5, kTypeValue, [8])"
    using r(2) unfolding all by (auto simp add: newest_visible_def visible_def runs_def split: option.splits)
  then show ?thesis
    using r(1) by (auto simp add: outcome_def v_def runs_def)
qed

end
