(* ===== verification/Version_Builder.thy ===== *)
theory Version_Builder
  imports Version_Lookup
begin

text \<open>
  \<^verbatim>\<open>VersionSet::Builder\<close> of \<^verbatim>\<open>db/version_set.cc\<close>: applying edits to a version. A \<^verbatim>\<open>FileSet\<close> is the
  list of its files in the order of its comparator. \<open>md\<close> is \<^verbatim>\<open>adgMod::MOD\<close>. The reference counts of
  files, which versions share in the code, are not modelled, nor are the checks that only debug builds
  have: the assertion of \<^verbatim>\<open>MaybeAddFile\<close> and the search for overlaps under \<^verbatim>\<open>NDEBUG\<close>.
\<close>

section \<open>The code\<close>

definition BySmallestKey :: "(bytes \<Rightarrow> bytes \<Rightarrow> int) \<Rightarrow> FileMetaData \<Rightarrow> FileMetaData \<Rightarrow> bool" where
  "BySmallestKey cmp f1 f2 =
     (let r = cmp (fm_smallest f1) (fm_smallest f2)
      in if r \<noteq> 0 then r < 0 else fm_number f1 < fm_number f2)"

fun FileSet_insert :: "(bytes \<Rightarrow> bytes \<Rightarrow> int) \<Rightarrow> FileMetaData \<Rightarrow> FileMetaData list \<Rightarrow> FileMetaData list" where
  "FileSet_insert cmp f [] = [f]"
| "FileSet_insert cmp f (g # gs) =
     (if BySmallestKey cmp f g then f # g # gs
      else if BySmallestKey cmp g f then g # FileSet_insert cmp f gs
      else g # gs)"

record LevelState =
  ls_deleted_files :: "u64 set"
  ls_added_files :: "FileMetaData list"

definition LevelState_make :: LevelState where
  "LevelState_make = \<lparr>ls_deleted_files = {}, ls_added_files = []\<rparr>"

record Builder =
  b_base :: Version
  b_levels :: "LevelState list"
  b_vlevels :: "LevelState list"
  b_cur_dep :: dep_map

definition vlevel_number :: "nat \<Rightarrow> nat" where
  "vlevel_number md = (if md = 10 then 2 else kNumLevels)"

definition vfile_comparator :: "nat \<Rightarrow> (bytes \<Rightarrow> bytes \<Rightarrow> int) \<Rightarrow> bytes \<Rightarrow> bytes \<Rightarrow> int" where
  "vfile_comparator md ucmp = (if md = 10 then VKeyComparator_Compare else InternalKeyComparator_Compare ucmp)"

definition Builder_make :: "nat \<Rightarrow> Version \<Rightarrow> Builder" where
  "Builder_make md base =
     \<lparr>b_base = base, b_levels = replicate kNumLevels LevelState_make,
      b_vlevels = replicate (vlevel_number md) LevelState_make, b_cur_dep = []\<rparr>"

text \<open>Access to a level that does not exist is \<^const>\<open>None\<close>.\<close>

definition update_level :: "nat \<Rightarrow> ('a \<Rightarrow> 'a) \<Rightarrow> 'a list \<Rightarrow> 'a list option" where
  "update_level level upd xs = (if level < length xs then Some (xs[level := upd (xs ! level)]) else None)"

primrec Apply_pointers :: "(nat \<times> bytes) list \<Rightarrow> bytes list \<Rightarrow> bytes list option" where
  "Apply_pointers [] ps = Some ps"
| "Apply_pointers (p # es) ps = Option.bind (update_level (fst p) (\<lambda>_. snd p) ps) (Apply_pointers es)"

text \<open>The second loop takes the levels from the list of the first one.\<close>

fun Apply_vpointers :: "(nat \<times> bytes) list \<Rightarrow> (nat \<times> bytes) list \<Rightarrow> bytes list \<Rightarrow> bytes list option" where
  "Apply_vpointers ps [] vps = Some vps"
| "Apply_vpointers [] (v # vs) vps = None"
| "Apply_vpointers (p # ps) (v # vs) vps = Option.bind (update_level (fst p) (\<lambda>_. snd v) vps) (Apply_vpointers ps vs)"

primrec Apply_deleted :: "DeletedFileSet \<Rightarrow> LevelState list \<Rightarrow> LevelState list option" where
  "Apply_deleted [] ls = Some ls"
| "Apply_deleted (d # ds) ls =
     Option.bind (update_level (fst d) (\<lambda>l. l\<lparr>ls_deleted_files := insert (snd d) (ls_deleted_files l)\<rparr>) ls) (Apply_deleted ds)"

definition Apply_new_file :: "FileMetaData \<Rightarrow> FileMetaData" where
  "Apply_new_file f =
     (let f = f\<lparr>fm_refs := 1, fm_allowed_seeks := sint (ucast (fm_file_size f div 16384) :: u32)\<rparr>
      in if fm_allowed_seeks f < 100 then f\<lparr>fm_allowed_seeks := 100\<rparr> else f)"

definition Apply_new_vfile :: "FileMetaData \<Rightarrow> FileMetaData" where
  "Apply_new_vfile f = f\<lparr>fm_refs := 1\<rparr>"

definition add_to_level :: "(bytes \<Rightarrow> bytes \<Rightarrow> int) \<Rightarrow> FileMetaData \<Rightarrow> LevelState \<Rightarrow> LevelState" where
  "add_to_level cmp f l =
     l\<lparr>ls_deleted_files := ls_deleted_files l - {fm_number f}, ls_added_files := FileSet_insert cmp f (ls_added_files l)\<rparr>"

primrec Apply_new ::
  "(bytes \<Rightarrow> bytes \<Rightarrow> int) \<Rightarrow> (FileMetaData \<Rightarrow> FileMetaData) \<Rightarrow> (nat \<times> FileMetaData) list \<Rightarrow> LevelState list \<Rightarrow> LevelState list option" where
  "Apply_new cmp prepare [] ls = Some ls"
| "Apply_new cmp prepare (nf # nfs) ls =
     Option.bind (update_level (fst nf) (add_to_level cmp (prepare (snd nf))) ls) (Apply_new cmp prepare nfs)"

text \<open>The order in which the hash map of dependencies is visited is that of the list.\<close>

primrec SetParents :: "dep_map \<Rightarrow> dep_map \<Rightarrow> dep_map option" where
  "SetParents [] m = Some m"
| "SetParents (d # ds) m = Option.bind (SetParent (snd d) (fst d) m) (SetParents ds)"

text \<open>The compaction pointers belong to the version set.\<close>

definition Builder_Apply ::
  "nat \<Rightarrow> (bytes \<Rightarrow> bytes \<Rightarrow> int) \<Rightarrow> VersionEdit \<Rightarrow> bytes list \<Rightarrow> bytes list \<Rightarrow> Builder \<Rightarrow> (bytes list \<times> bytes list \<times> Builder) option" where
  "Builder_Apply md ucmp edit compact_pointer compact_vpointers b =
     Option.bind (Apply_pointers (ve_compact_pointers edit) compact_pointer) (\<lambda>compact_pointer.
     Option.bind (Apply_vpointers (ve_compact_pointers edit) (ve_compact_vpointers edit) compact_vpointers) (\<lambda>compact_vpointers.
     Option.bind (Apply_deleted (ve_deleted_files edit) (b_levels b)) (\<lambda>levels.
     Option.bind (Apply_deleted (ve_deleted_vfiles edit) (b_vlevels b)) (\<lambda>vlevels.
     Option.bind (Apply_new (InternalKeyComparator_Compare ucmp) Apply_new_file (ve_new_files edit) levels) (\<lambda>levels.
     Option.bind (Apply_new (vfile_comparator md ucmp) Apply_new_vfile (ve_new_vfiles edit) vlevels) (\<lambda>vlevels.
     map_option (\<lambda>dep. (compact_pointer, compact_vpointers, b\<lparr>b_levels := levels, b_vlevels := vlevels, b_cur_dep := dep\<rparr>))
       (SetParents (ve_dep edit) (b_cur_dep b))))))))"

text \<open>\<^verbatim>\<open>MaybeAddFile\<close> and \<^verbatim>\<open>MaybeAddVFile\<close>; the latter also enters the file into the map of value files.\<close>

definition MaybeAddFile :: "LevelState \<Rightarrow> FileMetaData \<Rightarrow> FileMetaData list \<Rightarrow> FileMetaData list" where
  "MaybeAddFile l f files = (if fm_number f \<in> ls_deleted_files l then files else files @ [f])"

definition MaybeAddVFile ::
  "LevelState \<Rightarrow> FileMetaData \<Rightarrow> FileMetaData list \<times> (u64 \<times> FileMetaData) list \<Rightarrow> FileMetaData list \<times> (u64 \<times> FileMetaData) list" where
  "MaybeAddVFile l f vfiles =
     (if fm_number f \<in> ls_deleted_files l then vfiles
      else (fst vfiles @ [f], AList.update (fm_number f) f (snd vfiles)))"

text \<open>
  Merging the added files with those of the base, which are sorted by the same comparator;
  \<open>maybe_add\<close> is called on each file in turn.
\<close>

primrec SaveTo_merge ::
  "(bytes \<Rightarrow> bytes \<Rightarrow> int) \<Rightarrow> (FileMetaData \<Rightarrow> 'a \<Rightarrow> 'a) \<Rightarrow> FileMetaData list \<Rightarrow> FileMetaData list \<Rightarrow> 'a \<Rightarrow> 'a" where
  "SaveTo_merge cmp maybe_add [] base files = fold maybe_add base files"
| "SaveTo_merge cmp maybe_add (a # added) base files =
     (let before = takeWhile (\<lambda>b. \<not> BySmallestKey cmp a b) base
      in SaveTo_merge cmp maybe_add added (drop (length before) base) (maybe_add a (fold maybe_add before files)))"

definition SaveTo_vlevel ::
  "nat \<Rightarrow> Builder \<Rightarrow> nat \<Rightarrow> FileMetaData list list \<times> (u64 \<times> FileMetaData) list \<Rightarrow> FileMetaData list list \<times> (u64 \<times> FileMetaData) list" where
  "SaveTo_vlevel md b level vfiles =
     (let l = b_vlevels b ! level;
          base = ver_vfiles (b_base b) ! level;
          start = (fst vfiles ! level, snd vfiles);
          saved = (if md = 10 then SaveTo_merge VKeyComparator_Compare (MaybeAddVFile l) (ls_added_files l) base start
                   else fold (MaybeAddVFile l) (ls_added_files l) (fold (MaybeAddVFile l) base start))
      in ((fst vfiles)[level := fst saved], snd saved))"

definition Builder_SaveTo :: "nat \<Rightarrow> (bytes \<Rightarrow> bytes \<Rightarrow> int) \<Rightarrow> Builder \<Rightarrow> Version \<Rightarrow> Version option" where
  "Builder_SaveTo md ucmp b v =
     (let v = v\<lparr>ver_files := map (\<lambda>level.
                let l = b_levels b ! level
                in SaveTo_merge (InternalKeyComparator_Compare ucmp) (MaybeAddFile l) (ls_added_files l)
                     (ver_files (b_base b) ! level) (ver_files v ! level)) [0..<kNumLevels]\<rparr>;
          v = (if md = 9 \<or> md = 10 then
                 let (vfiles, vmap) = fold (SaveTo_vlevel md b) [0..<vlevel_number md] (ver_vfiles v, ver_vfile_map v)
                 in v\<lparr>ver_vfiles := vfiles, ver_vfile_map := vmap\<rparr>
               else v)
      in if md = 10 then
           map_option (\<lambda>dep. v\<lparr>ver_dep := dep\<rparr>)
             (Option.bind (SetParents (ver_dep (b_base b)) (ver_dep v)) (SetParents (b_cur_dep b)))
         else Some v)"

section \<open>Sorted files\<close>

text \<open>What of the metadata of a file is stored in the manifest.\<close>

definition stored_file :: "FileMetaData \<Rightarrow> u64 \<times> u64 \<times> bytes \<times> bytes" where
  "stored_file f = (fm_number f, fm_file_size f, fm_smallest f, fm_largest f)"

primrec merged :: "(bytes \<Rightarrow> bytes \<Rightarrow> int) \<Rightarrow> FileMetaData list \<Rightarrow> FileMetaData list \<Rightarrow> FileMetaData list" where
  "merged cmp [] base = base"
| "merged cmp (a # added) base =
     takeWhile (\<lambda>b. \<not> BySmallestKey cmp a b) base @ a # merged cmp added (dropWhile (\<lambda>b. \<not> BySmallestKey cmp a b) base)"

lemma fold_MaybeAddFile: "fold (MaybeAddFile l) fs files = files @ filter (\<lambda>f. fm_number f \<notin> ls_deleted_files l) fs"
  by (induction fs arbitrary: files) (simp_all add: MaybeAddFile_def)

lemma fst_MaybeAddVFile: "fst (MaybeAddVFile l f vfiles) = MaybeAddFile l f (fst vfiles)"
  by (simp add: MaybeAddVFile_def MaybeAddFile_def)

lemma fst_fold_MaybeAddVFile: "fst (fold (MaybeAddVFile l) fs vfiles) = fold (MaybeAddFile l) fs (fst vfiles)"
  by (induction fs arbitrary: vfiles) (simp_all add: fst_MaybeAddVFile)

lemma fst_SaveTo_merge: "fst (SaveTo_merge cmp (MaybeAddVFile l) added base vfiles) = SaveTo_merge cmp (MaybeAddFile l) added base (fst vfiles)"
  by (induction added arbitrary: base vfiles) (simp_all add: fst_fold_MaybeAddVFile fst_MaybeAddVFile Let_def)

lemma SaveTo_merge_files:
  "SaveTo_merge cmp (MaybeAddFile l) added base files = files @ filter (\<lambda>f. fm_number f \<notin> ls_deleted_files l) (merged cmp added base)"
  by (induction added arbitrary: base files)
    (simp_all add: fold_MaybeAddFile Let_def dropWhile_eq_drop MaybeAddFile_def)

lemma set_merged: "set (merged cmp added base) = set added \<union> set base"
proof (induction added arbitrary: base)
  case (Cons a added)
  have "set base = set (takeWhile (\<lambda>b. \<not> BySmallestKey cmp a b) base) \<union> set (dropWhile (\<lambda>b. \<not> BySmallestKey cmp a b) base)"
    using set_append takeWhile_dropWhile_id by metis
  then show ?case
    using Cons by auto
qed simp

context comparator
begin

abbreviation "file_valid \<equiv> \<lambda>f. valid (fm_smallest f)"

lemma by_smallest_trans:
  assumes "file_valid f" "file_valid g" "file_valid h" "BySmallestKey cmp f g" "BySmallestKey cmp g h"
  shows "BySmallestKey cmp f h"
  using assms cmp_less_trans [of "fm_smallest f" "fm_smallest g" "fm_smallest h"]
  by (auto simp add: BySmallestKey_def Let_def cmp_eq_0 split: if_splits)

lemma by_smallest_total: "file_valid f \<Longrightarrow> file_valid g \<Longrightarrow> fm_number f \<noteq> fm_number g \<Longrightarrow> \<not> BySmallestKey cmp f g \<Longrightarrow> BySmallestKey cmp g f"
  using cmp_total [of "fm_smallest f" "fm_smallest g"] cmp_swap [of "fm_smallest f" "fm_smallest g"]
  by (auto simp add: BySmallestKey_def Let_def cmp_eq_0 split: if_splits)

lemma by_smallest_asym: "file_valid f \<Longrightarrow> file_valid g \<Longrightarrow> BySmallestKey cmp f g \<Longrightarrow> \<not> BySmallestKey cmp g f"
  using cmp_swap [of "fm_smallest f" "fm_smallest g"] cmp_eq_0 [of "fm_smallest f" "fm_smallest g"]
  by (auto simp add: BySmallestKey_def Let_def split: if_splits)

lemma FileSet_insert_ok:
  assumes "sorted_wrt (BySmallestKey cmp) fs" "\<forall>g\<in>set fs. file_valid g" "file_valid f" "fm_number f \<notin> fm_number ` set fs"
  shows "sorted_wrt (BySmallestKey cmp) (FileSet_insert cmp f fs) \<and> set (FileSet_insert cmp f fs) = insert f (set fs)"
  using assms
proof (induction fs)
  case (Cons g fs)
  have IH: "sorted_wrt (BySmallestKey cmp) (FileSet_insert cmp f fs)" "set (FileSet_insert cmp f fs) = insert f (set fs)"
    using Cons by auto
  show ?case
  proof (cases "BySmallestKey cmp f g")
    case True
    then show ?thesis
      using Cons.prems by (auto intro: by_smallest_trans)
  next
    case False
    then have "BySmallestKey cmp g f"
      using Cons.prems by_smallest_total [of f g] by simp
    then show ?thesis
      using False IH Cons.prems by auto
  qed
qed simp

lemma merged_sorted:
  assumes "sorted_wrt (BySmallestKey cmp) added" "sorted_wrt (BySmallestKey cmp) base" "\<forall>f\<in>set added \<union> set base. file_valid f"
    and "fm_number ` set added \<inter> fm_number ` set base = {}"
  shows "sorted_wrt (BySmallestKey cmp) (merged cmp added base)"
  using assms
proof (induction added arbitrary: base)
  case (Cons a added)
  define before and after where "before = takeWhile (\<lambda>b. \<not> BySmallestKey cmp a b) base" and "after = dropWhile (\<lambda>b. \<not> BySmallestKey cmp a b) base"
  have base: "base = before @ after"
    by (simp add: before_def after_def)
  have sorted: "sorted_wrt (BySmallestKey cmp) (merged cmp added after)"
    using Cons.prems by (intro Cons.IH) (auto simp add: base sorted_wrt_append)
  have less: "BySmallestKey cmp b a" if "b \<in> set before" for b
  proof (rule by_smallest_total)
    show "\<not> BySmallestKey cmp a b"
      using that set_takeWhileD [of b] unfolding before_def by fast
  qed (use that Cons.prems in \<open>auto simp add: base\<close>)
  have greater: "BySmallestKey cmp a x" if x: "x \<in> set added \<union> set after" for x
  proof (cases "x \<in> set added")
    case True
    then show ?thesis
      using Cons.prems(1) by simp
  next
    case False
    then obtain c cs where cs: "after = c # cs"
      using x by (cases after) auto
    have "BySmallestKey cmp a c"
      using hd_dropWhile [of "\<lambda>b. \<not> BySmallestKey cmp a b" base] cs unfolding after_def by simp
    moreover have "x = c \<or> BySmallestKey cmp c x"
      using False x Cons.prems(2) by (auto simp add: base cs sorted_wrt_append)
    ultimately show ?thesis
      using Cons.prems(3) False x by (auto simp add: base cs intro: by_smallest_trans [of a c x])
  qed
  have "BySmallestKey cmp b x" if "b \<in> set before" "x \<in> insert a (set added \<union> set after)" for b x
    using that less greater Cons.prems(3) by (auto simp add: base intro: by_smallest_trans [of b a x])
  moreover have "sorted_wrt (BySmallestKey cmp) before"
    using Cons.prems(2) by (simp add: base sorted_wrt_append)
  ultimately show ?case
    using sorted greater
    unfolding merged.simps before_def [symmetric] after_def [symmetric] by (auto simp add: sorted_wrt_append set_merged)
qed simp

text \<open>A sorted list of files is determined by what is stored of them.\<close>

lemma sorted_files_unique:
  assumes "sorted_wrt (BySmallestKey cmp) fs" "sorted_wrt (BySmallestKey cmp) gs" "\<forall>f\<in>set fs \<union> set gs. file_valid f"
    and "stored_file ` set fs = stored_file ` set gs"
  shows "map stored_file fs = map stored_file gs"
  using assms
proof (induction fs arbitrary: gs)
  case (Cons f fs)
  obtain g gs' where gs: "gs = g # gs'"
    using Cons.prems(4) by (cases gs) auto
  have same: "BySmallestKey cmp x y \<longleftrightarrow> BySmallestKey cmp x' y'" if "stored_file x = stored_file x'" "stored_file y = stored_file y'" for x y x' y'
    using that by (simp add: stored_file_def BySmallestKey_def)
  have irrefl: "\<not> BySmallestKey cmp x x'" if "file_valid x" "stored_file x = stored_file x'" for x x'
    using that by_smallest_asym [of x x] same [of x x' x x] by (auto simp add: stored_file_def BySmallestKey_def)
  have fg: "stored_file f = stored_file g"
  proof (rule ccontr)
    assume neq: "stored_file f \<noteq> stored_file g"
    obtain g1 where g1: "g1 \<in> set gs'" "stored_file g1 = stored_file f"
      using equalityD1 [OF Cons.prems(4)] neq by (fastforce simp add: gs)
    obtain f1 where f1: "f1 \<in> set fs" "stored_file f1 = stored_file g"
      using equalityD2 [OF Cons.prems(4)] neq by (fastforce simp add: gs)
    have "BySmallestKey cmp g g1" "BySmallestKey cmp f f1"
      using Cons.prems(1,2) g1 f1 by (simp_all add: gs)
    then have "BySmallestKey cmp g f" "BySmallestKey cmp f g"
      using same [of g g g1 f] same [of f f f1 g] g1 f1 by simp_all
    then show False
      using by_smallest_asym [of f g] Cons.prems(3) by (simp add: gs)
  qed
  have "stored_file x \<noteq> stored_file f" if "x \<in> set fs \<union> set gs'" for x
  proof
    assume "stored_file x = stored_file f"
    moreover have "BySmallestKey cmp f x \<or> BySmallestKey cmp g x"
      using Cons.prems(1,2) that by (auto simp add: gs)
    ultimately show False
      using irrefl [of f x] irrefl [of g x] fg Cons.prems(3) by (auto simp add: gs)
  qed
  then have "stored_file f \<notin> stored_file ` set fs" "stored_file f \<notin> stored_file ` set gs'"
    by (metis UnCI imageE)+
  moreover have "insert (stored_file f) (stored_file ` set fs) = insert (stored_file f) (stored_file ` set gs')"
    using Cons.prems(4) fg by (simp add: gs)
  ultimately have "stored_file ` set fs = stored_file ` set gs'"
    by (simp add: insert_ident)
  then show ?case
    using Cons fg by (simp add: gs)
qed simp

end

section \<open>Edits on sets of files\<close>

text \<open>
  What an edit does to the set of files of a level, if it adds files under numbers the level has
  not had before.
\<close>

definition new_at :: "nat \<Rightarrow> (nat \<times> FileMetaData) list \<Rightarrow> FileMetaData list" where
  "new_at level nfs = map snd (filter (\<lambda>nf. fst nf = level) nfs)"

definition apply_files ::
  "(FileMetaData \<Rightarrow> FileMetaData) \<Rightarrow> nat \<Rightarrow> DeletedFileSet \<Rightarrow> (nat \<times> FileMetaData) list \<Rightarrow> FileMetaData set \<Rightarrow> FileMetaData set" where
  "apply_files prepare level ds nfs S = {f \<in> S. (level, fm_number f) \<notin> set ds} \<union> prepare ` set (new_at level nfs)"

definition fresh_files :: "nat \<Rightarrow> (nat \<times> FileMetaData) list \<Rightarrow> u64 set \<Rightarrow> bool" where
  "fresh_files level nfs N \<longleftrightarrow> distinct (map fm_number (new_at level nfs)) \<and> fm_number ` set (new_at level nfs) \<inter> N = {}"

definition level_inv ::
  "(bytes \<Rightarrow> bytes \<Rightarrow> int) \<Rightarrow> (bytes \<Rightarrow> bool) \<Rightarrow> FileMetaData list \<Rightarrow> LevelState \<Rightarrow> FileMetaData set \<Rightarrow> u64 set \<Rightarrow> bool" where
  "level_inv cmp valid base l S N \<longleftrightarrow>
     sorted_wrt (BySmallestKey cmp) (ls_added_files l) \<and>
     (\<forall>f\<in>set (ls_added_files l) \<union> set base. valid (fm_smallest f) \<and> fm_number f \<in> N) \<and>
     fm_number ` set (ls_added_files l) \<inter> fm_number ` set base = {} \<and>
     S = {f \<in> set (ls_added_files l) \<union> set base. fm_number f \<notin> ls_deleted_files l}"

lemma update_level_nth:
  "update_level level upd xs = Some ys \<Longrightarrow> length ys = length xs \<and>
    (k < length xs \<longrightarrow> ys ! k = (if k = level then upd (xs ! k) else xs ! k))"
  by (auto simp add: update_level_def split: if_splits)

lemma Apply_deleted_nth:
  assumes "Apply_deleted ds ls = Some ls'"
  shows "length ls' = length ls \<and>
    (k < length ls \<longrightarrow> ls' ! k = (ls ! k)\<lparr>ls_deleted_files := {n. (k, n) \<in> set ds} \<union> ls_deleted_files (ls ! k)\<rparr>)"
  using assms
proof (induction ds arbitrary: ls)
  case (Cons d ds)
  obtain ls1 where 1: "update_level (fst d) (\<lambda>l. l\<lparr>ls_deleted_files := insert (snd d) (ls_deleted_files l)\<rparr>) ls = Some ls1"
      "Apply_deleted ds ls1 = Some ls'"
    using Cons.prems by (auto simp add: bind_eq_Some_conv)
  have "{n. (k, n) \<in> set (d # ds)} = (if fst d = k then {snd d} else {}) \<union> {n. (k, n) \<in> set ds}"
    by (cases d) auto
  then show ?case
    using Cons.IH [OF 1(2)] update_level_nth [OF 1(1), of k] by auto
qed simp

lemma Apply_new_nth:
  assumes "Apply_new cmp prepare nfs ls = Some ls'"
  shows "length ls' = length ls \<and> (k < length ls \<longrightarrow> ls' ! k = fold (add_to_level cmp) (map prepare (new_at k nfs)) (ls ! k))"
  using assms
proof (induction nfs arbitrary: ls)
  case (Cons nf nfs)
  obtain ls1 where 1: "update_level (fst nf) (add_to_level cmp (prepare (snd nf))) ls = Some ls1" "Apply_new cmp prepare nfs ls1 = Some ls'"
    using Cons.prems by (auto simp add: bind_eq_Some_conv)
  show ?case
    using Cons.IH [OF 1(2)] update_level_nth [OF 1(1), of k] by (auto simp add: new_at_def)
qed (simp add: new_at_def)

lemma Apply_deleted_Some: "\<forall>d\<in>set ds. fst d < length ls \<Longrightarrow> \<exists>ls'. Apply_deleted ds ls = Some ls'"
  by (induction ds arbitrary: ls) (simp_all add: update_level_def)

lemma Apply_new_Some: "\<forall>nf\<in>set nfs. fst nf < length ls \<Longrightarrow> \<exists>ls'. Apply_new cmp prepare nfs ls = Some ls'"
  by (induction nfs arbitrary: ls) (simp_all add: update_level_def)

lemma SetParents_reach: "dep_reach m \<Longrightarrow> \<exists>m'. SetParents ds m = Some m' \<and> dep_reach m'"
proof (induction ds arbitrary: m)
  case (Cons d ds)
  obtain m' where "SetParent (snd d) (fst d) m = Some m'" "dep_reach m'"
    by (rule SetParent_reach [OF Cons.prems])
  then show ?case
    using Cons.IH by simp
qed simp

context comparator
begin

lemma level_inv_start:
  assumes "\<forall>f\<in>set base. valid (fm_smallest f)"
  shows "level_inv cmp valid base LevelState_make (set base) (fm_number ` set base)"
  using assms by (simp add: level_inv_def LevelState_make_def)

lemma level_inv_add:
  assumes "level_inv cmp valid base l S N" "fm_number f \<notin> N" "valid (fm_smallest f)"
  shows "level_inv cmp valid base (add_to_level cmp f l) (insert f S) (insert (fm_number f) N)"
proof -
  have new: "fm_number f \<notin> fm_number ` set (ls_added_files l)" "fm_number f \<notin> fm_number ` set base"
    using assms(1,2) by (auto simp add: level_inv_def)
  have added: "sorted_wrt (BySmallestKey cmp) (FileSet_insert cmp f (ls_added_files l)) \<and>
      set (FileSet_insert cmp f (ls_added_files l)) = insert f (set (ls_added_files l))"
    using assms new by (intro FileSet_insert_ok) (auto simp add: level_inv_def)
  have "{g \<in> insert f (set (ls_added_files l)) \<union> set base. fm_number g \<notin> ls_deleted_files l - {fm_number f}} = insert f S"
    using assms(1) new by (auto simp add: level_inv_def image_iff)
  then show ?thesis
    using assms added new by (auto simp add: level_inv_def add_to_level_def)
qed

lemma level_inv_adds:
  assumes "level_inv cmp valid base l S N" "distinct (map fm_number fs)" "fm_number ` set fs \<inter> N = {}" "\<forall>f\<in>set fs. valid (fm_smallest f)"
  shows "level_inv cmp valid base (fold (add_to_level cmp) fs l) (S \<union> set fs) (N \<union> fm_number ` set fs)"
  using assms
proof (induction fs arbitrary: l S N)
  case (Cons f fs)
  have "level_inv cmp valid base (add_to_level cmp f l) (insert f S) (insert (fm_number f) N)"
    using Cons.prems by (intro level_inv_add) auto
  then have "level_inv cmp valid base (fold (add_to_level cmp) fs (add_to_level cmp f l)) (insert f S \<union> set fs)
      (insert (fm_number f) N \<union> fm_number ` set fs)"
    using Cons.prems by (intro Cons.IH) auto
  then show ?case by simp
qed simp

lemma level_inv_delete:
  assumes "level_inv cmp valid base l S N"
  shows "level_inv cmp valid base (l\<lparr>ls_deleted_files := D \<union> ls_deleted_files l\<rparr>) {f \<in> S. fm_number f \<notin> D} N"
  using assms by (auto simp add: level_inv_def)

lemma level_inv_apply:
  assumes "level_inv cmp valid base (ls ! level) S N" "level < length ls"
    and "Apply_deleted ds ls = Some ls1" "Apply_new cmp prepare nfs ls1 = Some ls2"
    and "fresh_files level nfs N" "\<forall>f\<in>set (new_at level nfs). valid (fm_smallest f)"
    and prepare: "\<And>f. fm_number (prepare f) = fm_number f" "\<And>f. fm_smallest (prepare f) = fm_smallest f"
  shows "level_inv cmp valid base (ls2 ! level) (apply_files prepare level ds nfs S) (N \<union> fm_number ` set (new_at level nfs))"
proof -
  define fs where "fs = map prepare (new_at level nfs)"
  have 1: "ls1 ! level = (ls ! level)\<lparr>ls_deleted_files := {n. (level, n) \<in> set ds} \<union> ls_deleted_files (ls ! level)\<rparr>"
      "length ls1 = length ls"
    using Apply_deleted_nth [OF assms(3), of level] assms(2) by simp_all
  then have inv: "level_inv cmp valid base (ls1 ! level) {f \<in> S. (level, fm_number f) \<notin> set ds} N"
    using level_inv_delete [OF assms(1), of "{n. (level, n) \<in> set ds}"] by simp
  have 2: "ls2 ! level = fold (add_to_level cmp) fs (ls1 ! level)"
    using Apply_new_nth [OF assms(4), of level] assms(2) 1(2) by (simp add: fs_def)
  have "map fm_number fs = map fm_number (new_at level nfs)"
    by (simp add: fs_def prepare)
  moreover from this have "fm_number ` set fs = fm_number ` set (new_at level nfs)"
    by (metis list.set_map)
  moreover have "\<forall>f\<in>set fs. valid (fm_smallest f)"
    using assms(6) by (simp add: fs_def prepare)
  ultimately show ?thesis
    using level_inv_adds [OF inv, of fs] assms(5) unfolding 2 by (simp add: fresh_files_def apply_files_def) (simp add: fs_def)
qed

lemma level_inv_save:
  assumes "level_inv cmp valid base l S N" "sorted_wrt (BySmallestKey cmp) base"
  shows "sorted_wrt (BySmallestKey cmp) (SaveTo_merge cmp (MaybeAddFile l) (ls_added_files l) base [])"
    and "set (SaveTo_merge cmp (MaybeAddFile l) (ls_added_files l) base []) = S"
proof -
  have "sorted_wrt (BySmallestKey cmp) (merged cmp (ls_added_files l) base)"
    using assms by (intro merged_sorted) (auto simp add: level_inv_def)
  then show "sorted_wrt (BySmallestKey cmp) (SaveTo_merge cmp (MaybeAddFile l) (ls_added_files l) base [])"
    by (simp add: SaveTo_merge_files sorted_wrt_filter)
  show "set (SaveTo_merge cmp (MaybeAddFile l) (ls_added_files l) base []) = S"
    using assms(1) by (auto simp add: SaveTo_merge_files set_merged level_inv_def)
qed

end

section \<open>Edits on versions\<close>

definition vfile_valid :: "nat \<Rightarrow> bytes \<Rightarrow> bool" where
  "vfile_valid md k \<longleftrightarrow> (if md = 10 then 16 \<le> length k else 8 \<le> length k)"

lemma vfile_order: "comparator (vfile_comparator md BytewiseComparator_Compare) (vfile_valid md)"
proof (cases "md = 10")
  case True
  then have "vfile_valid md = (\<lambda>k. 16 \<le> length k)"
    by (simp add: vfile_valid_def fun_eq_iff)
  then show ?thesis
    using True vkey.comparator_axioms by (simp add: vfile_comparator_def)
next
  case False
  then have "vfile_valid md = (\<lambda>k. 8 \<le> length k \<and> True)"
    by (simp add: vfile_valid_def fun_eq_iff)
  then show ?thesis
    using False bytewise.ikey.comparator_axioms by (simp add: vfile_comparator_def)
qed

text \<open>The edits of one builder, in the order they are applied.\<close>

primrec Apply_all ::
  "nat \<Rightarrow> (bytes \<Rightarrow> bytes \<Rightarrow> int) \<Rightarrow> VersionEdit list \<Rightarrow> bytes list \<Rightarrow> bytes list \<Rightarrow> Builder \<Rightarrow> (bytes list \<times> bytes list \<times> Builder) option" where
  "Apply_all md ucmp [] cp cvp b = Some (cp, cvp, b)"
| "Apply_all md ucmp (e # es) cp cvp b =
     Option.bind (Builder_Apply md ucmp e cp cvp b) (\<lambda>(cp, cvp, b). Apply_all md ucmp es cp cvp b)"

text \<open>
  Edits that a builder can apply: their levels exist, the keys are long enough to be compared, and
  they have no more pointers for value files than pointers, of levels that value files have.
\<close>

definition edit_applies :: "nat \<Rightarrow> VersionEdit \<Rightarrow> bool" where
  "edit_applies md e \<longleftrightarrow>
     (\<forall>p\<in>set (ve_compact_pointers e). fst p < kNumLevels) \<and>
     length (ve_compact_vpointers e) \<le> length (ve_compact_pointers e) \<and>
     (\<forall>p\<in>set (take (length (ve_compact_vpointers e)) (ve_compact_pointers e)). fst p < vlevel_number md) \<and>
     (\<forall>d\<in>set (ve_deleted_files e). fst d < kNumLevels) \<and> (\<forall>d\<in>set (ve_deleted_vfiles e). fst d < vlevel_number md) \<and>
     (\<forall>nf\<in>set (ve_new_files e). fst nf < kNumLevels \<and> 8 \<le> length (fm_smallest (snd nf))) \<and>
     (\<forall>nf\<in>set (ve_new_vfiles e). fst nf < vlevel_number md \<and> vfile_valid md (fm_smallest (snd nf)))"

definition edit_files :: "nat \<Rightarrow> VersionEdit \<Rightarrow> FileMetaData set \<Rightarrow> FileMetaData set" where
  "edit_files level e = apply_files Apply_new_file level (ve_deleted_files e) (ve_new_files e)"

definition edit_vfiles :: "nat \<Rightarrow> VersionEdit \<Rightarrow> FileMetaData set \<Rightarrow> FileMetaData set" where
  "edit_vfiles level e = apply_files Apply_new_vfile level (ve_deleted_vfiles e) (ve_new_vfiles e)"

text \<open>\<open>N\<close> is the set of numbers of files the level has had.\<close>

primrec edits_fresh :: "nat \<Rightarrow> (VersionEdit \<Rightarrow> (nat \<times> FileMetaData) list) \<Rightarrow> u64 set \<Rightarrow> VersionEdit list \<Rightarrow> bool" where
  "edits_fresh level files_of N [] = True"
| "edits_fresh level files_of N (e # es) =
     (fresh_files level (files_of e) N \<and> edits_fresh level files_of (N \<union> fm_number ` set (new_at level (files_of e))) es)"

definition version_inv :: "nat \<Rightarrow> Version \<Rightarrow> bool" where
  "version_inv md v \<longleftrightarrow>
     length (ver_files v) = kNumLevels \<and> length (ver_vfiles v) = vlevel_number md \<and>
     (\<forall>level<kNumLevels. sorted_wrt (BySmallestKey (InternalKeyComparator_Compare BytewiseComparator_Compare)) (ver_files v ! level) \<and>
        (\<forall>f\<in>set (ver_files v ! level). 8 \<le> length (fm_smallest f))) \<and>
     (\<forall>level<vlevel_number md. \<forall>f\<in>set (ver_vfiles v ! level). vfile_valid md (fm_smallest f)) \<and> dep_reach (ver_dep v)"

lemma Apply_new_file_simps [simp]:
  "fm_number (Apply_new_file f) = fm_number f" "fm_smallest (Apply_new_file f) = fm_smallest f"
  "fm_largest (Apply_new_file f) = fm_largest f" "fm_file_size (Apply_new_file f) = fm_file_size f"
  "fm_number (Apply_new_vfile f) = fm_number f" "fm_smallest (Apply_new_vfile f) = fm_smallest f"
  "fm_largest (Apply_new_vfile f) = fm_largest f" "fm_file_size (Apply_new_vfile f) = fm_file_size f"
  by (simp_all add: Apply_new_file_def Apply_new_vfile_def Let_def)

definition vbuilder_inv :: "nat \<Rightarrow> Version \<Rightarrow> Builder \<Rightarrow> (nat \<Rightarrow> FileMetaData set \<times> u64 set) \<Rightarrow> (nat \<Rightarrow> FileMetaData set \<times> u64 set) \<Rightarrow> bool" where
  "vbuilder_inv md base b F V \<longleftrightarrow>
     b_base b = base \<and> length (b_levels b) = kNumLevels \<and> length (b_vlevels b) = vlevel_number md \<and> dep_reach (b_cur_dep b) \<and>
     (\<forall>level<kNumLevels. level_inv (InternalKeyComparator_Compare BytewiseComparator_Compare) (\<lambda>k. 8 \<le> length k)
        (ver_files base ! level) (b_levels b ! level) (fst (F level)) (snd (F level))) \<and>
     (\<forall>level<vlevel_number md. level_inv (vfile_comparator md BytewiseComparator_Compare) (vfile_valid md)
        (ver_vfiles base ! level) (b_vlevels b ! level) (fst (V level)) (snd (V level)))"

lemma Apply_pointers_Some:
  "\<forall>p\<in>set ps. fst p < length cp \<Longrightarrow> \<exists>cp'. Apply_pointers ps cp = Some cp' \<and> length cp' = length cp"
proof (induction ps arbitrary: cp)
  case (Cons p ps)
  then show ?case
    using Cons.IH [of "cp[fst p := snd p]"] by (simp add: update_level_def)
qed simp

lemma Apply_vpointers_Some:
  "length vs \<le> length ps \<Longrightarrow> \<forall>p\<in>set (take (length vs) ps). fst p < length cvp \<Longrightarrow>
    \<exists>cvp'. Apply_vpointers ps vs cvp = Some cvp' \<and> length cvp' = length cvp"
proof (induction ps arbitrary: vs cvp)
  case (Cons p ps)
  show ?case
  proof (cases vs)
    case (Cons v vs')
    then show ?thesis
      using Cons.IH [of vs' "cvp[fst p := snd v]"] Cons.prems by (simp add: update_level_def)
  qed simp
qed simp

lemma ikey_order: "comparator (InternalKeyComparator_Compare BytewiseComparator_Compare) (\<lambda>k. 8 \<le> length k)"
  using bytewise.ikey.comparator_axioms by simp

lemma new_at_in: "f \<in> set (new_at level nfs) \<Longrightarrow> (level, f) \<in> set nfs"
  by (auto simp add: new_at_def)

lemma Builder_Apply_ok:
  assumes inv: "vbuilder_inv md base b F V" and e: "edit_applies md e" and len: "length cp = kNumLevels" "length cvp = vlevel_number md"
    and fresh: "\<forall>level<kNumLevels. fresh_files level (ve_new_files e) (snd (F level))"
      "\<forall>level<vlevel_number md. fresh_files level (ve_new_vfiles e) (snd (V level))"
  obtains cp' cvp' b' where "Builder_Apply md BytewiseComparator_Compare e cp cvp b = Some (cp', cvp', b')"
    "length cp' = kNumLevels" "length cvp' = vlevel_number md"
    "vbuilder_inv md base b'
      (\<lambda>level. (edit_files level e (fst (F level)), snd (F level) \<union> fm_number ` set (new_at level (ve_new_files e))))
      (\<lambda>level. (edit_vfiles level e (fst (V level)), snd (V level) \<union> fm_number ` set (new_at level (ve_new_vfiles e))))"
proof -
  let ?icmp = "InternalKeyComparator_Compare BytewiseComparator_Compare" and ?vcmp = "vfile_comparator md BytewiseComparator_Compare"
  have b: "length (b_levels b) = kNumLevels" "length (b_vlevels b) = vlevel_number md"
    using inv by (simp_all add: vbuilder_inv_def)
  obtain cp' cvp' where cp: "Apply_pointers (ve_compact_pointers e) cp = Some cp'" "length cp' = kNumLevels"
      "Apply_vpointers (ve_compact_pointers e) (ve_compact_vpointers e) cvp = Some cvp'" "length cvp' = vlevel_number md"
    using Apply_pointers_Some [of "ve_compact_pointers e" cp] Apply_vpointers_Some [of "ve_compact_vpointers e" "ve_compact_pointers e" cvp]
      e len by (auto simp add: edit_applies_def)
  obtain ls1 vls1 where 1: "Apply_deleted (ve_deleted_files e) (b_levels b) = Some ls1" "Apply_deleted (ve_deleted_vfiles e) (b_vlevels b) = Some vls1"
    using Apply_deleted_Some [of "ve_deleted_files e" "b_levels b"] Apply_deleted_Some [of "ve_deleted_vfiles e" "b_vlevels b"] e b
    by (auto simp add: edit_applies_def)
  have len1: "length ls1 = kNumLevels" "length vls1 = vlevel_number md"
    using Apply_deleted_nth [OF 1(1)] Apply_deleted_nth [OF 1(2)] b by simp_all
  obtain ls2 vls2 where 2: "Apply_new ?icmp Apply_new_file (ve_new_files e) ls1 = Some ls2" "Apply_new ?vcmp Apply_new_vfile (ve_new_vfiles e) vls1 = Some vls2"
    using Apply_new_Some [of "ve_new_files e" ls1 ?icmp Apply_new_file] Apply_new_Some [of "ve_new_vfiles e" vls1 ?vcmp Apply_new_vfile] e len1
    by (auto simp add: edit_applies_def)
  have len2: "length ls2 = kNumLevels" "length vls2 = vlevel_number md"
    using Apply_new_nth [OF 2(1)] Apply_new_nth [OF 2(2)] len1 by simp_all
  obtain dep where dep: "SetParents (ve_dep e) (b_cur_dep b) = Some dep" "dep_reach dep"
    using SetParents_reach inv unfolding vbuilder_inv_def by blast
  have keys: "8 \<le> length (fm_smallest f)" if "f \<in> set (new_at level (ve_new_files e))" for f level
    using e new_at_in [OF that] by (fastforce simp add: edit_applies_def)
  have vkeys: "vfile_valid md (fm_smallest f)" if "f \<in> set (new_at level (ve_new_vfiles e))" for f level
    using e new_at_in [OF that] by (fastforce simp add: edit_applies_def)
  have files: "level_inv ?icmp (\<lambda>k. 8 \<le> length k) (ver_files base ! level) (ls2 ! level) (edit_files level e (fst (F level)))
      (snd (F level) \<union> fm_number ` set (new_at level (ve_new_files e)))" if "level < kNumLevels" for level
    unfolding edit_files_def
    by (rule comparator.level_inv_apply [OF ikey_order _ _ 1(1) 2(1)])
      (use inv that fresh(1) in \<open>simp_all add: vbuilder_inv_def keys\<close>)
  have vfiles: "level_inv ?vcmp (vfile_valid md) (ver_vfiles base ! level) (vls2 ! level) (edit_vfiles level e (fst (V level)))
      (snd (V level) \<union> fm_number ` set (new_at level (ve_new_vfiles e)))" if "level < vlevel_number md" for level
    unfolding edit_vfiles_def
    by (rule comparator.level_inv_apply [OF vfile_order _ _ 1(2) 2(2)])
      (use inv that fresh(2) in \<open>simp_all add: vbuilder_inv_def vkeys\<close>)
  show thesis
    by (rule that [of cp' cvp' "b\<lparr>b_levels := ls2, b_vlevels := vls2, b_cur_dep := dep\<rparr>"])
      (use cp 1 2 dep len2 files vfiles inv in \<open>simp_all add: Builder_Apply_def vbuilder_inv_def\<close>)
qed

lemma Apply_all_ok:
  assumes "vbuilder_inv md base b F V" "\<forall>e\<in>set es. edit_applies md e" "length cp = kNumLevels" "length cvp = vlevel_number md"
    and "\<forall>level<kNumLevels. edits_fresh level ve_new_files (snd (F level)) es"
    and "\<forall>level<vlevel_number md. edits_fresh level ve_new_vfiles (snd (V level)) es"
  shows "\<exists>cp' cvp' b' F' V'. Apply_all md BytewiseComparator_Compare es cp cvp b = Some (cp', cvp', b') \<and>
    length cp' = kNumLevels \<and> length cvp' = vlevel_number md \<and> vbuilder_inv md base b' F' V' \<and>
    (\<forall>level. fst (F' level) = fold (edit_files level) es (fst (F level)) \<and> fst (V' level) = fold (edit_vfiles level) es (fst (V level)))"
  using assms
proof (induction es arbitrary: cp cvp b F V)
  case Nil
  then show ?case by auto
next
  case (Cons e es)
  have fresh: "edit_applies md e" "\<forall>level<kNumLevels. fresh_files level (ve_new_files e) (snd (F level))"
      "\<forall>level<vlevel_number md. fresh_files level (ve_new_vfiles e) (snd (V level))"
    using Cons.prems(2,5,6) by simp_all
  obtain cp1 cvp1 b1 where 1: "Builder_Apply md BytewiseComparator_Compare e cp cvp b = Some (cp1, cvp1, b1)"
      "length cp1 = kNumLevels" "length cvp1 = vlevel_number md"
      "vbuilder_inv md base b1
        (\<lambda>level. (edit_files level e (fst (F level)), snd (F level) \<union> fm_number ` set (new_at level (ve_new_files e))))
        (\<lambda>level. (edit_vfiles level e (fst (V level)), snd (V level) \<union> fm_number ` set (new_at level (ve_new_vfiles e))))"
    by (rule Builder_Apply_ok [OF Cons.prems(1) fresh(1) Cons.prems(3,4) fresh(2,3)])
  show ?case
    using Cons.IH [OF 1(4) _ 1(2,3)] Cons.prems(2,5,6) by (simp add: 1(1))
qed

lemma vbuilder_inv_start:
  assumes "version_inv md base"
  shows "vbuilder_inv md base (Builder_make md base)
    (\<lambda>level. (set (ver_files base ! level), fm_number ` set (ver_files base ! level)))
    (\<lambda>level. (set (ver_vfiles base ! level), fm_number ` set (ver_vfiles base ! level)))"
  using assms comparator.level_inv_start [OF ikey_order] comparator.level_inv_start [OF vfile_order, of _ md]
  by (simp add: vbuilder_inv_def Builder_make_def version_inv_def dep_reach.empty)

lemma SaveTo_vlevel_set:
  assumes "level_inv cmp valid (ver_vfiles (b_base b) ! level) (b_vlevels b ! level) S N" "level < length (fst vfiles)" "fst vfiles ! level = []"
  shows "set (fst (SaveTo_vlevel md b level vfiles) ! level) = S"
  using assms
  by (auto simp add: SaveTo_vlevel_def Let_def fst_SaveTo_merge fst_fold_MaybeAddVFile fold_MaybeAddFile SaveTo_merge_files set_merged level_inv_def)

lemma SaveTo_vlevels:
  assumes "k \<le> length (fst vfiles)" "level < length (fst vfiles)"
    and "\<forall>l<length (fst vfiles). fst vfiles ! l = []"
  shows "length (fst (fold (SaveTo_vlevel md b) [0..<k] vfiles)) = length (fst vfiles) \<and>
    (if level < k then \<exists>vfiles'. length (fst vfiles') = length (fst vfiles) \<and> fst vfiles' ! level = [] \<and>
         fst (fold (SaveTo_vlevel md b) [0..<k] vfiles) ! level = fst (SaveTo_vlevel md b level vfiles') ! level
     else fst (fold (SaveTo_vlevel md b) [0..<k] vfiles) ! level = [])"
  using assms
proof (induction k)
  case (Suc k)
  define w where "w = fold (SaveTo_vlevel md b) [0..<k] vfiles"
  have step: "fold (SaveTo_vlevel md b) [0..<Suc k] vfiles = SaveTo_vlevel md b k w"
    by (simp add: w_def)
  have other: "length (fst (SaveTo_vlevel md b k w)) = length (fst w)" "level \<noteq> k \<Longrightarrow> fst (SaveTo_vlevel md b k w) ! level = fst w ! level"
    by (simp_all add: SaveTo_vlevel_def Let_def)
  show ?case
  proof (cases "level = k")
    case True
    then show ?thesis
      using Suc other(1) unfolding step w_def [symmetric] by (auto simp del: split_paired_Ex)
  next
    case False
    then show ?thesis
      using Suc other unfolding step w_def [symmetric] by (auto simp add: less_Suc_eq simp del: split_paired_Ex)
  qed
qed simp

lemma Builder_SaveTo_ok:
  assumes "vbuilder_inv md base b F V" "version_inv md base"
  shows "\<exists>v. Builder_SaveTo md BytewiseComparator_Compare b (Version_make (vlevel_number md)) = Some v \<and> version_inv md v \<and>
    (\<forall>level<kNumLevels. set (ver_files v ! level) = fst (F level)) \<and>
    (md = 9 \<or> md = 10 \<longrightarrow> (\<forall>level<vlevel_number md. set (ver_vfiles v ! level) = fst (V level)))"
proof -
  let ?icmp = "InternalKeyComparator_Compare BytewiseComparator_Compare" and ?n = "vlevel_number md"
  have inv: "b_base b = base" "dep_reach (b_cur_dep b)"
      "\<And>level. level < kNumLevels \<Longrightarrow> level_inv ?icmp (\<lambda>k. 8 \<le> length k) (ver_files base ! level) (b_levels b ! level) (fst (F level)) (snd (F level))"
      "\<And>level. level < ?n \<Longrightarrow> level_inv (vfile_comparator md BytewiseComparator_Compare) (vfile_valid md)
        (ver_vfiles base ! level) (b_vlevels b ! level) (fst (V level)) (snd (V level))"
    using assms(1) by (simp_all add: vbuilder_inv_def)
  have valid: "8 \<le> length (fm_smallest f)" if "f \<in> fst (F level)" "level < kNumLevels" for f level
    using inv(3) [OF that(2)] that(1) by (auto simp add: level_inv_def)
  have vvalid: "vfile_valid md (fm_smallest f)" if "f \<in> fst (V level)" "level < ?n" for f level
    using inv(4) [OF that(2)] that(1) by (auto simp add: level_inv_def)
  define files where "files = map (\<lambda>level. SaveTo_merge ?icmp (MaybeAddFile (b_levels b ! level)) (ls_added_files (b_levels b ! level))
    (ver_files base ! level) []) [0..<kNumLevels]"
  have "sorted_wrt (BySmallestKey ?icmp) (ver_files base ! level)" if "level < kNumLevels" for level
    using assms(2) that by (simp add: version_inv_def)
  then have files: "length files = kNumLevels" "\<And>level. level < kNumLevels \<Longrightarrow> sorted_wrt (BySmallestKey ?icmp) (files ! level) \<and> set (files ! level) = fst (F level)"
    using comparator.level_inv_save [OF ikey_order inv(3)] by (simp_all add: files_def)
  define vf where "vf = fold (SaveTo_vlevel md b) [0..<?n] (replicate ?n [], [])"
  have vfiles: "length (fst vf) = ?n" "\<And>level. level < ?n \<Longrightarrow> set (fst vf ! level) = fst (V level)"
  proof -
    show "length (fst vf) = ?n"
      using SaveTo_vlevels [of ?n "(replicate ?n [], [])" 0 md b] by (cases "?n = 0") (auto simp add: vf_def vlevel_number_def kNumLevels_def)
    show "set (fst vf ! level) = fst (V level)" if "level < ?n" for level
      using SaveTo_vlevels [of ?n "(replicate ?n [], [])" level md b] that SaveTo_vlevel_set [OF inv(4) [OF that, folded inv(1)]]
      by (auto simp add: vf_def)
  qed
  obtain d1 d where dep: "SetParents (ver_dep base) [] = Some d1" "SetParents (b_cur_dep b) d1 = Some d" "dep_reach d"
    using SetParents_reach dep_reach.empty by meson
  define v0 where "v0 = (Version_make ?n)\<lparr>ver_files := files\<rparr>"
  define v1 where "v1 = (if md = 9 \<or> md = 10 then v0\<lparr>ver_vfiles := fst vf, ver_vfile_map := snd vf\<rparr> else v0)"
  have "map (\<lambda>level. let l = b_levels b ! level in SaveTo_merge ?icmp (MaybeAddFile l) (ls_added_files l) (ver_files (b_base b) ! level)
      (ver_files (Version_make ?n) ! level)) [0..<kNumLevels] = files"
    by (simp add: files_def Version_make_def inv(1) Let_def)
  then have save: "Builder_SaveTo md BytewiseComparator_Compare b (Version_make ?n) = Some (if md = 10 then v1\<lparr>ver_dep := d\<rparr> else v1)"
    using dep by (simp add: Builder_SaveTo_def Let_def v0_def v1_def vf_def Version_make_def inv(1) split: prod.split)
  have "version_inv md (if md = 10 then v1\<lparr>ver_dep := d\<rparr> else v1)"
    using files vfiles valid vvalid dep(3) by (auto simp add: version_inv_def v1_def v0_def Version_make_def dep_reach.empty)
  then show ?thesis
    using save files vfiles by (auto simp add: v1_def v0_def)
qed

text \<open>Files that do not overlap are in the order that lookups rely on.\<close>

definition disjoint_files :: "FileMetaData set \<Rightarrow> bool" where
  "disjoint_files S \<longleftrightarrow> (\<forall>f\<in>S. \<forall>g\<in>S. f \<noteq> g \<longrightarrow>
     InternalKeyComparator_Compare BytewiseComparator_Compare (fm_largest f) (fm_smallest g) < 0 \<or>
     InternalKeyComparator_Compare BytewiseComparator_Compare (fm_largest g) (fm_smallest f) < 0)"

lemma sorted_level_ok:
  assumes "sorted_wrt (BySmallestKey (InternalKeyComparator_Compare BytewiseComparator_Compare)) fs"
    and "\<forall>f\<in>set fs. file_ok BytewiseComparator_Compare (\<lambda>_. True) f" "disjoint_files (set fs)"
  shows "level_ok BytewiseComparator_Compare (\<lambda>_. True) fs"
proof -
  let ?cmp = "InternalKeyComparator_Compare BytewiseComparator_Compare"
  have less: "?cmp (fm_largest f) (fm_smallest g) < 0" if "f \<in> set fs" "g \<in> set fs" "BySmallestKey ?cmp f g" for f g
  proof -
    have valid: "8 \<le> length (fm_smallest x)" "8 \<le> length (fm_largest x)" "?cmp (fm_smallest x) (fm_largest x) \<le> 0" if "x \<in> {f, g}" for x
      using assms(2) that \<open>f \<in> set fs\<close> \<open>g \<in> set fs\<close> bytewise.file_ok_ivalid [of x] by (auto simp add: file_ok_def)
    have le: "?cmp (fm_smallest f) (fm_smallest g) \<le> 0" "f \<noteq> g"
      using that(3) valid by (auto simp add: BySmallestKey_def Let_def split: if_splits)
    have "\<not> ?cmp (fm_largest g) (fm_smallest f) < 0"
    proof
      assume "?cmp (fm_largest g) (fm_smallest f) < 0"
      then have "?cmp (fm_largest g) (fm_largest g) < 0"
        using bytewise.ikey.cmp_less_le_trans [of "fm_largest g" "fm_smallest f" "fm_smallest g"]
          bytewise.ikey.cmp_less_le_trans [of "fm_largest g" "fm_smallest g" "fm_largest g"] le(1) valid by simp
      then show False
        using valid by simp
    qed
    then show ?thesis
      using assms(3) that(1,2) le(2) unfolding disjoint_files_def by blast
  qed
  have "sorted_wrt (\<lambda>f g. ?cmp (fm_largest f) (fm_smallest g) < 0) fs"
    by (rule sorted_wrt_mono_rel [OF less assms(1)])
  then show ?thesis
    using assms(2) by (simp add: level_ok_def)
qed

lemma builder_edits_ok:
  assumes "version_inv md base" "\<forall>e\<in>set es. edit_applies md e" "length cp = kNumLevels" "length cvp = vlevel_number md"
    and "\<forall>level<kNumLevels. edits_fresh level ve_new_files (fm_number ` set (ver_files base ! level)) es"
    and "\<forall>level<vlevel_number md. edits_fresh level ve_new_vfiles (fm_number ` set (ver_vfiles base ! level)) es"
  shows "\<exists>cp' cvp' b v. Apply_all md BytewiseComparator_Compare es cp cvp (Builder_make md base) = Some (cp', cvp', b) \<and>
    length cp' = kNumLevels \<and> length cvp' = vlevel_number md \<and>
    Builder_SaveTo md BytewiseComparator_Compare b (Version_make (vlevel_number md)) = Some v \<and> version_inv md v \<and>
    (\<forall>level<kNumLevels. set (ver_files v ! level) = fold (edit_files level) es (set (ver_files base ! level))) \<and>
    (md = 9 \<or> md = 10 \<longrightarrow>
      (\<forall>level<vlevel_number md. set (ver_vfiles v ! level) = fold (edit_vfiles level) es (set (ver_vfiles base ! level))))"
proof -
  obtain cp' cvp' b F V where b: "Apply_all md BytewiseComparator_Compare es cp cvp (Builder_make md base) = Some (cp', cvp', b)"
      "length cp' = kNumLevels" "length cvp' = vlevel_number md" "vbuilder_inv md base b F V"
      "\<And>level. fst (F level) = fold (edit_files level) es (set (ver_files base ! level))"
      "\<And>level. fst (V level) = fold (edit_vfiles level) es (set (ver_vfiles base ! level))"
    using Apply_all_ok [OF vbuilder_inv_start [OF assms(1)] assms(2-4), unfolded fst_conv snd_conv, OF assms(5,6)] by blast
  show ?thesis
    using Builder_SaveTo_ok [OF b(4) assms(1)] b(1-3) unfolding b(5,6) by blast
qed

section \<open>Properties\<close>

text \<open>C4. Building a version applies its edits one after the other. A builder that applies a list of
  edits to a version succeeds, and the files it saves for a level are exactly those that remain when
  each edit in turn deletes and adds its files, provided that no number comes back to a level; the same
  holds for the value files. Every level is saved in the order of its smallest keys, so a level whose
  files do not overlap is in the order that lookups rely on.\<close>

theorem builder_edits:
  assumes "version_inv md base" "\<forall>e\<in>set es. edit_applies md e" "length cp = kNumLevels" "length cvp = vlevel_number md"
    and "\<forall>level<kNumLevels. edits_fresh level ve_new_files (fm_number ` set (ver_files base ! level)) es"
    and "\<forall>level<vlevel_number md. edits_fresh level ve_new_vfiles (fm_number ` set (ver_vfiles base ! level)) es"
  shows "\<exists>cp' cvp' b v. Apply_all md BytewiseComparator_Compare es cp cvp (Builder_make md base) = Some (cp', cvp', b) \<and>
    Builder_SaveTo md BytewiseComparator_Compare b (Version_make (vlevel_number md)) = Some v \<and> version_inv md v \<and>
    (\<forall>level<kNumLevels. set (ver_files v ! level) = fold (edit_files level) es (set (ver_files base ! level)) \<and>
      ((\<forall>f\<in>set (ver_files v ! level). file_ok BytewiseComparator_Compare (\<lambda>_. True) f) \<and> disjoint_files (set (ver_files v ! level)) \<longrightarrow>
        level_ok BytewiseComparator_Compare (\<lambda>_. True) (ver_files v ! level))) \<and>
    (md = 9 \<or> md = 10 \<longrightarrow>
      (\<forall>level<vlevel_number md. set (ver_vfiles v ! level) = fold (edit_vfiles level) es (set (ver_vfiles base ! level))))"
proof -
  obtain cp' cvp' b v where v: "Apply_all md BytewiseComparator_Compare es cp cvp (Builder_make md base) = Some (cp', cvp', b)"
      "Builder_SaveTo md BytewiseComparator_Compare b (Version_make (vlevel_number md)) = Some v" "version_inv md v"
      "\<forall>level<kNumLevels. set (ver_files v ! level) = fold (edit_files level) es (set (ver_files base ! level))"
      "md = 9 \<or> md = 10 \<longrightarrow>
        (\<forall>level<vlevel_number md. set (ver_vfiles v ! level) = fold (edit_vfiles level) es (set (ver_vfiles base ! level)))"
    using builder_edits_ok [OF assms] by blast
  have "level_ok BytewiseComparator_Compare (\<lambda>_. True) (ver_files v ! level)"
    if "level < kNumLevels" "\<forall>f\<in>set (ver_files v ! level). file_ok BytewiseComparator_Compare (\<lambda>_. True) f"
      "disjoint_files (set (ver_files v ! level))" for level
    using v(3) that by (intro sorted_level_ok) (simp_all add: version_inv_def)
  then show ?thesis
    using v by blast
qed

theorem builder_edits_witness:
  "\<exists>cp cvp b v. Apply_all 0 BytewiseComparator_Compare
       [AddFile 1 5 100 (InternalKey_make [3] 1 kTypeValue) (InternalKey_make [4] 1 kTypeValue) VersionEdit_make,
        VersionEdit_DeleteFile 1 5 (AddFile 1 6 100 (InternalKey_make [1] 2 kTypeValue) (InternalKey_make [4] 2 kTypeValue) VersionEdit_make)]
       (replicate 7 []) (replicate 7 []) (Builder_make 0 (Version_make 7)) = Some (cp, cvp, b) \<and>
     Builder_SaveTo 0 BytewiseComparator_Compare b (Version_make 7) = Some v \<and> fm_number ` set (ver_files v ! 1) = {6}"
proof -
  let ?es = "[AddFile 1 5 100 (InternalKey_make [3] 1 kTypeValue) (InternalKey_make [4] 1 kTypeValue) VersionEdit_make,
        VersionEdit_DeleteFile 1 5 (AddFile 1 6 100 (InternalKey_make [1] 2 kTypeValue) (InternalKey_make [4] 2 kTypeValue) VersionEdit_make)]"
  note edit = AddFile_def VersionEdit_DeleteFile_def VersionEdit_make_def VersionEdit_Clear_def FileMetaData_make_def insort_insert_key_def
  have n: "vlevel_number 0 = 7" "kNumLevels = 7"
    by (simp_all add: vlevel_number_def kNumLevels_def)
  have base: "version_inv 0 (Version_make 7)"
    by (simp add: version_inv_def Version_make_def n dep_reach.empty)
  have es: "\<forall>e\<in>set ?es. edit_applies 0 e"
    by (simp add: edit_applies_def n edit)
  have fresh: "edits_fresh level ve_new_files {} ?es" "edits_fresh level ve_new_vfiles {} ?es" for level
    by (simp_all add: fresh_files_def new_at_def edit)
  have "fm_number ` fold (edit_files 1) ?es {} = {6}"
    by (auto simp add: edit_files_def apply_files_def new_at_def edit)
  then show ?thesis
    using builder_edits [OF base es, of "replicate 7 []" "replicate 7 []"] fresh
    by (auto simp add: n Version_make_def)
qed

end
