(* ===== verification/Version_Set.thy ===== *)
theory Version_Set
  imports Version_Builder Log_Format
begin

text \<open>
  \<^verbatim>\<open>VersionSet\<close> of \<^verbatim>\<open>db/version_set.cc\<close>: the versions in use, the numbers of files and writes, and the
  manifest. A version is a node of the list of versions, oldest first, with an identity and the
  count of its references; the newest one is current. \<open>md\<close> is \<^verbatim>\<open>adgMod::MOD\<close>. The learned models and
  the assertions of debug builds are not modelled, and the mutex is held throughout.
\<close>

section \<open>The code\<close>

record 'f VersionSet =
  vs_dbname :: string
  vs_next_file_number :: u64
  vs_manifest_file_number :: u64
  vs_last_sequence :: u64
  vs_log_number :: u64
  vs_prev_log_number :: u64
  vs_descriptor_log :: "'f Writer option"
  vs_versions :: "(nat \<times> nat \<times> Version) list"
  vs_next_version :: nat
  vs_compact_pointer :: "bytes list"
  vs_compact_vpointers :: "bytes list"
  vs_default_value :: bytes

definition current :: "'f VersionSet \<Rightarrow> Version" where
  "current vs = snd (snd (last (vs_versions vs)))"

definition Version_Ref :: "nat \<Rightarrow> 'f VersionSet \<Rightarrow> 'f VersionSet" where
  "Version_Ref i vs = vs\<lparr>vs_versions := map (\<lambda>(j, refs, v). (j, if j = i then refs + 1 else refs, v)) (vs_versions vs)\<rparr>"

text \<open>A version without references is deleted, which takes it out of the list.\<close>

definition Version_Unref :: "nat \<Rightarrow> 'f VersionSet \<Rightarrow> 'f VersionSet" where
  "Version_Unref i vs =
     vs\<lparr>vs_versions := filter (\<lambda>(j, refs, v). j \<noteq> i \<or> refs \<noteq> 0)
        (map (\<lambda>(j, refs, v). (j, if j = i then refs - 1 else refs, v)) (vs_versions vs))\<rparr>"

text \<open>The buffer of the default value is not initialised.\<close>

definition AppendVersion :: "Version \<Rightarrow> 'f VersionSet \<Rightarrow> 'f VersionSet" where
  "AppendVersion v vs =
     (let vs = (if vs_versions vs \<noteq> [] then Version_Unref (fst (last (vs_versions vs))) vs else vs);
          vs = vs\<lparr>vs_versions := vs_versions vs @ [(vs_next_version vs, 1, v)], vs_next_version := vs_next_version vs + 1\<rparr>
      in if ver_vfiles v \<noteq> [] \<and> ver_vfiles v ! 0 \<noteq> []
         then vs\<lparr>vs_default_value := Fixed32 (ucast (fm_number (ver_vfiles v ! 0 ! 0))) @ Fixed32 0 @ Fixed32 0\<rparr>
         else vs)"

definition VersionSet_make :: "nat \<Rightarrow> string \<Rightarrow> bytes \<Rightarrow> 'f VersionSet" where
  "VersionSet_make md dbname buffer =
     AppendVersion (Version_make (vlevel_number md))
       \<lparr>vs_dbname = dbname, vs_next_file_number = 2, vs_manifest_file_number = 0, vs_last_sequence = 0,
        vs_log_number = 0, vs_prev_log_number = 0, vs_descriptor_log = None, vs_versions = [], vs_next_version = 0,
        vs_compact_pointer = replicate kNumLevels [], vs_compact_vpointers = replicate (vlevel_number md) [],
        vs_default_value = buffer\<rparr>"

definition NewFileNumber :: "'f VersionSet \<Rightarrow> u64 \<times> 'f VersionSet" where
  "NewFileNumber vs = (vs_next_file_number vs, vs\<lparr>vs_next_file_number := vs_next_file_number vs + 1\<rparr>)"

definition ReuseFileNumber :: "u64 \<Rightarrow> 'f VersionSet \<Rightarrow> 'f VersionSet" where
  "ReuseFileNumber number vs =
     (if vs_next_file_number vs = number + 1 then vs\<lparr>vs_next_file_number := number\<rparr> else vs)"

definition MarkFileNumberUsed :: "u64 \<Rightarrow> 'f VersionSet \<Rightarrow> 'f VersionSet" where
  "MarkFileNumberUsed number vs =
     (if vs_next_file_number vs \<le> number then vs\<lparr>vs_next_file_number := number + 1\<rparr> else vs)"

definition VersionSet_SetLastSequence :: "u64 \<Rightarrow> 'f VersionSet \<Rightarrow> 'f VersionSet" where
  "VersionSet_SetLastSequence s vs = vs\<lparr>vs_last_sequence := s\<rparr>"

definition NeedsCompaction :: "'f VersionSet \<Rightarrow> bool" where
  "NeedsCompaction vs = (ver_compaction_score (current vs) \<ge> 1 \<or> ver_file_to_compact (current vs) \<noteq> None)"

definition MaxBytesForLevel :: "nat \<Rightarrow> rat" where
  "MaxBytesForLevel level = 10 * 1048576 * 10 ^ (level - 1)"

definition Finalize :: "Version \<Rightarrow> Version" where
  "Finalize v =
     (let (best_level, best_score) =
        foldl (\<lambda>(best_level, best_score) level.
            let score = (if level = 0 then of_nat (length (ver_files v ! level)) / of_nat kL0_CompactionTrigger
                         else of_int (TotalFileSize (ver_files v ! level)) / MaxBytesForLevel level)
            in if score > best_score then (int level, score) else (best_level, best_score))
          (-1, -1) [0..<kNumLevels - 1]
      in v\<lparr>ver_compaction_level := best_level, ver_compaction_score := best_score\<rparr>)"

definition NumLevelFiles :: "nat \<Rightarrow> 'f VersionSet \<Rightarrow> nat" where
  "NumLevelFiles level vs = length (ver_files (current vs) ! level)"

definition NumLevelVFiles :: "nat \<Rightarrow> 'f VersionSet \<Rightarrow> nat" where
  "NumLevelVFiles level vs = length (ver_vfiles (current vs) ! level)"

definition NumLevelBytes :: "nat \<Rightarrow> 'f VersionSet \<Rightarrow> int" where
  "NumLevelBytes level vs = TotalFileSize (ver_files (current vs) ! level)"

definition LevelSummary :: "'f VersionSet \<Rightarrow> string" where
  "LevelSummary vs =
     ''files[ '' @ concat (map (\<lambda>files. decimal (length files) @ '' '') (ver_files (current vs))) @ '']''"

definition AddLiveFiles :: "'f VersionSet \<Rightarrow> u64 set \<Rightarrow> u64 set" where
  "AddLiveFiles vs live_files =
     live_files \<union> (\<Union>(_, _, v)\<in>set (vs_versions vs). \<Union>files\<in>set (ver_files v). fm_number ` set files)"

definition AddLiveVFiles :: "'f VersionSet \<Rightarrow> u64 set \<Rightarrow> u64 set" where
  "AddLiveVFiles vs live_files =
     live_files \<union> (\<Union>(_, _, v)\<in>set (vs_versions vs). \<Union>vfiles\<in>set (ver_vfiles v). fm_number ` set vfiles)"

text \<open>\<open>table_offset\<close> is \<^verbatim>\<open>ApproximateOffsetOf\<close> of the table of a file, or 0 if it cannot be opened.\<close>

primrec ApproximateOffsetOf_level ::
  "(bytes \<Rightarrow> bytes \<Rightarrow> int) \<Rightarrow> (FileMetaData \<Rightarrow> bytes \<Rightarrow> u64) \<Rightarrow> bytes \<Rightarrow> nat \<Rightarrow> FileMetaData list \<Rightarrow> u64 \<Rightarrow> u64" where
  "ApproximateOffsetOf_level icmp table_offset ikey level [] result = result"
| "ApproximateOffsetOf_level icmp table_offset ikey level (f # files) result =
     (if icmp (fm_largest f) ikey \<le> 0 then ApproximateOffsetOf_level icmp table_offset ikey level files (result + fm_file_size f)
      else if icmp (fm_smallest f) ikey > 0 then
        if level > 0 then result else ApproximateOffsetOf_level icmp table_offset ikey level files result
      else ApproximateOffsetOf_level icmp table_offset ikey level files (result + table_offset f ikey))"

definition VersionSet_ApproximateOffsetOf ::
  "(bytes \<Rightarrow> bytes \<Rightarrow> int) \<Rightarrow> (FileMetaData \<Rightarrow> bytes \<Rightarrow> u64) \<Rightarrow> Version \<Rightarrow> bytes \<Rightarrow> u64" where
  "VersionSet_ApproximateOffsetOf ucmp table_offset v ikey =
     foldl (\<lambda>result level.
         ApproximateOffsetOf_level (InternalKeyComparator_Compare ucmp) table_offset ikey level (ver_files v ! level) result)
       0 [0..<kNumLevels]"

primrec MaxNextLevelOverlappingBytes_loop ::
  "(bytes \<Rightarrow> bytes \<Rightarrow> int) \<Rightarrow> Version \<Rightarrow> (nat \<times> FileMetaData) list \<Rightarrow> int \<Rightarrow> int option" where
  "MaxNextLevelOverlappingBytes_loop ucmp v [] result = Some result"
| "MaxNextLevelOverlappingBytes_loop ucmp v (lf # lfs) result =
     Option.bind (GetOverlappingInputs ucmp v (fst lf + 1) (Some (fm_smallest (snd lf))) (Some (fm_largest (snd lf))))
       (\<lambda>overlaps. MaxNextLevelOverlappingBytes_loop ucmp v lfs (max result (TotalFileSize overlaps)))"

definition MaxNextLevelOverlappingBytes :: "(bytes \<Rightarrow> bytes \<Rightarrow> int) \<Rightarrow> 'f VersionSet \<Rightarrow> int option" where
  "MaxNextLevelOverlappingBytes ucmp vs =
     MaxNextLevelOverlappingBytes_loop ucmp (current vs)
       (concat (map (\<lambda>level. map (Pair level) (ver_files (current vs) ! level)) [1..<kNumLevels - 1])) 0"

section \<open>The manifest\<close>

text \<open>
  What is used of the environment. Files are values; \<open>'e\<close> is the rest of the file system, where names
  are created, renamed and deleted.
\<close>

record ('e, 'f) ManifestEnv =
  env_NewWritableFile :: "string \<Rightarrow> 'e \<Rightarrow> status \<times> 'f \<times> 'e"
  env_Append :: "bytes \<Rightarrow> 'f \<Rightarrow> status \<times> 'f"
  env_Flush :: "'f \<Rightarrow> status \<times> 'f"
  env_Sync :: "'f \<Rightarrow> status \<times> 'f"
  env_WriteStringToFileSync :: "string \<Rightarrow> string \<Rightarrow> 'e \<Rightarrow> status \<times> 'e"
  env_RenameFile :: "string \<Rightarrow> string \<Rightarrow> 'e \<Rightarrow> status \<times> 'e"
  env_DeleteFile :: "string \<Rightarrow> 'e \<Rightarrow> status \<times> 'e"
  env_SaveGraph :: "string \<Rightarrow> DependencyGraph \<Rightarrow> 'e \<Rightarrow> bool \<times> 'e"
  env_Extend :: "u32 \<Rightarrow> bytes \<Rightarrow> u32"

definition SetCurrentFile :: "('e, 'f) ManifestEnv \<Rightarrow> string \<Rightarrow> u64 \<Rightarrow> 'e \<Rightarrow> status \<times> 'e" where
  "SetCurrentFile env dbname descriptor_number e =
     (let contents = drop (length dbname + 1) (DescriptorFileName dbname descriptor_number);
          tmp = TempFileName dbname descriptor_number;
          (s, e) = env_WriteStringToFileSync env (contents @ [CHR 0x0A]) tmp e;
          (s, e) = (if Status_ok s then env_RenameFile env tmp (CurrentFileName dbname) e else (s, e))
      in if \<not> Status_ok s then (s, snd (env_DeleteFile env tmp e)) else (s, e))"

definition snapshot_pointers :: "(nat \<Rightarrow> bytes \<Rightarrow> VersionEdit \<Rightarrow> VersionEdit) \<Rightarrow> bytes list \<Rightarrow> VersionEdit \<Rightarrow> VersionEdit" where
  "snapshot_pointers set_pointer pointers edit =
     fold (\<lambda>(level, p). if p \<noteq> [] then set_pointer level p else id) (enumerate 0 pointers) edit"

definition snapshot_files ::
  "(nat \<Rightarrow> u64 \<Rightarrow> u64 \<Rightarrow> bytes \<Rightarrow> bytes \<Rightarrow> VersionEdit \<Rightarrow> VersionEdit) \<Rightarrow> FileMetaData list list \<Rightarrow> VersionEdit \<Rightarrow> VersionEdit" where
  "snapshot_files add levels edit =
     fold (\<lambda>(level, files). fold (\<lambda>f. add level (fm_number f) (fm_file_size f) (fm_smallest f) (fm_largest f)) files)
       (enumerate 0 levels) edit"

text \<open>\<open>name\<close> is the name of the user comparator.\<close>

definition snapshot_edit :: "bytes \<Rightarrow> 'f VersionSet \<Rightarrow> VersionEdit" where
  "snapshot_edit name vs =
     snapshot_files AddVFile (ver_vfiles (current vs)) (snapshot_files AddFile (ver_files (current vs))
       (snapshot_pointers SetCompactVPointer (vs_compact_vpointers vs)
         (snapshot_pointers SetCompactPointer (vs_compact_pointer vs) (SetComparatorName name VersionEdit_make))))"

definition WriteSnapshot :: "('e, 'f) ManifestEnv \<Rightarrow> bytes \<Rightarrow> 'f VersionSet \<Rightarrow> 'f Writer \<Rightarrow> (status \<times> 'f Writer) option" where
  "WriteSnapshot env name vs wlog =
     map_option (\<lambda>record. AddRecord (env_Append env) (env_Flush env) (env_Extend env) record wlog)
       (VersionEdit_EncodeTo (snapshot_edit name vs) [])"

text \<open>The edit is completed with the numbers of the set.\<close>

definition complete_edit :: "'f VersionSet \<Rightarrow> VersionEdit \<Rightarrow> VersionEdit" where
  "complete_edit vs edit =
     (let edit = (if ve_has_log_number edit then edit else SetLogNumber (vs_log_number vs) edit);
          edit = (if ve_has_prev_log_number edit then edit else SetPrevLogNumber (vs_prev_log_number vs) edit)
      in SetLastSequence (vs_last_sequence vs) (SetNextFile (vs_next_file_number vs) edit))"

text \<open>Opening a new manifest that starts with a snapshot, if none is open.\<close>

definition open_manifest ::
  "('e, 'f) ManifestEnv \<Rightarrow> bytes \<Rightarrow> 'f VersionSet \<Rightarrow> 'e \<Rightarrow> (status \<times> bool \<times> 'f VersionSet \<times> 'e) option" where
  "open_manifest env name vs e =
     (if vs_descriptor_log vs \<noteq> None then Some (Status_OK, False, vs, e)
      else
        let (s, f, e) = env_NewWritableFile env (DescriptorFileName (vs_dbname vs) (vs_manifest_file_number vs)) e
        in if Status_ok s then
             map_option (\<lambda>(s, wlog). (s, True, vs\<lparr>vs_descriptor_log := Some wlog\<rparr>, e))
               (WriteSnapshot env name vs (Writer_make (env_Extend env) f))
           else Some (s, True, vs, e))"

definition write_manifest ::
  "('e, 'f) ManifestEnv \<Rightarrow> VersionEdit \<Rightarrow> 'f VersionSet \<Rightarrow> (status \<times> 'f VersionSet) option" where
  "write_manifest env edit vs =
     Option.bind (vs_descriptor_log vs) (\<lambda>wlog.
     map_option (\<lambda>record.
         let (s, wlog) = AddRecord (env_Append env) (env_Flush env) (env_Extend env) record wlog
         in (s, vs\<lparr>vs_descriptor_log := Some wlog\<rparr>))
       (VersionEdit_EncodeTo edit []))"

definition save_graph :: "nat \<Rightarrow> ('e, 'f) ManifestEnv \<Rightarrow> 'f VersionSet \<Rightarrow> Version \<Rightarrow> 'e \<Rightarrow> status \<times> 'e" where
  "save_graph md env vs v e =
     (if md = 10 then
        let (ok, e) = env_SaveGraph env (DependencyGraphFileName (vs_dbname vs)) (ver_vblock_dep_graph v) e
        in (if ok then Status_OK else IOError ''DependencyGraph write failed'', e)
      else (Status_OK, e))"

definition sync_manifest :: "('e, 'f) ManifestEnv \<Rightarrow> 'f VersionSet \<Rightarrow> (status \<times> 'f VersionSet) option" where
  "sync_manifest env vs =
     map_option (\<lambda>wlog. let (s, f) = env_Sync env (w_dest wlog) in (s, vs\<lparr>vs_descriptor_log := Some (wlog\<lparr>w_dest := f\<rparr>)\<rparr>))
       (vs_descriptor_log vs)"

text \<open>The part that runs without the mutex; each step is taken only if all before have succeeded.\<close>

definition log_edit ::
  "nat \<Rightarrow> ('e, 'f) ManifestEnv \<Rightarrow> VersionEdit \<Rightarrow> Version \<Rightarrow> bool \<Rightarrow> status \<Rightarrow> 'f VersionSet \<Rightarrow> 'e \<Rightarrow>
    (status \<times> 'f VersionSet \<times> 'e) option" where
  "log_edit md env edit v new_manifest s vs e =
     Option.bind (if Status_ok s then write_manifest env edit vs else Some (s, vs)) (\<lambda>(s, vs).
     let (s, e) = (if Status_ok s then save_graph md env vs v e else (s, e)) in
     Option.bind (if Status_ok s then sync_manifest env vs else Some (s, vs)) (\<lambda>(s, vs).
     let (s, e) = (if Status_ok s \<and> new_manifest then SetCurrentFile env (vs_dbname vs) (vs_manifest_file_number vs) e else (s, e))
     in Some (s, vs, e)))"

definition LogAndApply ::
  "nat \<Rightarrow> (bytes \<Rightarrow> bytes \<Rightarrow> int) \<Rightarrow> bytes \<Rightarrow> ('e, 'f) ManifestEnv \<Rightarrow> VersionEdit \<Rightarrow> 'f VersionSet \<Rightarrow> 'e \<Rightarrow>
    (status \<times> 'f VersionSet \<times> 'e) option" where
  "LogAndApply md ucmp name env edit vs e =
     (let edit = complete_edit vs edit in
      Option.bind (Builder_Apply md ucmp edit (vs_compact_pointer vs) (vs_compact_vpointers vs) (Builder_make md (current vs)))
        (\<lambda>(cp, cvp, b).
      Option.bind (Builder_SaveTo md ucmp b (Version_make (vlevel_number md))) (\<lambda>v.
      let v = Finalize v;
          vs = vs\<lparr>vs_compact_pointer := cp, vs_compact_vpointers := cvp\<rparr>
      in
      Option.bind (open_manifest env name vs e) (\<lambda>(s, new_manifest, vs, e).
      let v = (if md = 10 then v\<lparr>ver_vblock_dep_graph := ver_vblock_dep_graph (current vs)\<rparr> else v) in
      Option.bind (log_edit md env edit v new_manifest s vs e) (\<lambda>(s, vs, e).
      if Status_ok s then
        Some (s, (AppendVersion v vs)\<lparr>vs_log_number := ve_log_number edit, vs_prev_log_number := ve_prev_log_number edit\<rparr>, e)
      else if new_manifest then
        Some (s, vs\<lparr>vs_descriptor_log := None\<rparr>,
          snd (env_DeleteFile env (DescriptorFileName (vs_dbname vs) (vs_manifest_file_number vs)) e))
      else Some (s, vs, e))))))"

section \<open>Recovery\<close>

text \<open>What is used of the environment to recover; a sequential file is a value of \<open>'g\<close>.\<close>

record ('e, 'f, 'g) RecoverEnv =
  rec_NewSequentialFile :: "string \<Rightarrow> status \<times> 'g"
  rec_Read :: "nat \<Rightarrow> 'g \<Rightarrow> status \<times> bytes \<times> 'g"
  rec_Skip :: "nat \<Rightarrow> 'g \<Rightarrow> status \<times> 'g"
  rec_GetFileSize :: "string \<Rightarrow> status \<times> u64"
  rec_NewAppendableFile :: "string \<Rightarrow> status \<times> 'f"
  rec_LoadGraph :: "string \<Rightarrow> bool \<times> DependencyGraph"
  rec_Extend :: "u32 \<Rightarrow> bytes \<Rightarrow> u32"

partial_function (option) ReadFileToString_loop ::
  "(nat \<Rightarrow> 'g \<Rightarrow> status \<times> bytes \<times> 'g) \<Rightarrow> 'g \<Rightarrow> bytes \<Rightarrow> (status \<times> bytes) option" where
  "ReadFileToString_loop read g data =
     (let (s, fragment, g) = read 8192 g
      in if \<not> Status_ok s then Some (s, data)
         else if fragment = [] then Some (s, data)
         else ReadFileToString_loop read g (data @ fragment))"

definition ReadFileToString ::
  "(string \<Rightarrow> status \<times> 'g) \<Rightarrow> (nat \<Rightarrow> 'g \<Rightarrow> status \<times> bytes \<times> 'g) \<Rightarrow> string \<Rightarrow> (status \<times> bytes) option" where
  "ReadFileToString new_sequential_file read fname =
     (let (s, g) = new_sequential_file fname
      in if \<not> Status_ok s then Some (s, []) else ReadFileToString_loop read g [])"

record recovered =
  rc_have_log_number :: bool
  rc_have_prev_log_number :: bool
  rc_have_next_file :: bool
  rc_have_last_sequence :: bool
  rc_next_file :: u64
  rc_last_sequence :: u64
  rc_log_number :: u64
  rc_prev_log_number :: u64

definition recovered_start :: recovered where
  "recovered_start =
     \<lparr>rc_have_log_number = False, rc_have_prev_log_number = False, rc_have_next_file = False, rc_have_last_sequence = False,
      rc_next_file = 0, rc_last_sequence = 0, rc_log_number = 0, rc_prev_log_number = 0\<rparr>"

definition recover_numbers :: "VersionEdit \<Rightarrow> recovered \<Rightarrow> recovered" where
  "recover_numbers edit rc =
     (let rc = (if ve_has_log_number edit then rc\<lparr>rc_log_number := ve_log_number edit, rc_have_log_number := True\<rparr> else rc);
          rc = (if ve_has_prev_log_number edit then rc\<lparr>rc_prev_log_number := ve_prev_log_number edit, rc_have_prev_log_number := True\<rparr> else rc);
          rc = (if ve_has_next_file_number edit then rc\<lparr>rc_next_file := ve_next_file_number edit, rc_have_next_file := True\<rparr> else rc)
      in if ve_has_last_sequence edit then rc\<lparr>rc_last_sequence := ve_last_sequence edit, rc_have_last_sequence := True\<rparr> else rc)"

text \<open>One record: the status, the compaction pointers of the set, the builder and the numbers.\<close>

definition recover_record ::
  "nat \<Rightarrow> (bytes \<Rightarrow> bytes \<Rightarrow> int) \<Rightarrow> bytes \<Rightarrow> bytes \<Rightarrow> bytes list \<times> bytes list \<times> Builder \<times> recovered \<Rightarrow>
    (status \<times> bytes list \<times> bytes list \<times> Builder \<times> recovered) option" where
  "recover_record md ucmp name record st =
     (let (cp, cvp, b, rc) = st in
      Option.bind (VersionEdit_DecodeFrom record VersionEdit_make) (\<lambda>(s, edit).
      let s = (if Status_ok s \<and> ve_has_comparator edit \<and> ve_comparator edit \<noteq> name
               then Status_make kInvalidArgument (map (\<lambda>b. char_of (unat b)) (ve_comparator edit) @ '' does not match existing comparator '')
                      (map (\<lambda>b. char_of (unat b)) name)
               else s) in
      Option.bind (if Status_ok s then Builder_Apply md ucmp edit cp cvp b else Some (cp, cvp, b)) (\<lambda>(cp, cvp, b).
      Some (s, cp, cvp, b, recover_numbers edit rc))))"

text \<open>The reporter keeps the first corruption that the reader finds.\<close>

definition reported :: "'g Reader \<Rightarrow> status" where
  "reported rd = (case rd_reporter rd of Some ((_, s) # _) \<Rightarrow> s | _ \<Rightarrow> Status_OK)"

partial_function (option) Recover_loop ::
  "nat \<Rightarrow> (bytes \<Rightarrow> bytes \<Rightarrow> int) \<Rightarrow> bytes \<Rightarrow> (nat \<Rightarrow> 'g \<Rightarrow> status \<times> bytes \<times> 'g) \<Rightarrow> (nat \<Rightarrow> 'g \<Rightarrow> status \<times> 'g) \<Rightarrow> (u32 \<Rightarrow> bytes \<Rightarrow> u32) \<Rightarrow>
    'g Reader \<Rightarrow> bytes list \<times> bytes list \<times> Builder \<times> recovered \<Rightarrow>
    (status \<times> bytes list \<times> bytes list \<times> Builder \<times> recovered) option" where
  "Recover_loop md ucmp name read skip ext rd st =
     Option.bind (ReadRecord read skip ext (rd\<lparr>rd_reporter := Some []\<rparr>)) (\<lambda>(ok, record, rd).
     if \<not> ok \<or> \<not> Status_ok (reported rd) then Some (reported rd, st)
     else
       Option.bind (recover_record md ucmp name record st) (\<lambda>(s, st).
       if Status_ok s then Recover_loop md ucmp name read skip ext rd st
       else Option.bind (ReadRecord read skip ext (rd\<lparr>rd_reporter := Some []\<rparr>)) (\<lambda>_. Some (s, st))))"

definition ReuseManifest ::
  "('e, 'f, 'g) RecoverEnv \<Rightarrow> bool \<Rightarrow> u64 \<Rightarrow> string \<Rightarrow> string \<Rightarrow> 'f VersionSet \<Rightarrow> bool \<times> 'f VersionSet" where
  "ReuseManifest env reuse_logs max_file_size dscname dscbase vs =
     (if \<not> reuse_logs then (False, vs)
      else
        case ParseFileName dscbase of
          None \<Rightarrow> (False, vs)
        | Some (manifest_number, manifest_type) \<Rightarrow>
            let (s, manifest_size) = rec_GetFileSize env dscname
            in if manifest_type \<noteq> kDescriptorFile \<or> \<not> Status_ok s \<or> manifest_size \<ge> max_file_size then (False, vs)
               else
                 let (r, f) = rec_NewAppendableFile env dscname
                 in if \<not> Status_ok r then (False, vs)
                    else (True, vs\<lparr>vs_descriptor_log := Some (Writer_make_at (rec_Extend env) f manifest_size),
                                    vs_manifest_file_number := manifest_number\<rparr>))"

definition recover_status :: "recovered \<Rightarrow> status" where
  "recover_status rc =
     (if \<not> rc_have_next_file rc then Corruption ''no meta-nextfile entry in descriptor''
      else if \<not> rc_have_log_number rc then Corruption ''no meta-lognumber entry in descriptor''
      else if \<not> rc_have_last_sequence rc then Corruption ''no last-sequence-number entry in descriptor''
      else Status_OK)"

definition install_recovered ::
  "nat \<Rightarrow> ('e, 'f, 'g) RecoverEnv \<Rightarrow> bool \<Rightarrow> u64 \<Rightarrow> string \<Rightarrow> string \<Rightarrow> recovered \<Rightarrow> Version \<Rightarrow> 'f VersionSet \<Rightarrow> bool \<Rightarrow> bool \<times> 'f VersionSet" where
  "install_recovered md env reuse_logs max_file_size dscname current_name rc v vs save_manifest =
     (let v = Finalize v;
          v = (if md = 10 then
                 let (ok, g) = rec_LoadGraph env (DependencyGraphFileName (vs_dbname vs))
                 in v\<lparr>ver_vblock_dep_graph := if ok then g else []\<rparr>
               else v);
          vs = (AppendVersion v vs)\<lparr>vs_manifest_file_number := rc_next_file rc, vs_next_file_number := rc_next_file rc + 1,
                  vs_last_sequence := rc_last_sequence rc, vs_log_number := rc_log_number rc, vs_prev_log_number := rc_prev_log_number rc\<rparr>;
          (reuse, vs) = ReuseManifest env reuse_logs max_file_size dscname current_name vs
      in (if reuse then save_manifest else True, vs))"

text \<open>What follows the reading of the manifest, and the recovery as a whole.\<close>

definition finish_recovery ::
  "nat \<Rightarrow> (bytes \<Rightarrow> bytes \<Rightarrow> int) \<Rightarrow> ('e, 'f, 'g) RecoverEnv \<Rightarrow> bool \<Rightarrow> u64 \<Rightarrow> string \<Rightarrow> string \<Rightarrow> bool \<Rightarrow>
    status \<Rightarrow> Builder \<Rightarrow> recovered \<Rightarrow> 'f VersionSet \<Rightarrow> (status \<times> bool \<times> 'f VersionSet) option" where
  "finish_recovery md ucmp env reuse_logs max_file_size dscname current_name save_manifest s b rc vs =
     (if \<not> Status_ok s then Some (s, save_manifest, vs)
      else
        let s = recover_status rc;
            rc = (if rc_have_prev_log_number rc then rc else rc\<lparr>rc_prev_log_number := 0\<rparr>);
            vs = MarkFileNumberUsed (rc_log_number rc) (MarkFileNumberUsed (rc_prev_log_number rc) vs)
        in if \<not> Status_ok s then Some (s, save_manifest, vs)
           else
             map_option
               (\<lambda>v. (Status_OK, install_recovered md env reuse_logs max_file_size dscname current_name rc v vs save_manifest))
               (Builder_SaveTo md ucmp b (Version_make (vlevel_number md))))"

text \<open>\<open>max_file_size\<close> is the target size of files. The result has the status and whether the manifest has to be written anew.\<close>

definition VersionSet_Recover ::
  "nat \<Rightarrow> (bytes \<Rightarrow> bytes \<Rightarrow> int) \<Rightarrow> bytes \<Rightarrow> ('e, 'f, 'g) RecoverEnv \<Rightarrow> bool \<Rightarrow> u64 \<Rightarrow> bool \<Rightarrow> 'f VersionSet \<Rightarrow>
    (status \<times> bool \<times> 'f VersionSet) option" where
  "VersionSet_Recover md ucmp name env reuse_logs max_file_size save_manifest vs =
     Option.bind (ReadFileToString (rec_NewSequentialFile env) (rec_Read env) (CurrentFileName (vs_dbname vs))) (\<lambda>(s, bytes).
     let current_name = map (\<lambda>b. char_of (unat b)) bytes in
     if \<not> Status_ok s then Some (s, save_manifest, vs)
     else if current_name = [] \<or> last current_name \<noteq> CHR 0x0A
     then Some (Corruption ''CURRENT file does not end with newline'', save_manifest, vs)
     else
       let current_name = butlast current_name;
           dscname = vs_dbname vs @ ''/'' @ current_name;
           (s, f) = rec_NewSequentialFile env dscname
       in if \<not> Status_ok s then
            Some (if Status_IsNotFound s then Status_make kCorruption ''CURRENT points to a non-existent file'' (Status_ToString s) else s,
              save_manifest, vs)
          else
            Option.bind
              (Recover_loop md ucmp name (rec_Read env) (rec_Skip env) (rec_Extend env) (Reader_make f (Some []) True 0)
                 (vs_compact_pointer vs, vs_compact_vpointers vs, Builder_make md (current vs), recovered_start))
              (\<lambda>(s, cp, cvp, b, rc).
                 finish_recovery md ucmp env reuse_logs max_file_size dscname current_name save_manifest s b rc
                   (vs\<lparr>vs_compact_pointer := cp, vs_compact_vpointers := cvp\<rparr>)))"

end
