(* ===== verification/Version_Recovery.thy ===== *)
theory Version_Recovery
  imports Version_Set
begin

text \<open>
  The manifest (\<^verbatim>\<open>db/version_set.cc\<close>): what \<^verbatim>\<open>VersionSet::LogAndApply\<close> writes and what \<^verbatim>\<open>VersionSet::Recover\<close> reads
  back. The interface \<open>manifest_env\<close> is what logging relies on; it is interpreted on the files in memory.
  Runs of a version set are an inductive relation, whose invariant says which edits the manifest holds
  and that the current version is the result of these edits. Logging succeeds when the environment
  does, and recovery from any prefix of the manifest rebuilds the version of the edits it still holds.
\<close>

section \<open>Reading\<close>

context sequential_file
begin

lemma ReadFileToString_loop: "good g \<Longrightarrow> ReadFileToString_loop read g data = Some (Status_OK, data @ rest g)"
proof (induction "length (rest g)" arbitrary: g data rule: less_induct)
  case less
  obtain g' where g': "read 8192 g = (Status_OK, take 8192 (rest g), g')" "good g'" "rest g' = drop 8192 (rest g)"
    using read_ok [OF less.prems] by blast
  show ?case
  proof (cases "rest g = []")
    case True
    then show ?thesis
      using g'(1) by (subst ReadFileToString_loop.simps) simp
  next
    case False
    then have "length (rest g') < length (rest g)"
      using g'(3) by simp
    then have "ReadFileToString_loop read g' (data @ take 8192 (rest g)) = Some (Status_OK, data @ rest g)"
      using less.hyps [OF _ g'(2)] by (simp add: g'(3))
    then show ?thesis
      using g'(1) False by (subst ReadFileToString_loop.simps) simp
  qed
qed

end

primrec recover_all ::
  "nat \<Rightarrow> (bytes \<Rightarrow> bytes \<Rightarrow> int) \<Rightarrow> bytes \<Rightarrow> bytes list \<Rightarrow> bytes list \<times> bytes list \<times> Builder \<times> recovered \<Rightarrow>
    (bytes list \<times> bytes list \<times> Builder \<times> recovered) option" where
  "recover_all md ucmp name [] st = Some st"
| "recover_all md ucmp name (r # rs) st =
     Option.bind (recover_record md ucmp name r st) (\<lambda>(s, st). if Status_ok s then recover_all md ucmp name rs st else None)"

context log_reader
begin

text \<open>A manifest that is cut after \<open>k\<close> bytes is recovered up to the cut.\<close>

lemma Recover_loop_records:
  assumes "reader_at rest good rd (take k (fst (log_records ext recs ofs))) ofs"
  shows "\<exists>m\<le>length recs. length (fst (log_records ext (take m recs) ofs)) \<le> k \<and>
    (m < length recs \<longrightarrow> k < length (fst (log_records ext (take (Suc m) recs) ofs))) \<and>
    (\<forall>st st'. recover_all md ucmp name (take m recs) st = Some st' \<longrightarrow> Recover_loop md ucmp name read skip ext rd st = Some (Status_OK, st'))"
  using assms
proof (induction recs arbitrary: rd k ofs)
  case Nil
  have "reader_at rest good (rd\<lparr>rd_reporter := Some []\<rparr>) [] ofs"
    using Nil.prems by (auto simp add: reader_at_def split: if_splits)
  then show ?case
    using ReadRecord_empty [of "rd\<lparr>rd_reporter := Some []\<rparr>" ofs] by (subst Recover_loop.simps) (auto simp add: reported_def)
next
  case (Cons d recs)
  let ?r = "log_record ext True d ofs" and ?rd = "rd\<lparr>rd_reporter := Some []\<rparr>"
  have at: "reader_at rest good ?rd (take k (fst ?r @ fst (log_records ext recs (snd ?r)))) ofs"
    using Cons.prems by (simp add: reader_at_def Let_def)
  show ?case
  proof (cases "length (fst ?r) \<le> k")
    case True
    then obtain rd' where rd': "ReadRecord read skip ext ?rd = Some (True, d, rd')" "rd_reporter rd' = Some []"
        "reader_at rest good rd' (take (k - length (fst ?r)) (fst (log_records ext recs (snd ?r)))) (snd ?r)"
      using ReadRecord_record [OF at] by auto
    obtain m where m: "m \<le> length recs" "length (fst (log_records ext (take m recs) (snd ?r))) \<le> k - length (fst ?r)"
        "m < length recs \<longrightarrow> k - length (fst ?r) < length (fst (log_records ext (take (Suc m) recs) (snd ?r)))"
        "\<forall>st st'. recover_all md ucmp name (take m recs) st = Some st' \<longrightarrow> Recover_loop md ucmp name read skip ext rd' st = Some (Status_OK, st')"
      using Cons.IH [OF rd'(3)] by blast
    have "Recover_loop md ucmp name read skip ext rd st = Some (Status_OK, st')"
      if all: "recover_all md ucmp name (take (Suc m) (d # recs)) st = Some st'" for st st'
    proof -
      obtain s st1 where 1: "recover_record md ucmp name d st = Some (s, st1)" "Status_ok s" "recover_all md ucmp name (take m recs) st1 = Some st'"
        using all by (auto simp add: bind_eq_Some_conv split: if_splits)
      have "Recover_loop md ucmp name read skip ext rd' st1 = Some (Status_OK, st')"
        using m(4) 1(3) by blast
      then show ?thesis
        using 1(1,2) rd'(1,2) by (subst Recover_loop.simps) (simp add: reported_def)
    qed
    then show ?thesis
      using m True by (intro exI [of _ "Suc m"]) (auto simp add: Let_def)
  next
    case False
    then obtain rd' where "ReadRecord read skip ext ?rd = Some (False, [], rd')" "rd_reporter rd' = Some []"
      using ReadRecord_record [OF at] by auto
    then have "Recover_loop md ucmp name read skip ext rd st = Some (Status_OK, st)" for st
      by (subst Recover_loop.simps) (simp add: reported_def)
    then show ?thesis
      using False by (intro exI [of _ 0]) (simp add: Let_def)
  qed
qed

end

section \<open>Edits in the manifest\<close>

lemma edit_dep:
  assumes "e' = e\<lparr>ve_dep := ve_dep e'\<rparr>"
  shows "edit_files level e' = edit_files level e" "edit_vfiles level e' = edit_vfiles level e" "edit_applies md e' = edit_applies md e"
    "ve_new_files e' = ve_new_files e" "ve_new_vfiles e' = ve_new_vfiles e" "recover_numbers e' = recover_numbers e"
    "ve_has_comparator e' = ve_has_comparator e" "ve_comparator e' = ve_comparator e"
proof -
  have f: "ve_comparator e' = ve_comparator e"
    "ve_log_number e' = ve_log_number e"
    "ve_prev_log_number e' = ve_prev_log_number e"
    "ve_next_file_number e' = ve_next_file_number e"
    "ve_last_sequence e' = ve_last_sequence e"
    "ve_has_comparator e' = ve_has_comparator e"
    "ve_has_log_number e' = ve_has_log_number e"
    "ve_has_prev_log_number e' = ve_has_prev_log_number e"
    "ve_has_next_file_number e' = ve_has_next_file_number e"
    "ve_has_last_sequence e' = ve_has_last_sequence e"
    "ve_compact_pointers e' = ve_compact_pointers e"
    "ve_compact_vpointers e' = ve_compact_vpointers e"
    "ve_deleted_files e' = ve_deleted_files e"
    "ve_deleted_vfiles e' = ve_deleted_vfiles e"
    "ve_new_files e' = ve_new_files e"
    "ve_new_vfiles e' = ve_new_vfiles e"
    using arg_cong [OF assms, of ve_comparator]
      arg_cong [OF assms, of ve_log_number]
      arg_cong [OF assms, of ve_prev_log_number]
      arg_cong [OF assms, of ve_next_file_number]
      arg_cong [OF assms, of ve_last_sequence]
      arg_cong [OF assms, of ve_has_comparator]
      arg_cong [OF assms, of ve_has_log_number]
      arg_cong [OF assms, of ve_has_prev_log_number]
      arg_cong [OF assms, of ve_has_next_file_number]
      arg_cong [OF assms, of ve_has_last_sequence]
      arg_cong [OF assms, of ve_compact_pointers]
      arg_cong [OF assms, of ve_compact_vpointers]
      arg_cong [OF assms, of ve_deleted_files]
      arg_cong [OF assms, of ve_deleted_vfiles]
      arg_cong [OF assms, of ve_new_files]
      arg_cong [OF assms, of ve_new_vfiles] by simp_all
  show "edit_files level e' = edit_files level e" "edit_vfiles level e' = edit_vfiles level e" "edit_applies md e' = edit_applies md e"
    "ve_new_files e' = ve_new_files e" "ve_new_vfiles e' = ve_new_vfiles e" "recover_numbers e' = recover_numbers e"
    "ve_has_comparator e' = ve_has_comparator e" "ve_comparator e' = ve_comparator e"
    by (simp_all add: f edit_files_def edit_vfiles_def edit_applies_def recover_numbers_def fun_eq_iff)
qed

text \<open>The edits that are read back are those that were written, up to the representation of the dependencies.\<close>

abbreviation same_edits :: "VersionEdit list \<Rightarrow> VersionEdit list \<Rightarrow> bool" where
  "same_edits \<equiv> list_all2 (\<lambda>e e'. e' = e\<lparr>ve_dep := ve_dep e'\<rparr>)"

lemma same_edits_fold:
  assumes "same_edits es es'"
  shows "fold (edit_files level) es' S = fold (edit_files level) es S" "fold (edit_vfiles level) es' S = fold (edit_vfiles level) es S"
    "edits_fresh level ve_new_files N es' = edits_fresh level ve_new_files N es"
    "edits_fresh level ve_new_vfiles N es' = edits_fresh level ve_new_vfiles N es"
    "(\<forall>e\<in>set es'. edit_applies md e) = (\<forall>e\<in>set es. edit_applies md e)"
  using assms
proof (induction es es' arbitrary: S N rule: list_all2_induct)
  case (Cons e es e' es')
  note same = edit_dep [OF Cons.hyps(1)]
  {
    case 1 show ?case by (simp add: same Cons.IH(1))
  next
    case 2 show ?case by (simp add: same Cons.IH(2))
  next
    case 3 show ?case by (simp add: same Cons.IH(3))
  next
    case 4 show ?case by (simp add: same Cons.IH(4))
  next
    case 5 show ?case by (simp add: same Cons.IH(5))
  }
qed simp_all

lemma recover_all_edits:
  assumes "list_all2 (\<lambda>e r. VersionEdit_EncodeTo e [] = Some r) es recs"
    and "\<forall>e\<in>set es. edit_ok e \<and> (ve_has_comparator e \<longrightarrow> ve_comparator e = name)"
  shows "\<exists>es'. same_edits es es' \<and> (\<forall>cp cvp b rc. recover_all md ucmp name recs (cp, cvp, b, rc) =
    map_option (\<lambda>(cp, cvp, b). (cp, cvp, b, fold recover_numbers es rc)) (Apply_all md ucmp es' cp cvp b))"
  using assms
proof (induction es recs rule: list_all2_induct)
  case Nil
  then show ?case by (intro exI [of _ "[]"]) simp
next
  case (Cons e es r recs)
  obtain es' where es': "same_edits es es'" "\<And>cp cvp b rc. recover_all md ucmp name recs (cp, cvp, b, rc) =
      map_option (\<lambda>(cp, cvp, b). (cp, cvp, b, fold recover_numbers es rc)) (Apply_all md ucmp es' cp cvp b)"
    using Cons by auto
  obtain e' where e': "VersionEdit_DecodeFrom r VersionEdit_make = Some (Status_OK, e')" "e' = e\<lparr>ve_dep := ve_dep e'\<rparr>"
    using version_edit_codec [of e] Cons.hyps(1) Cons.prems by (metis list.set_intros(1) option.inject)
  have step: "recover_record md ucmp name r (cp, cvp, b, rc) =
      map_option (\<lambda>(cp, cvp, b). (Status_OK, cp, cvp, b, recover_numbers e rc)) (Builder_Apply md ucmp e' cp cvp b)" for cp cvp b rc
    using Cons.prems edit_dep(6-8) [OF e'(2)] e'(1)
    by (cases "Builder_Apply md ucmp e' cp cvp b") (auto simp add: recover_record_def Let_def)
  have "recover_all md ucmp name (r # recs) (cp, cvp, b, rc) =
      map_option (\<lambda>(cp, cvp, b). (cp, cvp, b, fold recover_numbers (e # es) rc)) (Apply_all md ucmp (e' # es') cp cvp b)" for cp cvp b rc
    by (cases "Builder_Apply md ucmp e' cp cvp b") (auto simp add: step es'(2))
  then show ?case
    using es'(1) e'(2) by (intro exI [of _ "e' # es'"] conjI allI) (rule list_all2_Cons [THEN iffD2], rule conjI)
qed

definition edit_numbers :: "VersionEdit \<Rightarrow> bool" where
  "edit_numbers e \<longleftrightarrow> ve_has_log_number e \<and> ve_has_prev_log_number e \<and> ve_has_next_file_number e \<and> ve_has_last_sequence e"

lemma recover_numbers_last:
  assumes "edit_numbers e"
  shows "recover_numbers e rc =
    \<lparr>rc_have_log_number = True, rc_have_prev_log_number = True, rc_have_next_file = True, rc_have_last_sequence = True,
     rc_next_file = ve_next_file_number e, rc_last_sequence = ve_last_sequence e, rc_log_number = ve_log_number e,
     rc_prev_log_number = ve_prev_log_number e\<rparr>"
  using assms by (simp add: edit_numbers_def recover_numbers_def)

section \<open>Snapshots\<close>

definition stored_meta :: "FileMetaData \<Rightarrow> FileMetaData" where
  "stored_meta f = FileMetaData_make\<lparr>fm_number := fm_number f, fm_file_size := fm_file_size f, fm_smallest := fm_smallest f, fm_largest := fm_largest f\<rparr>"

lemma stored_meta_simps [simp]:
  "fm_number (stored_meta f) = fm_number f" "fm_smallest (stored_meta f) = fm_smallest f"
  "fm_largest (stored_meta f) = fm_largest f" "fm_file_size (stored_meta f) = fm_file_size f"
  by (simp_all add: stored_meta_def)

definition level_entries :: "FileMetaData list list \<Rightarrow> (nat \<times> FileMetaData) list" where
  "level_entries levels = concat (map (\<lambda>(level, files). map (\<lambda>f. (level, stored_meta f)) files) (enumerate 0 levels))"

definition pointer_entries :: "bytes list \<Rightarrow> (nat \<times> bytes) list" where
  "pointer_entries pointers = filter (\<lambda>p. snd p \<noteq> []) (enumerate 0 pointers)"

lemma fold_AddFile:
  "fold (\<lambda>f. AddFile level (fm_number f) (fm_file_size f) (fm_smallest f) (fm_largest f)) files edit =
     edit\<lparr>ve_new_files := ve_new_files edit @ map (\<lambda>f. (level, stored_meta f)) files\<rparr>"
  by (induction files arbitrary: edit) (simp_all add: AddFile_def stored_meta_def)

lemma fold_AddVFile:
  "fold (\<lambda>f. AddVFile level (fm_number f) (fm_file_size f) (fm_smallest f) (fm_largest f)) files edit =
     edit\<lparr>ve_new_vfiles := ve_new_vfiles edit @ map (\<lambda>f. (level, stored_meta f)) files\<rparr>"
  by (induction files arbitrary: edit) (simp_all add: AddVFile_def stored_meta_def)

lemma snapshot_files_entries:
  "snapshot_files AddFile levels edit = edit\<lparr>ve_new_files := ve_new_files edit @ level_entries levels\<rparr>"
  "snapshot_files AddVFile levels edit = edit\<lparr>ve_new_vfiles := ve_new_vfiles edit @ level_entries levels\<rparr>"
proof -
  have "fold (\<lambda>(level, files). fold (\<lambda>f. AddFile level (fm_number f) (fm_file_size f) (fm_smallest f) (fm_largest f)) files) ls edit =
      edit\<lparr>ve_new_files := ve_new_files edit @ concat (map (\<lambda>(level, files). map (\<lambda>f. (level, stored_meta f)) files) ls)\<rparr>" for ls
    by (induction ls arbitrary: edit) (auto simp add: fold_AddFile)
  then show "snapshot_files AddFile levels edit = edit\<lparr>ve_new_files := ve_new_files edit @ level_entries levels\<rparr>"
    by (simp add: snapshot_files_def level_entries_def)
  have "fold (\<lambda>(level, files). fold (\<lambda>f. AddVFile level (fm_number f) (fm_file_size f) (fm_smallest f) (fm_largest f)) files) ls edit =
      edit\<lparr>ve_new_vfiles := ve_new_vfiles edit @ concat (map (\<lambda>(level, files). map (\<lambda>f. (level, stored_meta f)) files) ls)\<rparr>" for ls
    by (induction ls arbitrary: edit) (auto simp add: fold_AddVFile)
  then show "snapshot_files AddVFile levels edit = edit\<lparr>ve_new_vfiles := ve_new_vfiles edit @ level_entries levels\<rparr>"
    by (simp add: snapshot_files_def level_entries_def)
qed

lemma snapshot_pointers_entries:
  "snapshot_pointers SetCompactPointer ps edit = edit\<lparr>ve_compact_pointers := ve_compact_pointers edit @ pointer_entries ps\<rparr>"
  "snapshot_pointers SetCompactVPointer ps edit = edit\<lparr>ve_compact_vpointers := ve_compact_vpointers edit @ pointer_entries ps\<rparr>"
proof -
  have "fold (\<lambda>(level, p). if p \<noteq> [] then SetCompactPointer level p else id) ls edit =
      edit\<lparr>ve_compact_pointers := ve_compact_pointers edit @ filter (\<lambda>p. snd p \<noteq> []) ls\<rparr>" for ls
    by (induction ls arbitrary: edit) (auto simp add: SetCompactPointer_def)
  then show "snapshot_pointers SetCompactPointer ps edit = edit\<lparr>ve_compact_pointers := ve_compact_pointers edit @ pointer_entries ps\<rparr>"
    by (simp add: snapshot_pointers_def pointer_entries_def)
  have "fold (\<lambda>(level, p). if p \<noteq> [] then SetCompactVPointer level p else id) ls edit =
      edit\<lparr>ve_compact_vpointers := ve_compact_vpointers edit @ filter (\<lambda>p. snd p \<noteq> []) ls\<rparr>" for ls
    by (induction ls arbitrary: edit) (auto simp add: SetCompactVPointer_def)
  then show "snapshot_pointers SetCompactVPointer ps edit = edit\<lparr>ve_compact_vpointers := ve_compact_vpointers edit @ pointer_entries ps\<rparr>"
    by (simp add: snapshot_pointers_def pointer_entries_def)
qed

lemma set_enumerate: "set (enumerate 0 xs) = {(i, xs ! i) | i. i < length xs}"
  by (auto simp add: in_set_enumerate_eq)

lemma set_level_entries: "set (level_entries levels) = {(i, stored_meta f) | i f. i < length levels \<and> f \<in> set (levels ! i)}"
  by (fastforce simp add: level_entries_def set_enumerate)

lemma new_at_concat:
  "new_at k (concat (map (\<lambda>(level, files). map (\<lambda>f. (level, stored_meta f)) files) (enumerate n levels))) =
     (if n \<le> k \<and> k < n + length levels then map stored_meta (levels ! (k - n)) else [])"
proof (induction levels arbitrary: n)
  case Nil
  show ?case by (auto simp add: new_at_def)
next
  case (Cons files levels)
  have "filter (\<lambda>nf. fst nf = k) (map (\<lambda>f. (n, stored_meta f)) files) = (if k = n then map (\<lambda>f. (n, stored_meta f)) files else [])"
    by (induction files) simp_all
  then show ?case
    using Cons.IH [of "Suc n"] by (auto simp add: new_at_def comp_def nth_Cons')
qed

lemma new_at_level_entries: "k < length levels \<Longrightarrow> new_at k (level_entries levels) = map stored_meta (levels ! k)"
  using new_at_concat [of k 0 levels] by (simp add: level_entries_def)

text \<open>A version whose files can be written into the manifest.\<close>

definition storable :: "Version \<Rightarrow> bool" where
  "storable v \<longleftrightarrow> (\<forall>files\<in>set (ver_files v) \<union> set (ver_vfiles v).
     distinct (map fm_number files) \<and> (\<forall>f\<in>set files. key_fits (fm_smallest f) \<and> key_fits (fm_largest f)))"

definition snapshot_ready :: "nat \<Rightarrow> bytes \<Rightarrow> 'f VersionSet \<Rightarrow> bool" where
  "snapshot_ready md name vs \<longleftrightarrow> version_inv md (current vs) \<and> storable (current vs) \<and> length name < 2 ^ 32 \<and>
     length (vs_compact_pointer vs) = kNumLevels \<and> (\<forall>p\<in>set (vs_compact_pointer vs). length p < 2 ^ 32) \<and>
     vs_compact_vpointers vs = replicate (vlevel_number md) []"

lemma snapshot_edit_entries:
  "snapshot_edit name vs = VersionEdit_make\<lparr>ve_has_comparator := True, ve_comparator := name,
     ve_compact_pointers := pointer_entries (vs_compact_pointer vs), ve_compact_vpointers := pointer_entries (vs_compact_vpointers vs),
     ve_new_files := level_entries (ver_files (current vs)), ve_new_vfiles := level_entries (ver_vfiles (current vs))\<rparr>"
  by (simp add: snapshot_edit_def snapshot_files_entries snapshot_pointers_entries SetComparatorName_def VersionEdit_make_def VersionEdit_Clear_def)

lemma vlevel_number_le: "vlevel_number md \<le> kNumLevels"
  by (simp add: vlevel_number_def kNumLevels_def)

lemma snapshot_edit_ok:
  assumes "snapshot_ready md name vs"
  shows "edit_ok (snapshot_edit name vs)" "edit_applies md (snapshot_edit name vs)"
proof -
  have v: "length (ver_files (current vs)) = kNumLevels" "length (ver_vfiles (current vs)) = vlevel_number md"
      "\<And>level f. level < kNumLevels \<Longrightarrow> f \<in> set (ver_files (current vs) ! level) \<Longrightarrow>
        8 \<le> length (fm_smallest f) \<and> key_fits (fm_smallest f) \<and> key_fits (fm_largest f)"
      "\<And>level f. level < vlevel_number md \<Longrightarrow> f \<in> set (ver_vfiles (current vs) ! level) \<Longrightarrow>
        vfile_valid md (fm_smallest f) \<and> key_fits (fm_smallest f) \<and> key_fits (fm_largest f)"
    using assms by (auto simp add: snapshot_ready_def version_inv_def storable_def)
  have vps: "pointer_entries (vs_compact_vpointers vs) = []"
    using assms by (auto simp add: snapshot_ready_def pointer_entries_def filter_empty_conv set_enumerate)
  have ps: "\<forall>p\<in>set (pointer_entries (vs_compact_pointer vs)). fst p < kNumLevels \<and> key_fits (snd p)"
    using assms by (auto simp add: snapshot_ready_def pointer_entries_def set_enumerate)
  have meta: "fm_refs (stored_meta f) = 0 \<and> fm_allowed_seeks (stored_meta f) = 2 ^ 30 \<and> fm_num_keys (stored_meta f) = 0 \<and> fm_invalid_count (stored_meta f) = 0" for f
    by (simp add: stored_meta_def FileMetaData_make_def)
  have files: "files_ok (level_entries (ver_files (current vs)))" "files_ok (level_entries (ver_vfiles (current vs)))"
    using v meta vlevel_number_le [of md] by (auto simp add: files_ok_def set_level_entries)
  have "numbers_ok (snapshot_edit name vs)"
    using assms by (simp add: snapshot_edit_entries numbers_ok_def snapshot_ready_def VersionEdit_make_def VersionEdit_Clear_def)
  then show "edit_ok (snapshot_edit name vs)"
    using files ps vps by (simp add: edit_ok_def snapshot_edit_entries pointers_ok_def deleted_ok_def dep_reach.empty VersionEdit_make_def VersionEdit_Clear_def)
  show "edit_applies md (snapshot_edit name vs)"
    using ps vps v by (auto simp add: edit_applies_def snapshot_edit_entries set_level_entries VersionEdit_make_def VersionEdit_Clear_def)
qed

section \<open>What the manifest holds\<close>

definition manifest_holds ::
  "(u32 \<Rightarrow> bytes \<Rightarrow> u32) \<Rightarrow> ('f \<Rightarrow> bool) \<Rightarrow> ('f \<Rightarrow> bytes) \<Rightarrow> VersionEdit list \<Rightarrow> 'f VersionSet \<Rightarrow> bool" where
  "manifest_holds ext good contents es vs \<longleftrightarrow>
     (\<exists>w recs. vs_descriptor_log vs = Some w \<and> writer_good good ext w \<and>
        list_all2 (\<lambda>e r. VersionEdit_EncodeTo e [] = Some r) es recs \<and>
        contents (w_dest w) = fst (log_records ext recs 0) \<and> w_block_offset w = snd (log_records ext recs 0))"

text \<open>The interface of the files of the manifest, for writing.\<close>

locale manifest_env = log_writer "env_Append env" "env_Flush env" contents good "env_Extend env"
  for env :: "('e, 'f) ManifestEnv" and contents :: "'f \<Rightarrow> bytes" and good :: "'f \<Rightarrow> bool" +
  assumes sync_law: "good f \<Longrightarrow> env_Sync env f = (s, f') \<Longrightarrow> good f' \<and> contents f' = contents f"
    and new_file_law: "env_NewWritableFile env n e = (s, f, e') \<Longrightarrow> Status_ok s \<Longrightarrow> good f \<and> contents f = []"
begin

abbreviation "holds \<equiv> manifest_holds (env_Extend env) good contents"

lemma AddRecord_holds:
  assumes "list_all2 (\<lambda>e r. VersionEdit_EncodeTo e [] = Some r) es recs" "writer_good good (env_Extend env) w"
    and "contents (w_dest w) = fst (log_records (env_Extend env) recs 0)" "w_block_offset w = snd (log_records (env_Extend env) recs 0)"
    and "VersionEdit_EncodeTo edit [] = Some record" "AddRecord (env_Append env) (env_Flush env) (env_Extend env) record w = (s, w')"
  shows "holds (es @ [edit]) (vs\<lparr>vs_descriptor_log := Some w'\<rparr>)"
proof -
  have "writer_good good (env_Extend env) w'" "contents (w_dest w') = contents (w_dest w) @ fst (log_record (env_Extend env) True record (w_block_offset w))"
      "w_block_offset w' = snd (log_record (env_Extend env) True record (w_block_offset w))"
    using AddRecord [OF assms(2), of "record"] assms(6) by auto
  then show ?thesis
    using assms unfolding manifest_holds_def
    by (intro exI [of _ w'] exI [of _ "recs @ [record]"]) (simp add: log_records_append Let_def list_all2_appendI)
qed

lemma open_manifest_holds:
  assumes "open_manifest env name vs e = Some (s, new_manifest, vs', e')" "Status_ok s"
  shows "if vs_descriptor_log vs = None then holds [snapshot_edit name vs] vs' \<and> (\<exists>d. vs' = vs\<lparr>vs_descriptor_log := d\<rparr>) else vs' = vs"
proof (cases "vs_descriptor_log vs")
  case None
  obtain s1 f e1 where f: "env_NewWritableFile env (DescriptorFileName (vs_dbname vs) (vs_manifest_file_number vs)) e = (s1, f, e1)"
    by (metis prod_cases3)
  then have "Status_ok s1"
    using assms None by (auto simp add: open_manifest_def split: if_splits)
  then have good: "good f" "contents f = []"
    using new_file_law [OF f] by blast+
  obtain rec w where r: "VersionEdit_EncodeTo (snapshot_edit name vs) [] = Some rec"
      "AddRecord (env_Append env) (env_Flush env) (env_Extend env) rec (Writer_make (env_Extend env) f) = (s, w)"
      "vs' = vs\<lparr>vs_descriptor_log := Some w\<rparr>"
    using assms(1) None f \<open>Status_ok s1\<close> by (auto simp add: open_manifest_def WriteSnapshot_def)
  have "holds ([] @ [snapshot_edit name vs]) (vs\<lparr>vs_descriptor_log := Some w\<rparr>)"
    by (rule AddRecord_holds [where recs = "[]", OF _ writer_good_make(1) [OF good(1)] _ _ r(1,2)]) (simp_all add: Writer_make_def good)
  then show ?thesis
    using None r(3) by auto
next
  case (Some w)
  then show ?thesis
    using assms(1) by (auto simp add: open_manifest_def)
qed

lemma log_edit_holds:
  assumes "log_edit md env edit v new_manifest s vs e = Some (s', vs', e')" "Status_ok s'" "holds es vs"
  shows "Status_ok s \<and> holds (es @ [edit]) vs' \<and> (\<exists>d. vs' = vs\<lparr>vs_descriptor_log := d\<rparr>)"
proof -
  have s: "Status_ok s"
    using assms(1,2) by (auto simp add: log_edit_def Let_def split: if_splits prod.splits)
  obtain s1 vs1 where 1: "write_manifest env edit vs = Some (s1, vs1)" "Status_ok s1"
    using assms(1,2) s by (auto simp add: log_edit_def Let_def bind_eq_Some_conv split: if_splits prod.splits)
  obtain s2 where 2: "sync_manifest env vs1 = Some (s2, vs')"
    using assms(1,2) s 1 by (auto simp add: log_edit_def Let_def bind_eq_Some_conv split: if_splits prod.splits)
  obtain w recs where w: "vs_descriptor_log vs = Some w" "writer_good good (env_Extend env) w"
      "list_all2 (\<lambda>e r. VersionEdit_EncodeTo e [] = Some r) es recs"
      "contents (w_dest w) = fst (log_records (env_Extend env) recs 0)" "w_block_offset w = snd (log_records (env_Extend env) recs 0)"
    using assms(3) unfolding manifest_holds_def by blast
  obtain rec where rec: "VersionEdit_EncodeTo edit [] = Some rec"
    using 1(1) w(1) by (auto simp add: write_manifest_def)
  obtain s0 w1 where added: "AddRecord (env_Append env) (env_Flush env) (env_Extend env) rec w = (s0, w1)"
    by fastforce
  have r: "VersionEdit_EncodeTo edit [] = Some rec"
      "AddRecord (env_Append env) (env_Flush env) (env_Extend env) rec w = (s1, w1)" "vs1 = vs\<lparr>vs_descriptor_log := Some w1\<rparr>"
    using 1(1) w(1) rec added by (simp_all add: write_manifest_def)
  have holds1: "holds (es @ [edit]) vs1"
    unfolding r(3) by (rule AddRecord_holds [OF w(3,2,4,5) r(1,2)])
  then obtain recs1 where w1: "writer_good good (env_Extend env) w1" "list_all2 (\<lambda>e r. VersionEdit_EncodeTo e [] = Some r) (es @ [edit]) recs1"
      "contents (w_dest w1) = fst (log_records (env_Extend env) recs1 0)" "w_block_offset w1 = snd (log_records (env_Extend env) recs1 0)"
    unfolding manifest_holds_def r(3) by auto
  obtain f where f: "env_Sync env (w_dest w1) = (s2, f)" "vs' = vs\<lparr>vs_descriptor_log := Some (w1\<lparr>w_dest := f\<rparr>)\<rparr>"
    using 2 by (cases "env_Sync env (w_dest w1)") (simp add: sync_manifest_def r(3))
  have "good f" "contents f = contents (w_dest w1)"
    using sync_law [OF _ f(1)] w1(1) by (simp_all add: writer_good_def)
  then have "holds (es @ [edit]) vs'"
    using w1 unfolding manifest_holds_def f(2)
    by (intro exI [of _ "w1\<lparr>w_dest := f\<rparr>"] exI [of _ recs1]) (simp add: writer_good_def)
  then show ?thesis
    using s f(2) by blast
qed

end

section \<open>Logging an edit\<close>

lemma AppendVersion_simps [simp]:
  "current (AppendVersion v vs) = v" "vs_descriptor_log (AppendVersion v vs) = vs_descriptor_log vs"
  "vs_compact_pointer (AppendVersion v vs) = vs_compact_pointer vs" "vs_compact_vpointers (AppendVersion v vs) = vs_compact_vpointers vs"
  "vs_dbname (AppendVersion v vs) = vs_dbname vs"
  by (simp_all add: AppendVersion_def Let_def current_def Version_Unref_def)

lemma Finalize_simps [simp]:
  "ver_files (Finalize v) = ver_files v" "ver_vfiles (Finalize v) = ver_vfiles v" "ver_dep (Finalize v) = ver_dep v"
  by (simp_all add: Finalize_def split: prod.split)

lemma version_inv_cong:
  "ver_files v' = ver_files v \<Longrightarrow> ver_vfiles v' = ver_vfiles v \<Longrightarrow> ver_dep v' = ver_dep v \<Longrightarrow> version_inv md v' = version_inv md v"
  by (simp add: version_inv_def)

definition no_vfiles :: "nat \<Rightarrow> Version \<Rightarrow> bool" where
  "no_vfiles md v \<longleftrightarrow> (md \<noteq> 9 \<and> md \<noteq> 10 \<longrightarrow> (\<forall>level<vlevel_number md. ver_vfiles v ! level = []))"

lemma Builder_SaveTo_vfiles:
  assumes "Builder_SaveTo md ucmp b (Version_make (vlevel_number md)) = Some v"
  shows "no_vfiles md v"
  using assms by (auto simp add: no_vfiles_def Builder_SaveTo_def Version_make_def Let_def)

definition applied :: "nat \<Rightarrow> VersionEdit \<Rightarrow> Version \<Rightarrow> Version \<Rightarrow> bool" where
  "applied md edit v v' \<longleftrightarrow> version_inv md v' \<and> no_vfiles md v' \<and>
     (\<forall>level<kNumLevels. set (ver_files v' ! level) = edit_files level edit (set (ver_files v ! level))) \<and>
     (md = 9 \<or> md = 10 \<longrightarrow> (\<forall>level<vlevel_number md. set (ver_vfiles v' ! level) = edit_vfiles level edit (set (ver_vfiles v ! level))))"

lemma holds_cong: "vs_descriptor_log vs' = vs_descriptor_log vs \<Longrightarrow> manifest_holds ext good contents es vs' = manifest_holds ext good contents es vs"
  by (simp add: manifest_holds_def)

context manifest_env
begin

lemma LogAndApply_ok:
  assumes run: "LogAndApply md BytewiseComparator_Compare name env edit vs e = Some (s, vs', e')" "Status_ok s"
    and inv: "version_inv md (current vs)" "length (vs_compact_pointer vs) = kNumLevels" "length (vs_compact_vpointers vs) = vlevel_number md"
    and edit: "edit_applies md (complete_edit vs edit)"
      "\<forall>level<kNumLevels. fresh_files level (ve_new_files (complete_edit vs edit)) (fm_number ` set (ver_files (current vs) ! level))"
      "\<forall>level<vlevel_number md. fresh_files level (ve_new_vfiles (complete_edit vs edit)) (fm_number ` set (ver_vfiles (current vs) ! level))"
    and man: "vs_descriptor_log vs = None \<or> holds es vs"
  shows "\<exists>cp cvp. Apply_pointers (ve_compact_pointers (complete_edit vs edit)) (vs_compact_pointer vs) = Some cp \<and>
    Apply_vpointers (ve_compact_pointers (complete_edit vs edit)) (ve_compact_vpointers (complete_edit vs edit)) (vs_compact_vpointers vs) = Some cvp \<and>
    vs_compact_pointer vs' = cp \<and> vs_compact_vpointers vs' = cvp \<and> length cp = kNumLevels \<and> length cvp = vlevel_number md \<and>
    holds ((if vs_descriptor_log vs = None then [snapshot_edit name (vs\<lparr>vs_compact_pointer := cp, vs_compact_vpointers := cvp\<rparr>)] else es) @
      [complete_edit vs edit]) vs' \<and>
    applied md (complete_edit vs edit) (current vs) (current vs') \<and> vs_log_number vs' = ve_log_number (complete_edit vs edit)"
proof -
  define ce where "ce = complete_edit vs edit"
  obtain cp cvp b v where b: "Builder_Apply md BytewiseComparator_Compare ce (vs_compact_pointer vs) (vs_compact_vpointers vs) (Builder_make md (current vs)) =
        Some (cp, cvp, b)" "length cp = kNumLevels" "length cvp = vlevel_number md"
      "Builder_SaveTo md BytewiseComparator_Compare b (Version_make (vlevel_number md)) = Some v" "version_inv md v"
      "\<forall>level<kNumLevels. set (ver_files v ! level) = edit_files level ce (set (ver_files (current vs) ! level))"
      "md = 9 \<or> md = 10 \<longrightarrow> (\<forall>level<vlevel_number md. set (ver_vfiles v ! level) = edit_vfiles level ce (set (ver_vfiles (current vs) ! level)))"
    using builder_edits_ok [OF inv(1) _ inv(2,3), of "[ce]"] edit by (auto simp add: ce_def bind_eq_Some_conv)
  have cps: "Apply_pointers (ve_compact_pointers ce) (vs_compact_pointer vs) = Some cp"
      "Apply_vpointers (ve_compact_pointers ce) (ve_compact_vpointers ce) (vs_compact_vpointers vs) = Some cvp"
    using b(1) by (auto simp add: Builder_Apply_def bind_eq_Some_conv)
  define vs1 where "vs1 = vs\<lparr>vs_compact_pointer := cp, vs_compact_vpointers := cvp\<rparr>"
  obtain s2 new_manifest vs2 e2 where 2: "open_manifest env name vs1 e = Some (s2, new_manifest, vs2, e2)"
    using run(1) unfolding LogAndApply_def ce_def [symmetric] Let_def
    by (cases "open_manifest env name vs1 e") (auto simp add: b(1,4) vs1_def [symmetric])
  define v2 where "v2 = (if md = 10 then (Finalize v)\<lparr>ver_vblock_dep_graph := ver_vblock_dep_graph (current vs2)\<rparr> else Finalize v)"
  obtain s3 vs3 e3 where 3: "log_edit md env ce v2 new_manifest s2 vs2 e2 = Some (s3, vs3, e3)"
    using run(1) unfolding LogAndApply_def ce_def [symmetric] Let_def
    by (cases "log_edit md env ce v2 new_manifest s2 vs2 e2") (auto simp add: b(1,4) vs1_def [symmetric] 2 v2_def [symmetric])
  have step: "LogAndApply md BytewiseComparator_Compare name env edit vs e =
      (if Status_ok s3 then Some (s3, (AppendVersion v2 vs3)\<lparr>vs_log_number := ve_log_number ce, vs_prev_log_number := ve_prev_log_number ce\<rparr>, e3)
       else if new_manifest then
        Some (s3, vs3\<lparr>vs_descriptor_log := None\<rparr>, snd (env_DeleteFile env (DescriptorFileName (vs_dbname vs3) (vs_manifest_file_number vs3)) e3))
       else Some (s3, vs3, e3))"
    unfolding LogAndApply_def ce_def [symmetric] Let_def
    by (simp add: b(1,4) vs1_def [symmetric] 2 v2_def [symmetric] 3)
  then have ok: "Status_ok s3" "vs' = (AppendVersion v2 vs3)\<lparr>vs_log_number := ve_log_number ce, vs_prev_log_number := ve_prev_log_number ce\<rparr>"
    using run by (auto split: if_splits)
  have s2: "Status_ok s2"
    using 3 ok(1) by (auto simp add: log_edit_def Let_def split: if_splits prod.splits)
  define es1 where "es1 = (if vs_descriptor_log vs = None then [snapshot_edit name vs1] else es)"
  have holds2: "holds es1 vs2" "vs_compact_pointer vs2 = cp" "vs_compact_vpointers vs2 = cvp"
    using open_manifest_holds [OF 2 s2] man holds_cong [of vs1 vs "env_Extend env" good contents es]
    by (auto simp add: es1_def vs1_def split: if_splits)
  have holds3: "holds (es1 @ [ce]) vs3" "\<exists>d. vs3 = vs2\<lparr>vs_descriptor_log := d\<rparr>"
    using log_edit_holds [OF 3 ok(1) holds2(1)] by blast+
  have "holds (es1 @ [ce]) vs'"
    using holds3(1) holds_cong [of vs' vs3 "env_Extend env" good contents "es1 @ [ce]"] by (simp add: ok(2))
  moreover have "current vs' = v2"
    by (simp add: ok(2) current_def) (simp add: current_def [symmetric])
  moreover have "applied md ce (current vs) v2"
    using b(5-7) version_inv_cong [of v2 v md] Builder_SaveTo_vfiles [OF b(4)] by (auto simp add: applied_def v2_def no_vfiles_def)
  moreover have "vs_compact_pointer vs' = cp" "vs_compact_vpointers vs' = cvp"
    using holds2(2,3) holds3(2) by (auto simp add: ok(2))
  ultimately show ?thesis
    using cps b(2,3) unfolding ce_def [symmetric] es1_def vs1_def by (simp add: ok(2))
qed

end

section \<open>Runs of a version set\<close>

text \<open>Edits as the program makes them: no pointers for value files, and only snapshots name the comparator.\<close>

definition edit_step :: "nat \<Rightarrow> VersionEdit \<Rightarrow> bool" where
  "edit_step md e \<longleftrightarrow> edit_reach e \<and> \<not> ve_has_comparator e \<and> ve_compact_vpointers e = [] \<and> edit_applies md e"

definition fresh_run :: "nat \<Rightarrow> VersionEdit list \<Rightarrow> bool" where
  "fresh_run md es \<longleftrightarrow> (\<forall>level<kNumLevels. edits_fresh level ve_new_files {} es) \<and>
     (\<forall>level<vlevel_number md. edits_fresh level ve_new_vfiles {} es)"

definition same_files :: "nat \<Rightarrow> Version \<Rightarrow> Version \<Rightarrow> bool" where
  "same_files md v v' \<longleftrightarrow>
     (\<forall>level<kNumLevels. map stored_file (ver_files v' ! level) = map stored_file (ver_files v ! level)) \<and>
     (\<forall>level<vlevel_number md. map stored_file (ver_vfiles v' ! level) = map stored_file (ver_vfiles v ! level))"

text \<open>
  \<open>manifest_run md name env es vs\<close>: a version set that has opened a new manifest and then logged
  edits, all with success; \<open>es\<close> are the edits in the manifest, the first one a snapshot. In between the
  set may change in any way that leaves the manifest and what is stored of the current files.
\<close>

inductive manifest_run :: "nat \<Rightarrow> bytes \<Rightarrow> ('e, 'f) ManifestEnv \<Rightarrow> VersionEdit list \<Rightarrow> 'f VersionSet \<Rightarrow> bool" for md name env where
  opened: "vs_descriptor_log vs = None \<Longrightarrow> snapshot_ready md name vs \<Longrightarrow> edit_step md edit \<Longrightarrow>
    (\<forall>level<kNumLevels. fresh_files level (ve_new_files edit) (fm_number ` set (ver_files (current vs) ! level))) \<Longrightarrow>
    (\<forall>level<vlevel_number md. fresh_files level (ve_new_vfiles edit) (fm_number ` set (ver_vfiles (current vs) ! level))) \<Longrightarrow>
    LogAndApply md BytewiseComparator_Compare name env edit vs e = Some (s, vs', e') \<Longrightarrow> Status_ok s \<Longrightarrow>
    manifest_run md name env [snapshot_edit name (vs\<lparr>vs_compact_pointer := vs_compact_pointer vs'\<rparr>), complete_edit vs edit] vs'"
| logged: "manifest_run md name env es vs \<Longrightarrow> edit_step md edit \<Longrightarrow> fresh_run md (es @ [edit]) \<Longrightarrow>
    LogAndApply md BytewiseComparator_Compare name env edit vs e = Some (s, vs', e') \<Longrightarrow> Status_ok s \<Longrightarrow>
    manifest_run md name env (es @ [complete_edit vs edit]) vs'"
| other: "manifest_run md name env es vs \<Longrightarrow> vs_descriptor_log vs' = vs_descriptor_log vs \<Longrightarrow> vs_log_number vs' = vs_log_number vs \<Longrightarrow>
    version_inv md (current vs') \<Longrightarrow> same_files md (current vs) (current vs') \<Longrightarrow>
    length (vs_compact_pointer vs') = kNumLevels \<Longrightarrow> vs_compact_vpointers vs' = vs_compact_vpointers vs \<Longrightarrow>
    manifest_run md name env es vs'"

definition manifest_edits :: "nat \<Rightarrow> bytes \<Rightarrow> VersionEdit list \<Rightarrow> bool" where
  "manifest_edits md name es \<longleftrightarrow>
     (\<forall>e\<in>set es. edit_ok e \<and> edit_applies md e \<and> (ve_has_comparator e \<longrightarrow> ve_comparator e = name)) \<and> fresh_run md es \<and>
     es \<noteq> [] \<and> tl es \<noteq> [] \<and> recover_numbers (hd es) = id \<and> (\<forall>e\<in>set (tl es). edit_numbers e)"

definition version_of :: "nat \<Rightarrow> VersionEdit list \<Rightarrow> Version \<Rightarrow> bool" where
  "version_of md es v \<longleftrightarrow> version_inv md v \<and>
     (\<forall>level<kNumLevels. stored_file ` set (ver_files v ! level) = stored_file ` fold (edit_files level) es {}) \<and>
     (md = 9 \<or> md = 10 \<longrightarrow> (\<forall>level<vlevel_number md. stored_file ` set (ver_vfiles v ! level) = stored_file ` fold (edit_vfiles level) es {}))"

lemma complete_edit_simps [simp]:
  "ve_new_files (complete_edit vs e) = ve_new_files e" "ve_new_vfiles (complete_edit vs e) = ve_new_vfiles e"
  "ve_compact_pointers (complete_edit vs e) = ve_compact_pointers e" "ve_compact_vpointers (complete_edit vs e) = ve_compact_vpointers e"
  "ve_deleted_files (complete_edit vs e) = ve_deleted_files e" "ve_deleted_vfiles (complete_edit vs e) = ve_deleted_vfiles e"
  "ve_has_comparator (complete_edit vs e) = ve_has_comparator e" "edit_applies md (complete_edit vs e) = edit_applies md e"
  "edit_numbers (complete_edit vs e)"
  by (simp_all add: complete_edit_def Let_def SetLogNumber_def SetPrevLogNumber_def SetNextFile_def SetLastSequence_def edit_applies_def edit_numbers_def)

lemma complete_edit_reach: "edit_reach e \<Longrightarrow> edit_reach (complete_edit vs e)"
  by (simp add: complete_edit_def Let_def edit_reach.intros)

lemma stored_edit_files:
  assumes "stored_file ` S = stored_file ` S'"
  shows "stored_file ` apply_files prepare level ds nfs S = stored_file ` apply_files prepare level ds nfs S'"
proof -
  have "stored_file ` {f \<in> S. (level, fm_number f) \<notin> set ds} = {c \<in> stored_file ` S. (level, fst c) \<notin> set ds}" for S
    by (auto simp add: stored_file_def)
  then show ?thesis
    using assms by (simp add: apply_files_def image_Un)
qed

lemma stored_edit:
  assumes "stored_file ` S = stored_file ` S'"
  shows "stored_file ` edit_files level e S = stored_file ` edit_files level e S'" "stored_file ` edit_vfiles level e S = stored_file ` edit_vfiles level e S'"
  unfolding edit_files_def edit_vfiles_def by (rule stored_edit_files [OF assms])+

lemma version_of_applied:
  assumes "version_of md es v" "applied md e v v'"
  shows "version_of md (es @ [e]) v'"
proof -
  have "stored_file ` set (ver_files v' ! level) = stored_file ` fold (edit_files level) (es @ [e]) {}" if "level < kNumLevels" for level
    using assms that stored_edit(1) [of "set (ver_files v ! level)" "fold (edit_files level) es {}" level e]
    by (simp add: version_of_def applied_def)
  moreover have "stored_file ` set (ver_vfiles v' ! level) = stored_file ` fold (edit_vfiles level) (es @ [e]) {}"
    if "level < vlevel_number md" "md = 9 \<or> md = 10" for level
    using assms that stored_edit(2) [of "set (ver_vfiles v ! level)" "fold (edit_vfiles level) es {}" level e]
    by (simp add: version_of_def applied_def)
  ultimately show ?thesis
    using assms(2) by (simp add: version_of_def applied_def)
qed

lemma stored_number: "stored_file ` S = stored_file ` S' \<Longrightarrow> fm_number ` S = fm_number ` S'"
proof -
  have "fm_number ` S = fst ` stored_file ` S" for S
    by (simp add: image_image stored_file_def)
  then show "stored_file ` S = stored_file ` S' \<Longrightarrow> fm_number ` S = fm_number ` S'"
    by simp
qed

lemma edits_fresh_append:
  "edits_fresh level files_of N (es @ [e]) \<longleftrightarrow> edits_fresh level files_of N es \<and>
     fresh_files level (files_of e) (N \<union> (\<Union>e\<in>set es. fm_number ` set (new_at level (files_of e))))"
  by (induction es arbitrary: N) (auto simp add: Un_assoc)

lemma fold_numbers:
  assumes "\<And>f. fm_number (prepare f) = fm_number f"
  shows "fm_number ` fold (\<lambda>e. apply_files prepare level (del e) (new e)) es S \<subseteq>
    fm_number ` S \<union> (\<Union>e\<in>set es. fm_number ` set (new_at level (new e)))"
proof (induction es arbitrary: S)
  case (Cons e es)
  have step: "fm_number ` apply_files prepare level (del e) (new e) S \<subseteq> fm_number ` S \<union> fm_number ` set (new_at level (new e))"
    by (auto simp add: apply_files_def assms)
  show ?case
    using order_trans [OF Cons.IH [of "apply_files prepare level (del e) (new e) S"] Un_mono [OF step order_refl]] by (simp add: Un_assoc)
qed simp

lemma edit_files_numbers:
  "fm_number ` fold (edit_files level) es {} \<subseteq> (\<Union>e\<in>set es. fm_number ` set (new_at level (ve_new_files e)))"
  "fm_number ` fold (edit_vfiles level) es {} \<subseteq> (\<Union>e\<in>set es. fm_number ` set (new_at level (ve_new_vfiles e)))"
  using fold_numbers [of Apply_new_file level ve_deleted_files ve_new_files es "{}"]
    fold_numbers [of Apply_new_vfile level ve_deleted_vfiles ve_new_vfiles es "{}"]
  unfolding edit_files_def [abs_def] edit_vfiles_def [abs_def] by simp_all

lemma fresh_files_mono: "fresh_files level nfs N \<Longrightarrow> N' \<subseteq> N \<Longrightarrow> fresh_files level nfs N'"
  by (auto simp add: fresh_files_def)

lemma Apply_pointers_bounds:
  assumes "Apply_pointers ps cp = Some cp'" "\<forall>p\<in>set ps. length (snd p) < n" "\<forall>p\<in>set cp. length p < n"
  shows "\<forall>p\<in>set cp'. length p < n"
  using assms
proof (induction ps arbitrary: cp)
  case (Cons p ps)
  obtain cp1 where cp1: "update_level (fst p) (\<lambda>_. snd p) cp = Some cp1" "Apply_pointers ps cp1 = Some cp'"
    using Cons.prems(1) by (auto simp add: bind_eq_Some_conv)
  have "set cp1 \<subseteq> insert (snd p) (set cp)"
    using cp1(1) set_update_subset_insert [of cp "fst p" "snd p"] by (auto simp add: update_level_def split: if_splits)
  then have "\<forall>p\<in>set cp1. length p < n"
    using Cons.prems(2,3) by auto
  then show ?case
    using Cons.IH [OF cp1(2)] Cons.prems(2) by simp
qed simp

lemma snapshot_version_of:
  assumes "snapshot_ready md name vs" "current vs' = current vs"
  shows "version_of md [snapshot_edit name vs'] (current vs)"
    and "level < kNumLevels \<Longrightarrow> new_at level (ve_new_files (snapshot_edit name vs')) = map stored_meta (ver_files (current vs) ! level)"
    and "level < vlevel_number md \<Longrightarrow> new_at level (ve_new_vfiles (snapshot_edit name vs')) = map stored_meta (ver_vfiles (current vs) ! level)"
    and "fresh_run md [snapshot_edit name vs']"
proof -
  have v: "length (ver_files (current vs)) = kNumLevels" "length (ver_vfiles (current vs)) = vlevel_number md" "version_inv md (current vs)"
      "storable (current vs)"
    using assms(1) by (simp_all add: snapshot_ready_def version_inv_def)
  show files: "new_at level (ve_new_files (snapshot_edit name vs')) = map stored_meta (ver_files (current vs) ! level)" if "level < kNumLevels" for level
    using that v(1) by (simp add: snapshot_edit_entries new_at_level_entries assms(2))
  show vfiles: "new_at level (ve_new_vfiles (snapshot_edit name vs')) = map stored_meta (ver_vfiles (current vs) ! level)"
    if "level < vlevel_number md" for level
    using that v(2) by (simp add: snapshot_edit_entries new_at_level_entries assms(2))
  have "stored_file (Apply_new_file (stored_meta f)) = stored_file f" "stored_file (Apply_new_vfile (stored_meta f)) = stored_file f" for f
    by (simp_all add: stored_file_def)
  then show "version_of md [snapshot_edit name vs'] (current vs)"
    using v(3) by (simp add: version_of_def edit_files_def edit_vfiles_def apply_files_def files vfiles image_image)
  have "distinct (map fm_number (ver_files (current vs) ! level))" if "level < kNumLevels" for level
    using v(1,4) that by (simp add: storable_def)
  moreover have "distinct (map fm_number (ver_vfiles (current vs) ! level))" if "level < vlevel_number md" for level
    using v(2,4) that by (simp add: storable_def)
  ultimately show "fresh_run md [snapshot_edit name vs']"
    by (simp add: fresh_run_def fresh_files_def files vfiles comp_def)
qed

definition run_inv ::
  "nat \<Rightarrow> bytes \<Rightarrow> (u32 \<Rightarrow> bytes \<Rightarrow> u32) \<Rightarrow> ('f \<Rightarrow> bool) \<Rightarrow> ('f \<Rightarrow> bytes) \<Rightarrow> VersionEdit list \<Rightarrow> 'f VersionSet \<Rightarrow> bool" where
  "run_inv md name ext good contents es vs \<longleftrightarrow>
     manifest_holds ext good contents es vs \<and> manifest_edits md name es \<and> version_of md es (current vs) \<and> no_vfiles md (current vs) \<and>
     length (vs_compact_pointer vs) = kNumLevels \<and> vs_compact_vpointers vs = replicate (vlevel_number md) [] \<and>
     vs_log_number vs = ve_log_number (last es)"

lemma run_fresh:
  assumes "run_inv md name ext good contents es vs" "fresh_run md (es @ [edit])"
  shows "\<forall>level<kNumLevels. fresh_files level (ve_new_files edit) (fm_number ` set (ver_files (current vs) ! level))"
    "\<forall>level<vlevel_number md. fresh_files level (ve_new_vfiles edit) (fm_number ` set (ver_vfiles (current vs) ! level))"
proof -
  have vs: "version_of md es (current vs)" "no_vfiles md (current vs)"
    using assms(1) by (simp_all add: run_inv_def)
  have fresh: "fresh_files level (ve_new_files edit) (fm_number ` set (ver_files (current vs) ! level))" if "level < kNumLevels" for level
  proof (rule fresh_files_mono)
    show "fresh_files level (ve_new_files edit) (\<Union>e\<in>set es. fm_number ` set (new_at level (ve_new_files e)))"
      using assms(2) that by (simp add: fresh_run_def edits_fresh_append)
    show "fm_number ` set (ver_files (current vs) ! level) \<subseteq> (\<Union>e\<in>set es. fm_number ` set (new_at level (ve_new_files e)))"
      using edit_files_numbers(1) [of level es] vs(1) that stored_number [of "set (ver_files (current vs) ! level)" "fold (edit_files level) es {}"]
      by (simp add: version_of_def)
  qed
  have vfresh: "fresh_files level (ve_new_vfiles edit) (fm_number ` set (ver_vfiles (current vs) ! level))" if "level < vlevel_number md" for level
  proof (rule fresh_files_mono)
    show "fresh_files level (ve_new_vfiles edit) (\<Union>e\<in>set es. fm_number ` set (new_at level (ve_new_vfiles e)))"
      using assms(2) that by (simp add: fresh_run_def edits_fresh_append)
    show "fm_number ` set (ver_vfiles (current vs) ! level) \<subseteq> (\<Union>e\<in>set es. fm_number ` set (new_at level (ve_new_vfiles e)))"
      using edit_files_numbers(2) [of level es] vs that
        stored_number [of "set (ver_vfiles (current vs) ! level)" "fold (edit_vfiles level) es {}"]
      by (cases "md = 9 \<or> md = 10") (simp_all add: version_of_def no_vfiles_def)
  qed
  show "\<forall>level<kNumLevels. fresh_files level (ve_new_files edit) (fm_number ` set (ver_files (current vs) ! level))"
    "\<forall>level<vlevel_number md. fresh_files level (ve_new_vfiles edit) (fm_number ` set (ver_vfiles (current vs) ! level))"
    using fresh vfresh by blast+
qed

context manifest_env
begin

lemma run_inv_opened:
  assumes "vs_descriptor_log vs = None" "snapshot_ready md name vs" "edit_step md edit"
    and fresh: "\<forall>level<kNumLevels. fresh_files level (ve_new_files edit) (fm_number ` set (ver_files (current vs) ! level))"
      "\<forall>level<vlevel_number md. fresh_files level (ve_new_vfiles edit) (fm_number ` set (ver_vfiles (current vs) ! level))"
    and run: "LogAndApply md BytewiseComparator_Compare name env edit vs e = Some (s, vs', e')" "Status_ok s"
  shows "run_inv md name (env_Extend env) good contents
    [snapshot_edit name (vs\<lparr>vs_compact_pointer := vs_compact_pointer vs'\<rparr>), complete_edit vs edit] vs'"
proof -
  let ?ce = "complete_edit vs edit" and ?snap = "snapshot_edit name (vs\<lparr>vs_compact_pointer := vs_compact_pointer vs'\<rparr>)"
  have ready: "version_inv md (current vs)" "length (vs_compact_pointer vs) = kNumLevels" "vs_compact_vpointers vs = replicate (vlevel_number md) []"
      "\<forall>p\<in>set (vs_compact_pointer vs). length p < 2 ^ 32" "length name < 2 ^ 32" "storable (current vs)"
    using assms(2) by (simp_all add: snapshot_ready_def)
  have edit: "edit_applies md edit" "ve_compact_vpointers edit = []" "\<not> ve_has_comparator edit" "edit_ok edit" "edit_ok ?ce"
    using assms(3) edit_reach_ok complete_edit_reach unfolding edit_step_def by blast+
  obtain cp cvp where cp: "Apply_pointers (ve_compact_pointers edit) (vs_compact_pointer vs) = Some cp"
      "Apply_vpointers (ve_compact_pointers edit) [] (vs_compact_vpointers vs) = Some cvp"
      "vs_compact_pointer vs' = cp" "vs_compact_vpointers vs' = cvp" "length cp = kNumLevels"
      "holds [snapshot_edit name (vs\<lparr>vs_compact_pointer := cp, vs_compact_vpointers := cvp\<rparr>), ?ce] vs'"
      "applied md ?ce (current vs) (current vs')" "vs_log_number vs' = ve_log_number ?ce"
    using LogAndApply_ok [OF run ready(1,2), of "[]"] ready(3) edit fresh assms(1) by auto
  have cvp: "cvp = vs_compact_vpointers vs"
    using cp(2) by (cases "ve_compact_pointers edit") simp_all
  have snap: "snapshot_edit name (vs\<lparr>vs_compact_pointer := cp, vs_compact_vpointers := cvp\<rparr>) = ?snap"
    by (simp add: cp(3) cvp)
  have cur: "current (vs\<lparr>vs_compact_pointer := vs_compact_pointer vs'\<rparr>) = current vs"
    by (simp add: current_def)
  have bounds: "\<forall>p\<in>set cp. length p < 2 ^ 32"
    by (rule Apply_pointers_bounds [OF cp(1) _ ready(4)]) (use edit(4) in \<open>simp add: edit_ok_def pointers_ok_def\<close>)
  have "snapshot_ready md name (vs\<lparr>vs_compact_pointer := vs_compact_pointer vs'\<rparr>)"
    using ready cp(3,5) bounds cur by (simp add: snapshot_ready_def)
  note snap_ok = snapshot_edit_ok [OF this]
  note version = snapshot_version_of [OF assms(2) cur]
  have name: "ve_comparator ?snap = name" "recover_numbers ?snap = id"
    by (simp_all add: snapshot_edit_entries recover_numbers_def VersionEdit_make_def VersionEdit_Clear_def fun_eq_iff)
  have "fresh_run md [?snap, ?ce]"
    using version(4) fresh by (simp add: fresh_run_def version(2,3) image_image)
  then have "manifest_edits md name [?snap, ?ce]"
    using snap_ok edit name by (simp add: manifest_edits_def)
  moreover have "version_of md [?snap, ?ce] (current vs')"
    using version_of_applied [OF version(1) cp(7)] by simp
  ultimately show ?thesis
    using cp(3-8) unfolding run_inv_def snap by (simp add: cvp ready(3) applied_def)
qed

lemma run_inv_logged:
  assumes inv: "run_inv md name (env_Extend env) good contents es vs" and "edit_step md edit" "fresh_run md (es @ [edit])"
    and run: "LogAndApply md BytewiseComparator_Compare name env edit vs e = Some (s, vs', e')" "Status_ok s"
  shows "run_inv md name (env_Extend env) good contents (es @ [complete_edit vs edit]) vs'"
proof -
  let ?ce = "complete_edit vs edit"
  have vs: "holds es vs" "manifest_edits md name es" "version_of md es (current vs)" "no_vfiles md (current vs)" "length (vs_compact_pointer vs) = kNumLevels"
      "vs_compact_vpointers vs = replicate (vlevel_number md) []"
    using inv by (simp_all add: run_inv_def)
  have edit: "edit_applies md edit" "ve_compact_vpointers edit = []" "\<not> ve_has_comparator edit" "edit_ok ?ce"
    using assms(2) edit_reach_ok complete_edit_reach unfolding edit_step_def by blast+
  note fresh = run_fresh [OF inv assms(3)]
  have log: "vs_descriptor_log vs \<noteq> None"
    using vs(1) by (auto simp add: manifest_holds_def)
  obtain cp cvp where cp: "Apply_vpointers (ve_compact_pointers edit) [] (vs_compact_vpointers vs) = Some cvp"
      "vs_compact_pointer vs' = cp" "vs_compact_vpointers vs' = cvp" "length cp = kNumLevels" "holds (es @ [?ce]) vs'"
      "applied md ?ce (current vs) (current vs')" "vs_log_number vs' = ve_log_number ?ce"
    using LogAndApply_ok [OF run _ vs(5), of es] vs(1,3,6) edit fresh log by (auto simp add: version_of_def)
  have cvp: "cvp = vs_compact_vpointers vs"
    using cp(1) by (cases "ve_compact_pointers edit") simp_all
  have "fresh_run md (es @ [?ce])"
    using assms(3) by (simp add: fresh_run_def edits_fresh_append)
  then have "manifest_edits md name (es @ [?ce])"
    using vs(2) edit by (cases es) (auto simp add: manifest_edits_def)
  then show ?thesis
    using cp(2-7) version_of_applied [OF vs(3) cp(6)] by (simp add: run_inv_def cvp vs(6) applied_def)
qed

lemma run_inv_other:
  assumes "run_inv md name (env_Extend env) good contents es vs" "vs_descriptor_log vs' = vs_descriptor_log vs" "vs_log_number vs' = vs_log_number vs"
    "version_inv md (current vs')" "same_files md (current vs) (current vs')" "length (vs_compact_pointer vs') = kNumLevels"
    "vs_compact_vpointers vs' = vs_compact_vpointers vs"
  shows "run_inv md name (env_Extend env) good contents es vs'"
proof -
  have "stored_file ` set (ver_files (current vs') ! level) = stored_file ` set (ver_files (current vs) ! level)" if "level < kNumLevels" for level
    using assms(5) that unfolding same_files_def by (metis list.set_map)
  moreover have "stored_file ` set (ver_vfiles (current vs') ! level) = stored_file ` set (ver_vfiles (current vs) ! level)"
    if "level < vlevel_number md" for level
    using assms(5) that unfolding same_files_def by (metis list.set_map)
  moreover from assms(5) have "no_vfiles md (current vs) \<Longrightarrow> no_vfiles md (current vs')"
    by (auto simp add: no_vfiles_def same_files_def)
  ultimately show ?thesis
    using assms holds_cong [OF assms(2)] by (simp add: run_inv_def version_of_def)
qed

lemma manifest_run_inv: "manifest_run md name env es vs \<Longrightarrow> run_inv md name (env_Extend env) good contents es vs"
proof (induction rule: manifest_run.induct)
  case (opened vs edit e s vs' e')
  then show ?case by (intro run_inv_opened)
next
  case (logged es vs edit e s vs' e')
  then show ?case by (intro run_inv_logged)
next
  case (other es vs vs')
  then show ?case by (intro run_inv_other [of md name es vs vs'])
qed

end

section \<open>Manifests in memory\<close>

text \<open>The manifest is a file in memory; the rest of the file system is left open.\<close>

definition mem_manifest_env ::
  "(u32 \<Rightarrow> bytes \<Rightarrow> nat) \<Rightarrow> (string \<Rightarrow> 'e \<Rightarrow> status \<times> 'e) \<Rightarrow> (string \<Rightarrow> string \<Rightarrow> 'e \<Rightarrow> status \<times> 'e) \<Rightarrow>
    (string \<Rightarrow> string \<Rightarrow> 'e \<Rightarrow> status \<times> 'e) \<Rightarrow> (string \<Rightarrow> 'e \<Rightarrow> status \<times> 'e) \<Rightarrow> (string \<Rightarrow> DependencyGraph \<Rightarrow> 'e \<Rightarrow> bool \<times> 'e) \<Rightarrow>
    ('e, FileState) ManifestEnv" where
  "mem_manifest_env addr create put mv rm save =
     \<lparr>env_NewWritableFile = (\<lambda>n e. let (s, e) = create n e in (s, FileState_make, e)), env_Append = WritableFileImpl_Append,
      env_Flush = WritableFileImpl_Flush, env_Sync = WritableFileImpl_Sync, env_WriteStringToFileSync = put, env_RenameFile = mv,
      env_DeleteFile = rm, env_SaveGraph = save, env_Extend = portable_crc addr\<rparr>"

interpretation mem_manifest: manifest_env "mem_manifest_env addr create put mv rm save" fs_contents fs_inv
  for addr create put mv rm save
proof -
  have "log_writer WritableFileImpl_Append WritableFileImpl_Flush fs_contents fs_inv (portable_crc addr)"
    by (rule mem_writer.log_writer_axioms)
  then show "manifest_env (mem_manifest_env addr create put mv rm save) fs_contents fs_inv"
    by (auto simp add: manifest_env_def manifest_env_axioms_def mem_manifest_env_def WritableFileImpl_Sync_def split: prod.splits)
qed

lemma take_edits:
  assumes "manifest_edits md name es"
  shows "\<forall>e\<in>set (take m es). edit_ok e \<and> edit_applies md e \<and> (ve_has_comparator e \<longrightarrow> ve_comparator e = name)"
    "\<forall>level<kNumLevels. edits_fresh level ve_new_files {} (take m es)" "\<forall>level<vlevel_number md. edits_fresh level ve_new_vfiles {} (take m es)"
proof -
  have "edits_fresh level files_of N es \<Longrightarrow> edits_fresh level files_of N (take m es)" for level files_of N and es :: "VersionEdit list"
    by (induction es arbitrary: N m) (simp_all add: take_Cons split: nat.split)
  then show "\<forall>level<kNumLevels. edits_fresh level ve_new_files {} (take m es)" "\<forall>level<vlevel_number md. edits_fresh level ve_new_vfiles {} (take m es)"
    using assms by (simp_all add: manifest_edits_def fresh_run_def)
  show "\<forall>e\<in>set (take m es). edit_ok e \<and> edit_applies md e \<and> (ve_has_comparator e \<longrightarrow> ve_comparator e = name)"
    using assms set_take_subset [of m es] by (auto simp add: manifest_edits_def)
qed

lemma recovered_numbers:
  assumes "manifest_edits md name es" "m \<le> length es"
  shows "fold recover_numbers (take m es) recovered_start =
    (if m \<le> 1 then recovered_start
     else \<lparr>rc_have_log_number = True, rc_have_prev_log_number = True, rc_have_next_file = True, rc_have_last_sequence = True,
       rc_next_file = ve_next_file_number (es ! (m - 1)), rc_last_sequence = ve_last_sequence (es ! (m - 1)),
       rc_log_number = ve_log_number (es ! (m - 1)), rc_prev_log_number = ve_prev_log_number (es ! (m - 1))\<rparr>)"
proof (cases "m \<le> 1")
  case True
  then show ?thesis
    using assms by (cases es; cases m) (auto simp add: manifest_edits_def)
next
  case False
  then have "es ! (m - 1) \<in> set (tl es)"
    using assms(2) by (cases es) (auto simp add: nth_Cons')
  then have "edit_numbers (es ! (m - 1))"
    using assms(1) by (simp add: manifest_edits_def)
  moreover have "take m es = take (m - 1) es @ [es ! (m - 1)]"
    using False assms(2) take_Suc_conv_app_nth [of "m - 1" es] by simp
  ultimately show ?thesis
    using False by (simp add: recover_numbers_last)
qed

lemma recovered_version:
  assumes "manifest_edits md name es" "list_all2 (\<lambda>e r. VersionEdit_EncodeTo e [] = Some r) es recs"
  shows "\<exists>cp cvp b v. recover_all md BytewiseComparator_Compare name (take m recs)
      (replicate kNumLevels [], replicate (vlevel_number md) [], Builder_make md (Version_make (vlevel_number md)), rc) =
        Some (cp, cvp, b, fold recover_numbers (take m es) rc) \<and>
    Builder_SaveTo md BytewiseComparator_Compare b (Version_make (vlevel_number md)) = Some v \<and> version_of md (take m es) v"
proof -
  let ?base = "Version_make (vlevel_number md)"
  note es = take_edits [OF assms(1), of m]
  have all2: "list_all2 (\<lambda>e r. VersionEdit_EncodeTo e [] = Some r) (take m es) (take m recs)"
    using assms(2) by (rule list_all2_takeI)
  obtain es' where es': "same_edits (take m es) es'" "\<And>cp cvp b rc. recover_all md BytewiseComparator_Compare name (take m recs) (cp, cvp, b, rc) =
      map_option (\<lambda>(cp, cvp, b). (cp, cvp, b, fold recover_numbers (take m es) rc)) (Apply_all md BytewiseComparator_Compare es' cp cvp b)"
    using recover_all_edits [OF all2, of name md BytewiseComparator_Compare] es(1) by blast
  note same = same_edits_fold [OF es'(1)]
  have base: "version_inv md ?base" "level < kNumLevels \<Longrightarrow> ver_files ?base ! level = []" "level < vlevel_number md \<Longrightarrow> ver_vfiles ?base ! level = []" for level
    by (simp_all add: version_inv_def Version_make_def dep_reach.empty)
  obtain cp cvp b v where v: "Apply_all md BytewiseComparator_Compare es' (replicate kNumLevels []) (replicate (vlevel_number md) []) (Builder_make md ?base) =
        Some (cp, cvp, b)" "Builder_SaveTo md BytewiseComparator_Compare b ?base = Some v" "version_inv md v"
      "\<forall>level<kNumLevels. set (ver_files v ! level) = fold (edit_files level) es' (set (ver_files ?base ! level))"
      "md = 9 \<or> md = 10 \<longrightarrow> (\<forall>level<vlevel_number md. set (ver_vfiles v ! level) = fold (edit_vfiles level) es' (set (ver_vfiles ?base ! level)))"
    using builder_edits_ok [OF base(1), of es' "replicate kNumLevels []" "replicate (vlevel_number md) []"] es same(3-5) base(2,3) by auto
  have "version_of md (take m es) v"
    using v(3-5) base(2,3) by (simp add: version_of_def same(1,2))
  then show ?thesis
    using v(1,2) es'(2) by auto
qed

text \<open>An environment in which the file CURRENT names the manifest with number \<open>n\<close>, whose first bytes are \<open>m\<close>.\<close>

definition recover_env :: "(u32 \<Rightarrow> bytes \<Rightarrow> nat) \<Rightarrow> string \<Rightarrow> u64 \<Rightarrow> bytes \<Rightarrow> ('e, 'f, FileState \<times> nat) RecoverEnv \<Rightarrow> bool" where
  "recover_env addr dbname n m renv \<longleftrightarrow>
     rec_Read renv = SequentialFileImpl_Read \<and> rec_Skip renv = SequentialFileImpl_Skip \<and> rec_Extend renv = portable_crc addr \<and>
     (\<exists>f. rec_NewSequentialFile renv (CurrentFileName dbname) = (Status_OK, (f, 0)) \<and> fs_inv f \<and>
        fs_contents f = map of_char (drop (length dbname + 1) (DescriptorFileName dbname n) @ [CHR 0x0A])) \<and>
     (\<exists>f. rec_NewSequentialFile renv (DescriptorFileName dbname n) = (Status_OK, (f, 0)) \<and> fs_inv f \<and> fs_contents f = m)"

lemma byte_char [simp]: "char_of (unat (of_char c :: byte)) = c"
proof -
  have "(of_char c :: byte) = word_of_nat (of_char c)"
    by (simp only: of_nat_of_char)
  then have "unat (of_char c :: byte) = of_char c mod 256"
    by (simp add: unat_of_nat)
  then show ?thesis
    by simp
qed
lemma VersionSet_make_simps [simp]:
  "current (VersionSet_make md dbname buf) = Version_make (vlevel_number md)" "vs_dbname (VersionSet_make md dbname buf) = dbname"
  "vs_compact_pointer (VersionSet_make md dbname buf) = replicate kNumLevels []"
  "vs_compact_vpointers (VersionSet_make md dbname buf) = replicate (vlevel_number md) []"
  by (simp_all add: VersionSet_make_def)

lemma install_recovered_ok:
  assumes "install_recovered md renv reuse_logs max_file_size dscname name rc v vs save = (save', vs')"
  shows "ver_files (current vs') = ver_files v" "ver_vfiles (current vs') = ver_vfiles v" "vs_log_number vs' = rc_log_number rc"
    "vs_last_sequence vs' = rc_last_sequence rc" "vs_next_file_number vs' = rc_next_file rc + 1" "version_inv md (current vs') = version_inv md v"
proof -
  define v1 where "v1 = (if md = 10 then let (ok, g) = rec_LoadGraph renv (DependencyGraphFileName (vs_dbname vs))
      in (Finalize v)\<lparr>ver_vblock_dep_graph := if ok then g else []\<rparr> else Finalize v)"
  define vs1 where "vs1 = (AppendVersion v1 vs)\<lparr>vs_manifest_file_number := rc_next_file rc, vs_next_file_number := rc_next_file rc + 1,
    vs_last_sequence := rc_last_sequence rc, vs_log_number := rc_log_number rc, vs_prev_log_number := rc_prev_log_number rc\<rparr>"
  have v1: "ver_files v1 = ver_files v" "ver_vfiles v1 = ver_vfiles v" "ver_dep v1 = ver_dep v"
    by (simp_all add: v1_def split: prod.split)
  have "\<exists>reuse. ReuseManifest renv reuse_logs max_file_size dscname name vs1 = (reuse, vs')"
    using assms unfolding install_recovered_def Let_def v1_def [symmetric, unfolded Let_def] vs1_def [symmetric] by (auto split: prod.splits)
  then have "vs_versions vs' = vs_versions vs1" "vs_log_number vs' = vs_log_number vs1" "vs_last_sequence vs' = vs_last_sequence vs1"
      "vs_next_file_number vs' = vs_next_file_number vs1"
    by (auto simp add: ReuseManifest_def Let_def split: if_splits option.splits prod.splits)
  moreover have "current vs1 = v1"
    unfolding vs1_def by (simp add: current_def) (simp add: current_def [symmetric])
  ultimately have cur: "current vs' = v1"
    by (simp add: current_def)
  then show "ver_files (current vs') = ver_files v" "ver_vfiles (current vs') = ver_vfiles v" "version_inv md (current vs') = version_inv md v"
    using v1 version_inv_cong [of v1 v md] by simp_all
  show "vs_log_number vs' = rc_log_number rc" "vs_last_sequence vs' = rc_last_sequence rc" "vs_next_file_number vs' = rc_next_file rc + 1"
    using \<open>vs_log_number vs' = vs_log_number vs1\<close> \<open>vs_last_sequence vs' = vs_last_sequence vs1\<close> \<open>vs_next_file_number vs' = vs_next_file_number vs1\<close>
    by (simp_all add: vs1_def)
qed

lemma Recover_manifest:
  fixes renv :: "('e, 'f, FileState \<times> nat) RecoverEnv"
  assumes env: "recover_env addr dbname n (take k (fst (log_records (portable_crc addr) recs 0))) renv"
    and es: "manifest_edits md name es" "list_all2 (\<lambda>e r. VersionEdit_EncodeTo e [] = Some r) es recs"
  shows "\<exists>m\<le>length es. length (fst (log_records (portable_crc addr) (take m recs) 0)) \<le> k \<and>
    (m < length es \<longrightarrow> k < length (fst (log_records (portable_crc addr) (take (Suc m) recs) 0))) \<and>
    (if m \<le> 1
     then \<exists>vs'. VersionSet_Recover md BytewiseComparator_Compare name renv reuse_logs max_file_size save (VersionSet_make md dbname buf) =
       Some (Corruption ''no meta-nextfile entry in descriptor'', save, vs')
     else \<exists>save' vs'. VersionSet_Recover md BytewiseComparator_Compare name renv reuse_logs max_file_size save (VersionSet_make md dbname buf) =
       Some (Status_OK, save', vs') \<and> version_of md (take m es) (current vs') \<and>
       vs_log_number vs' = ve_log_number (es ! (m - 1)) \<and> vs_last_sequence vs' = ve_last_sequence (es ! (m - 1)) \<and>
       vs_next_file_number vs' = ve_next_file_number (es ! (m - 1)) + 1)"
proof -
  let ?vs = "VersionSet_make md dbname buf :: 'f VersionSet" and ?ext = "portable_crc addr"
  let ?start = "(replicate kNumLevels [], replicate (vlevel_number md) [], Builder_make md (Version_make (vlevel_number md)), recovered_start)"
  obtain cur f where files: "rec_NewSequentialFile renv (CurrentFileName dbname) = (Status_OK, (cur, 0))" "fs_inv cur"
      "fs_contents cur = map of_char (drop (length dbname + 1) (DescriptorFileName dbname n) @ [CHR 0x0A])"
      "rec_NewSequentialFile renv (DescriptorFileName dbname n) = (Status_OK, (f, 0))" "fs_inv f"
      "fs_contents f = take k (fst (log_records ?ext recs 0))"
    using env unfolding recover_env_def by blast
  have ops: "rec_Read renv = SequentialFileImpl_Read" "rec_Skip renv = SequentialFileImpl_Skip" "rec_Extend renv = ?ext"
    using env by (simp_all add: recover_env_def)
  define base where "base = drop (length dbname + 1) (DescriptorFileName dbname n)"
  have base: "dbname @ ''/'' @ base = DescriptorFileName dbname n"
    by (simp add: base_def DescriptorFileName_def)
  have good: "seq_good (cur, 0)"
    using files(2) by (simp add: seq_good_def)
  have read: "ReadFileToString (rec_NewSequentialFile renv) SequentialFileImpl_Read (CurrentFileName dbname) =
      Some (Status_OK, map of_char (base @ [CHR 0x0A]))"
    using mem_sequential.ReadFileToString_loop [OF good, of "[]"] files(1,3)
    by (simp add: ReadFileToString_def ops seq_rest_def base_def)
  have chars: "map (\<lambda>b. char_of (unat b)) (map of_char (base @ [CHR 0x0A]) :: bytes) = base @ [CHR 0x0A]"
    by (simp only: map_map comp_def byte_char list.map_ident)
  have block: "fst (log_records ?ext xs log_kBlockSize) = fst (log_records ?ext xs 0)" for xs
    by (rule log_records_block)
  have at: "reader_at seq_rest seq_good (Reader_make (f, 0) (Some []) True 0) (take k (fst (log_records ?ext recs log_kBlockSize))) log_kBlockSize"
    using files(5,6) by (simp add: reader_at_def Reader_make_def seq_rest_def seq_good_def block)
  have len: "length recs = length es"
    using es(2) by (simp add: list_all2_lengthD)
  obtain m where m: "m \<le> length es" "length (fst (log_records ?ext (take m recs) 0)) \<le> k"
      "m < length es \<longrightarrow> k < length (fst (log_records ?ext (take (Suc m) recs) 0))"
      "\<And>st st'. recover_all md BytewiseComparator_Compare name (take m recs) st = Some st' \<Longrightarrow>
        Recover_loop md BytewiseComparator_Compare name SequentialFileImpl_Read SequentialFileImpl_Skip ?ext (Reader_make (f, 0) (Some []) True 0) st =
          Some (Status_OK, st')"
    using mem_reader.Recover_loop_records [OF at, of md BytewiseComparator_Compare name] unfolding block len by blast
  obtain cp cvp b v where v: "recover_all md BytewiseComparator_Compare name (take m recs) ?start =
        Some (cp, cvp, b, fold recover_numbers (take m es) recovered_start)"
      "Builder_SaveTo md BytewiseComparator_Compare b (Version_make (vlevel_number md)) = Some v" "version_of md (take m es) v"
    using recovered_version [OF es, of m recovered_start] by blast
  define rc where "rc = fold recover_numbers (take m es) recovered_start"
  have loop: "Recover_loop md BytewiseComparator_Compare name SequentialFileImpl_Read SequentialFileImpl_Skip ?ext (Reader_make (f, 0) (Some []) True 0) ?start =
      Some (Status_OK, cp, cvp, b, rc)"
    using m(4) [OF v(1)] by (simp add: rc_def)
  note numbers = recovered_numbers [OF es(1) m(1), folded rc_def]
  define vs1 where "vs1 = ?vs\<lparr>vs_compact_pointer := cp, vs_compact_vpointers := cvp\<rparr>"
  have dsc: "rec_NewSequentialFile renv (dbname @ CHR ''/'' # base) = (Status_OK, (f, 0))"
    using base files(4) by simp
  have chars_ne: "base @ [CHR 0x0A] \<noteq> []" "last (base @ [CHR 0x0A]) = CHR 0x0A" "butlast (base @ [CHR 0x0A]) = base"
    by simp_all
  have recover: "VersionSet_Recover md BytewiseComparator_Compare name renv reuse_logs max_file_size save ?vs =
      finish_recovery md BytewiseComparator_Compare renv reuse_logs max_file_size (dbname @ CHR ''/'' # base) base save Status_OK b rc vs1"
    unfolding VersionSet_Recover_def VersionSet_make_simps ops read bind.bind_lunit prod.case Let_def chars chars_ne
    by (simp add: dsc loop vs1_def)
  show ?thesis
  proof (cases "m \<le> 1")
    case True
    then have "rc = recovered_start"
      using numbers by simp
    then have "\<exists>vs'. VersionSet_Recover md BytewiseComparator_Compare name renv reuse_logs max_file_size save ?vs =
        Some (Corruption ''no meta-nextfile entry in descriptor'', save, vs')"
      unfolding recover by (simp add: finish_recovery_def recover_status_def recovered_start_def)
    then show ?thesis
      using m(1-3) True by auto
  next
    case False
    define vs2 where "vs2 = MarkFileNumberUsed (rc_log_number rc) (MarkFileNumberUsed (rc_prev_log_number rc) vs1)"
    obtain save' vs' where vs': "install_recovered md renv reuse_logs max_file_size (dbname @ CHR ''/'' # base) base rc v vs2 save = (save', vs')"
      by fastforce
    have rc: "rc_have_next_file rc" "rc_have_log_number rc" "rc_have_last_sequence rc" "rc_have_prev_log_number rc"
        "rc_log_number rc = ve_log_number (es ! (m - 1))" "rc_last_sequence rc = ve_last_sequence (es ! (m - 1))"
        "rc_next_file rc = ve_next_file_number (es ! (m - 1))"
      using numbers False by simp_all
    have "VersionSet_Recover md BytewiseComparator_Compare name renv reuse_logs max_file_size save ?vs = Some (Status_OK, save', vs')"
      unfolding recover by (simp add: finish_recovery_def recover_status_def rc(1-4) v(2) vs2_def [symmetric] vs')
    moreover have "version_of md (take m es) (current vs')"
      using v(3) install_recovered_ok [OF vs'] by (simp add: version_of_def)
    ultimately show ?thesis
      using m(1-3) False install_recovered_ok [OF vs'] rc(5-7) by auto
  qed
qed


section \<open>Success\<close>

text \<open>An environment whose operations succeed.\<close>

definition env_succeeds :: "('e, 'f) ManifestEnv \<Rightarrow> bool" where
  "env_succeeds env \<longleftrightarrow> (\<forall>n e. Status_ok (fst (env_NewWritableFile env n e))) \<and> (\<forall>f. Status_ok (fst (env_Sync env f))) \<and>
     (\<forall>c n e. Status_ok (fst (env_WriteStringToFileSync env c n e))) \<and> (\<forall>m n e. Status_ok (fst (env_RenameFile env m n e))) \<and>
     (\<forall>n g e. fst (env_SaveGraph env n g e))"

lemma SetCurrentFile_succeeds: "env_succeeds env \<Longrightarrow> Status_ok (fst (SetCurrentFile env dbname n e))"
  by (auto simp add: SetCurrentFile_def env_succeeds_def Let_def split: prod.splits) (metis fst_conv)+

lemma save_graph_succeeds: "env_succeeds env \<Longrightarrow> Status_ok (fst (save_graph md env vs v e))"
  by (auto simp add: save_graph_def env_succeeds_def split: prod.splits) (metis fst_conv)

context manifest_env
begin

lemma open_manifest_succeeds:
  assumes "env_succeeds env" "vs_descriptor_log vs = None \<Longrightarrow> edit_ok (snapshot_edit name vs)"
  shows "\<exists>s new_manifest vs' e'. open_manifest env name vs e = Some (s, new_manifest, vs', e') \<and> Status_ok s"
proof (cases "vs_descriptor_log vs")
  case None
  obtain s f e1 where f: "env_NewWritableFile env (DescriptorFileName (vs_dbname vs) (vs_manifest_file_number vs)) e = (s, f, e1)"
    by (metis prod_cases3)
  have ok: "Status_ok s"
    using assms(1) f unfolding env_succeeds_def by (metis fst_conv)
  obtain r where r: "VersionEdit_EncodeTo (snapshot_edit name vs) [] = Some r"
    using version_edit_codec [OF assms(2) [OF None]] by blast
  have "good f"
    using new_file_law [OF f ok] by blast
  then obtain s' w' where "AddRecord (env_Append env) (env_Flush env) (env_Extend env) r (Writer_make (env_Extend env) f) = (s', w')" "Status_ok s'"
    using AddRecord [OF writer_good_make(1)] by metis
  then show ?thesis
    using None f ok r by (auto simp add: open_manifest_def WriteSnapshot_def)
qed (auto simp add: open_manifest_def)

lemma log_edit_succeeds:
  assumes "env_succeeds env" "edit_ok edit" "holds es vs" "Status_ok s"
  shows "\<exists>s' vs' e'. log_edit md env edit v new_manifest s vs e = Some (s', vs', e') \<and> Status_ok s'"
proof -
  obtain w where w: "vs_descriptor_log vs = Some w" "writer_good good (env_Extend env) w"
    using assms(3) unfolding manifest_holds_def by blast
  obtain r where r: "VersionEdit_EncodeTo edit [] = Some r"
    using version_edit_codec [OF assms(2)] by blast
  obtain s1 w1 where w1: "AddRecord (env_Append env) (env_Flush env) (env_Extend env) r w = (s1, w1)" "Status_ok s1"
    using AddRecord [OF w(2)] by metis
  obtain s2 e2 where 2: "save_graph md env (vs\<lparr>vs_descriptor_log := Some w1\<rparr>) v e = (s2, e2)"
    by fastforce
  obtain s3 f where 3: "env_Sync env (w_dest w1) = (s3, f)"
    by fastforce
  have "Status_ok s2" "Status_ok s3"
    using save_graph_succeeds [OF assms(1)] assms(1) 2 3 unfolding env_succeeds_def by (metis fst_conv)+
  then show ?thesis
    using w(1) r w1 2 3 assms(4) SetCurrentFile_succeeds [OF assms(1)]
    by (auto simp add: log_edit_def write_manifest_def sync_manifest_def Let_def split: prod.split) (metis fst_conv)
qed

text \<open>Logging returns and succeeds when the environment does.\<close>

lemma LogAndApply_succeeds:
  assumes env: "env_succeeds env"
    and inv: "version_inv md (current vs)" "length (vs_compact_pointer vs) = kNumLevels" "length (vs_compact_vpointers vs) = vlevel_number md"
    and edit: "edit_ok (complete_edit vs edit)" "edit_applies md edit"
      "\<forall>level<kNumLevels. fresh_files level (ve_new_files edit) (fm_number ` set (ver_files (current vs) ! level))"
      "\<forall>level<vlevel_number md. fresh_files level (ve_new_vfiles edit) (fm_number ` set (ver_vfiles (current vs) ! level))"
    and man: "holds es vs \<or> vs_descriptor_log vs = None \<and>
      (\<forall>cp cvp. Apply_pointers (ve_compact_pointers edit) (vs_compact_pointer vs) = Some cp \<longrightarrow>
        Apply_vpointers (ve_compact_pointers edit) (ve_compact_vpointers edit) (vs_compact_vpointers vs) = Some cvp \<longrightarrow>
        edit_ok (snapshot_edit name (vs\<lparr>vs_compact_pointer := cp, vs_compact_vpointers := cvp\<rparr>)))"
  shows "\<exists>s vs' e'. LogAndApply md BytewiseComparator_Compare name env edit vs e = Some (s, vs', e') \<and> Status_ok s"
proof -
  define ce where "ce = complete_edit vs edit"
  obtain cp cvp b v where b: "Builder_Apply md BytewiseComparator_Compare ce (vs_compact_pointer vs) (vs_compact_vpointers vs) (Builder_make md (current vs)) =
        Some (cp, cvp, b)" "Builder_SaveTo md BytewiseComparator_Compare b (Version_make (vlevel_number md)) = Some v"
    using builder_edits_ok [OF inv(1) _ inv(2,3), of "[ce]"] edit by (auto simp add: ce_def bind_eq_Some_conv)
  have cps: "Apply_pointers (ve_compact_pointers edit) (vs_compact_pointer vs) = Some cp"
      "Apply_vpointers (ve_compact_pointers edit) (ve_compact_vpointers edit) (vs_compact_vpointers vs) = Some cvp"
    using b(1) by (auto simp add: Builder_Apply_def bind_eq_Some_conv ce_def)
  define vs1 where "vs1 = vs\<lparr>vs_compact_pointer := cp, vs_compact_vpointers := cvp\<rparr>"
  have snap: "vs_descriptor_log vs1 = None \<Longrightarrow> edit_ok (snapshot_edit name vs1)"
    using man cps by (auto simp add: vs1_def manifest_holds_def)
  obtain s2 new_manifest vs2 e2 where 2: "open_manifest env name vs1 e = Some (s2, new_manifest, vs2, e2)" "Status_ok s2"
    using open_manifest_succeeds [OF env snap, of e] by blast
  have "\<exists>es. holds es vs2"
    using open_manifest_holds [OF 2] man holds_cong [of vs1 vs "env_Extend env" good contents es]
    by (cases "vs_descriptor_log vs1") (auto simp add: vs1_def)
  then obtain es' where "holds es' vs2" ..
  note logged = log_edit_succeeds [OF env edit(1) [folded ce_def] this 2(2)]
  define v2 where "v2 = (if md = 10 then (Finalize v)\<lparr>ver_vblock_dep_graph := ver_vblock_dep_graph (current vs2)\<rparr> else Finalize v)"
  obtain s3 vs3 e3 where 3: "log_edit md env ce v2 new_manifest s2 vs2 e2 = Some (s3, vs3, e3)" "Status_ok s3"
    using logged by blast
  show ?thesis
    unfolding LogAndApply_def ce_def [symmetric] Let_def
    by (simp add: b vs1_def [symmetric] 2(1) v2_def [symmetric] 3)
qed

lemma run_logged:
  assumes "manifest_run md name env es vs" "env_succeeds env" "edit_step md edit" "fresh_run md (es @ [edit])"
  shows "\<exists>s vs' e'. LogAndApply md BytewiseComparator_Compare name env edit vs e = Some (s, vs', e') \<and> Status_ok s \<and>
    manifest_run md name env (es @ [complete_edit vs edit]) vs' \<and> applied md (complete_edit vs edit) (current vs) (current vs')"
proof -
  have inv: "run_inv md name (env_Extend env) good contents es vs"
    using assms(1) by (rule manifest_run_inv)
  have edit: "edit_applies md edit" "edit_ok (complete_edit vs edit)"
    using assms(3) edit_reach_ok complete_edit_reach unfolding edit_step_def by blast+
  have vs: "version_inv md (current vs)" "length (vs_compact_pointer vs) = kNumLevels" "length (vs_compact_vpointers vs) = vlevel_number md" "holds es vs"
    using inv by (simp_all add: run_inv_def version_of_def)
  note fresh = run_fresh [OF inv assms(4)]
  obtain s vs' e' where r: "LogAndApply md BytewiseComparator_Compare name env edit vs e = Some (s, vs', e')" "Status_ok s"
    using LogAndApply_succeeds [OF assms(2) vs(1-3) edit(2,1) fresh disjI1 [OF vs(4)], of name e] by blast
  have "applied md (complete_edit vs edit) (current vs) (current vs')"
    using LogAndApply_ok [OF r vs(1-3), of es] edit(1) fresh vs(4) by simp
  then show ?thesis
    using r manifest_run.logged [OF assms(1,3,4) r] by blast
qed

lemma run_opened:
  assumes "env_succeeds env" "vs_descriptor_log vs = None" "snapshot_ready md name vs" "edit_step md edit"
    and fresh: "\<forall>level<kNumLevels. fresh_files level (ve_new_files edit) (fm_number ` set (ver_files (current vs) ! level))"
      "\<forall>level<vlevel_number md. fresh_files level (ve_new_vfiles edit) (fm_number ` set (ver_vfiles (current vs) ! level))"
  shows "\<exists>s vs' e'. LogAndApply md BytewiseComparator_Compare name env edit vs e = Some (s, vs', e') \<and> Status_ok s \<and>
    manifest_run md name env [snapshot_edit name (vs\<lparr>vs_compact_pointer := vs_compact_pointer vs'\<rparr>), complete_edit vs edit] vs'"
proof -
  have edit: "edit_applies md edit" "edit_ok edit" "edit_ok (complete_edit vs edit)" "ve_compact_vpointers edit = []"
    using assms(4) edit_reach_ok complete_edit_reach unfolding edit_step_def by blast+
  have vs: "version_inv md (current vs)" "length (vs_compact_pointer vs) = kNumLevels" "length (vs_compact_vpointers vs) = vlevel_number md"
    using assms(3) by (simp_all add: snapshot_ready_def)
  have "edit_ok (snapshot_edit name (vs\<lparr>vs_compact_pointer := cp, vs_compact_vpointers := cvp\<rparr>))"
    if cp: "Apply_pointers (ve_compact_pointers edit) (vs_compact_pointer vs) = Some cp"
      "Apply_vpointers (ve_compact_pointers edit) (ve_compact_vpointers edit) (vs_compact_vpointers vs) = Some cvp" for cp cvp
  proof (rule snapshot_edit_ok(1))
    have "length cp = kNumLevels"
      using Apply_pointers_Some [of "ve_compact_pointers edit" "vs_compact_pointer vs"] cp(1) vs(2) edit(1) by (simp add: edit_applies_def)
    moreover have "\<forall>p\<in>set cp. length p < 2 ^ 32"
      by (rule Apply_pointers_bounds [OF cp(1)]) (use edit(2) assms(3) in \<open>simp_all add: edit_ok_def pointers_ok_def snapshot_ready_def\<close>)
    moreover have "cvp = vs_compact_vpointers vs"
      using cp(2) edit(4) by (cases "ve_compact_pointers edit") simp_all
    ultimately show "snapshot_ready md name (vs\<lparr>vs_compact_pointer := cp, vs_compact_vpointers := cvp\<rparr>)"
      using assms(3) by (simp add: snapshot_ready_def current_def)
  qed
  then have "\<exists>s vs' e'. LogAndApply md BytewiseComparator_Compare name env edit vs e = Some (s, vs', e') \<and> Status_ok s"
    using assms(2) by (intro LogAndApply_succeeds [OF assms(1) vs edit(3,1) fresh, where es = "[]"]) auto
  then obtain s vs' e' where r: "LogAndApply md BytewiseComparator_Compare name env edit vs e = Some (s, vs', e')" "Status_ok s"
    by (elim exE conjE)
  show ?thesis
    using r manifest_run.opened [OF assms(2-4) fresh r] by (intro exI conjI)
qed

end

section \<open>A run\<close>

text \<open>A database with one file, in an environment in which every operation succeeds.\<close>

abbreviation steady_env :: "(unit, FileState) ManifestEnv" where
  "steady_env \<equiv> mem_manifest_env (\<lambda>_ _. 0) (\<lambda>_ e. (Status_OK, e)) (\<lambda>_ _ e. (Status_OK, e)) (\<lambda>_ _ e. (Status_OK, e)) (\<lambda>_ e. (Status_OK, e)) (\<lambda>_ _ e. (True, e))"

abbreviation first_edit :: VersionEdit where
  "first_edit \<equiv> AddFile 1 5 100 (InternalKey_make [3] 1 kTypeValue) (InternalKey_make [4] 1 kTypeValue) VersionEdit_make"

abbreviation second_edit :: VersionEdit where
  "second_edit \<equiv> VersionEdit_DeleteFile 1 5 (AddFile 1 6 100 (InternalKey_make [1] 2 kTypeValue) (InternalKey_make [4] 2 kTypeValue) VersionEdit_make)"

lemmas edit_simps = AddFile_def VersionEdit_DeleteFile_def VersionEdit_make_def VersionEdit_Clear_def FileMetaData_make_def insort_insert_key_def

lemma steady_env: "env_succeeds steady_env"
  by (simp add: env_succeeds_def mem_manifest_env_def WritableFileImpl_Sync_def)

lemma edit_steps: "edit_step 0 first_edit" "edit_step 0 second_edit"
proof -
  have ne: "InternalKey_make u s t \<noteq> []" for u s t
    using length_InternalKey_make [of u s t] by (metis add_is_0 list.size(3) zero_neq_numeral)
  have "edit_reach first_edit" "edit_reach second_edit"
    by (rule edit_reach.add_file edit_reach.delete_file edit_reach.fresh | simp add: kNumLevels_def ne)+
  then show "edit_step 0 first_edit" "edit_step 0 second_edit"
    by (simp_all add: edit_step_def edit_applies_def vlevel_number_def kNumLevels_def edit_simps)
qed

lemma first_run:
  "\<exists>es vs. manifest_run 0 [1] steady_env es vs \<and> fresh_run 0 (es @ [second_edit]) \<and> length es = 2 \<and>
     fm_number ` set (ver_files (current vs) ! 1) = {5} \<and> vs_descriptor_log vs \<noteq> None"
proof -
  let ?vs = "VersionSet_make 0 ''db'' [] :: FileState VersionSet"
  have n: "vlevel_number 0 = 7" "kNumLevels = 7"
    by (simp_all add: vlevel_number_def kNumLevels_def)
  have cur: "current ?vs = Version_make 7"
    by (simp add: n)
  have ready: "snapshot_ready 0 [1] ?vs" "vs_descriptor_log ?vs = None"
    by (simp_all add: snapshot_ready_def version_inv_def storable_def Version_make_def n dep_reach.empty) (simp add: VersionSet_make_def)
  have fresh: "\<forall>level<kNumLevels. fresh_files level (ve_new_files first_edit) (fm_number ` set (ver_files (current ?vs) ! level))"
      "\<forall>level<vlevel_number 0. fresh_files level (ve_new_vfiles first_edit) (fm_number ` set (ver_vfiles (current ?vs) ! level))"
    by (simp_all add: cur Version_make_def fresh_files_def new_at_def edit_simps n)
  obtain vs es where run: "manifest_run 0 [1] steady_env es vs" "es = [snapshot_edit [1] (?vs\<lparr>vs_compact_pointer := vs_compact_pointer vs\<rparr>), complete_edit ?vs first_edit]"
    using mem_manifest.run_opened [OF steady_env ready(2,1) edit_steps(1) fresh] by blast
  have empty: "current (?vs\<lparr>vs_compact_pointer := cp\<rparr>) = Version_make 7" "level_entries (replicate m []) = []" for cp m
    using cur by (auto simp add: current_def level_entries_def set_enumerate)
  have snap: "ve_new_files (hd es) = []" "ve_new_vfiles (hd es) = []" "ve_deleted_files (hd es) = []"
    by (simp_all add: run(2) snapshot_edit_entries empty Version_make_def VersionEdit_make_def VersionEdit_Clear_def)
  have inv: "run_inv 0 [1] (portable_crc (\<lambda>_ _. 0)) fs_inv fs_contents es vs"
    using mem_manifest.manifest_run_inv [OF run(1)] by (simp add: mem_manifest_env_def)
  show ?thesis
proof (intro exI conjI)
    show "manifest_run 0 [1] steady_env es vs"
      by (rule run(1))
    show "vs_descriptor_log vs \<noteq> None"
      using inv by (auto simp add: run_inv_def manifest_holds_def)
    show "length es = 2"
      by (simp add: run(2))
    show "fresh_run 0 (es @ [second_edit])"
      using snap by (simp add: fresh_run_def run(2) fresh_files_def new_at_def edit_simps)
    have "fm_number ` fold (edit_files 1) es {} = {5}"
      using snap by (auto simp add: run(2) edit_files_def apply_files_def new_at_def edit_simps)
    then show "fm_number ` set (ver_files (current vs) ! 1) = {5}"
      using inv stored_number [of "set (ver_files (current vs) ! 1)" "fold (edit_files 1) es {}"] by (simp add: run_inv_def version_of_def n)
qed
qed

text \<open>A disk on which CURRENT names the manifest 4, whose bytes are \<open>m\<close>.\<close>

definition disk_env :: "bytes \<Rightarrow> (unit, FileState, FileState \<times> nat) RecoverEnv" where
  "disk_env m =
     \<lparr>rec_NewSequentialFile = (\<lambda>n. (Status_OK, FileState_Append_loop
        (if n = CurrentFileName ''db'' then map of_char (drop 3 (DescriptorFileName ''db'' 4) @ [CHR 0x0A]) else m) FileState_make, 0)),
      rec_Read = SequentialFileImpl_Read, rec_Skip = SequentialFileImpl_Skip, rec_GetFileSize = (\<lambda>_. (Status_OK, 0)),
      rec_NewAppendableFile = (\<lambda>_. (Status_OK, FileState_make)), rec_LoadGraph = (\<lambda>_. (False, [])), rec_Extend = portable_crc (\<lambda>_ _. 0)\<rparr>"

lemma recover_disk_env: "recover_env (\<lambda>_ _. 0) ''db'' 4 m (disk_env m)"
proof -
  have "CurrentFileName ''db'' \<noteq> DescriptorFileName ''db'' 4"
    by (simp add: CurrentFileName_def DescriptorFileName_def)
  then show ?thesis
    by (auto simp add: recover_env_def disk_env_def FileState_Append_contents numeral_3_eq_3)
qed

section \<open>Properties\<close>



text \<open>C1. Recovery from a manifest, also after a crash. Take a version set that has written its manifest by any
  sequence of successful edits, and a file that holds the first \<open>k\<close> bytes of that manifest. Recovery returns;
  it sees exactly the \<open>m\<close> edits that are whole in these bytes. With fewer than two it reports that the
  manifest has no numbers; otherwise it succeeds, the files of every level are those that the first \<open>m\<close>
  edits leave, and the numbers are those of the last of them. If nothing was cut, every level has the
  same files in the same order as in the version set that wrote the manifest.\<close>

theorem manifest_recovery:
  fixes renv :: "('e, 'f, FileState \<times> nat) RecoverEnv"
  assumes "manifest_run md name (mem_manifest_env addr create put mv rm save_g) es vs" "vs_descriptor_log vs = Some w"
    and "recover_env addr dbname n (take k (fs_contents (w_dest w))) renv"
  shows "\<exists>recs m. list_all2 (\<lambda>e r. VersionEdit_EncodeTo e [] = Some r) es recs \<and> fs_contents (w_dest w) = fst (log_records (portable_crc addr) recs 0) \<and>
    m \<le> length es \<and> length (fst (log_records (portable_crc addr) (take m recs) 0)) \<le> k \<and>
    (m < length es \<longrightarrow> k < length (fst (log_records (portable_crc addr) (take (Suc m) recs) 0))) \<and>
    (if m \<le> 1
     then \<exists>vs'. VersionSet_Recover md BytewiseComparator_Compare name renv reuse_logs max_file_size save (VersionSet_make md dbname buf) =
       Some (Corruption ''no meta-nextfile entry in descriptor'', save, vs')
     else \<exists>save' vs'. VersionSet_Recover md BytewiseComparator_Compare name renv reuse_logs max_file_size save (VersionSet_make md dbname buf) =
       Some (Status_OK, save', vs') \<and> version_of md (take m es) (current vs') \<and>
       vs_log_number vs' = ve_log_number (es ! (m - 1)) \<and> vs_last_sequence vs' = ve_last_sequence (es ! (m - 1)) \<and>
       vs_next_file_number vs' = ve_next_file_number (es ! (m - 1)) + 1 \<and>
       (m = length es \<longrightarrow> vs_log_number vs' = vs_log_number vs \<and>
         (\<forall>level<kNumLevels. map stored_file (ver_files (current vs') ! level) = map stored_file (ver_files (current vs) ! level))))"
proof -
  have inv: "run_inv md name (portable_crc addr) fs_inv fs_contents es vs"
    using mem_manifest.manifest_run_inv [OF assms(1)] by (simp add: mem_manifest_env_def)
  then obtain recs where recs: "list_all2 (\<lambda>e r. VersionEdit_EncodeTo e [] = Some r) es recs"
      "fs_contents (w_dest w) = fst (log_records (portable_crc addr) recs 0)"
    using assms(2) by (auto simp add: run_inv_def manifest_holds_def)
  have es: "manifest_edits md name es" "version_of md es (current vs)" "vs_log_number vs = ve_log_number (last es)"
    using inv by (simp_all add: run_inv_def)
  have same: "map stored_file (ver_files v ! level) = map stored_file (ver_files (current vs) ! level)"
    if "version_of md es v" "level < kNumLevels" for v level
    using that es(2) by (intro comparator.sorted_files_unique [OF ikey_order]) (auto simp add: version_of_def version_inv_def)
  have last: "last es = es ! (length es - 1)" "1 < length es"
    using es(1) by (cases es; cases "tl es"; simp add: manifest_edits_def last_conv_nth)+
  obtain m where m: "m \<le> length es" "length (fst (log_records (portable_crc addr) (take m recs) 0)) \<le> k"
      "m < length es \<longrightarrow> k < length (fst (log_records (portable_crc addr) (take (Suc m) recs) 0))"
      "if m \<le> 1
       then \<exists>vs'. VersionSet_Recover md BytewiseComparator_Compare name renv reuse_logs max_file_size save (VersionSet_make md dbname buf) =
         Some (Corruption ''no meta-nextfile entry in descriptor'', save, vs')
       else \<exists>save' vs'. VersionSet_Recover md BytewiseComparator_Compare name renv reuse_logs max_file_size save (VersionSet_make md dbname buf) =
         Some (Status_OK, save', vs') \<and> version_of md (take m es) (current vs') \<and>
         vs_log_number vs' = ve_log_number (es ! (m - 1)) \<and> vs_last_sequence vs' = ve_last_sequence (es ! (m - 1)) \<and>
         vs_next_file_number vs' = ve_next_file_number (es ! (m - 1)) + 1"
    using Recover_manifest [OF assms(3) [unfolded recs(2)] es(1) recs(1), of reuse_logs max_file_size save buf] by blast
  show ?thesis
  proof (cases "m \<le> 1")
    case True
    then show ?thesis
      using m recs by auto
  next
    case False
    then show ?thesis
      using m recs same es(3) last by (intro exI [of _ recs] exI [of _ m]) (auto simp del: split_paired_Ex)
  qed
qed

theorem manifest_recovery_witness:
  "\<exists>es vs w save' vs'. manifest_run 0 [1] steady_env es vs \<and> vs_descriptor_log vs = Some w \<and>
     VersionSet_Recover 0 BytewiseComparator_Compare [1] (disk_env (fs_contents (w_dest w))) False 0 False (VersionSet_make 0 ''db'' []) =
       Some (Status_OK, save', vs') \<and> fm_number ` set (ver_files (current vs') ! 1) = {5}"
proof -
  obtain es and vs :: "FileState VersionSet" where run: "manifest_run 0 [1] steady_env es vs" "length es = 2"
      "fm_number ` set (ver_files (current vs) ! 1) = {5}" "vs_descriptor_log vs \<noteq> None"
    using first_run by blast
  obtain w where w: "vs_descriptor_log vs = Some w"
    using run(4) by blast
  let ?k = "length (fs_contents (w_dest w))"
  have "recover_env (\<lambda>_ _. 0) ''db'' 4 (take ?k (fs_contents (w_dest w))) (disk_env (fs_contents (w_dest w)))"
    by (simp add: recover_disk_env)
  note r = manifest_recovery [OF run(1) w this, of False 0 False "[]"]
  obtain recs m where m: "fs_contents (w_dest w) = fst (log_records (portable_crc (\<lambda>_ _. 0)) recs 0)" "m \<le> length es"
      "m < length es \<longrightarrow> ?k < length (fst (log_records (portable_crc (\<lambda>_ _. 0)) (take (Suc m) recs) 0))"
      "m > 1 \<Longrightarrow> \<exists>save' vs'. VersionSet_Recover 0 BytewiseComparator_Compare [1] (disk_env (fs_contents (w_dest w))) False 0 False (VersionSet_make 0 ''db'' []) =
         Some (Status_OK, save', vs') \<and>
         (m = length es \<longrightarrow> (\<forall>level<kNumLevels. map stored_file (ver_files (current vs') ! level) = map stored_file (ver_files (current vs) ! level)))"
    using r by (elim exE conjE) (rule that, assumption, assumption, assumption, auto simp del: split_paired_Ex)
  have "m = 2"
    using m(1-3) run(2) log_records_append [of _ "take (Suc m) recs" "drop (Suc m) recs" 0] by (cases "m < 2") (auto simp add: Let_def)
  then obtain save' vs' where vs': "VersionSet_Recover 0 BytewiseComparator_Compare [1] (disk_env (fs_contents (w_dest w))) False 0 False (VersionSet_make 0 ''db'' []) =
         Some (Status_OK, save', vs')" "map stored_file (ver_files (current vs') ! 1) = map stored_file (ver_files (current vs) ! 1)"
    using m(4) run(2) by (auto simp add: kNumLevels_def)
  have "fm_number ` set (ver_files (current vs') ! 1) = {5}"
    using arg_cong [OF vs'(2), of set] run(3) stored_number [of "set (ver_files (current vs') ! 1)" "set (ver_files (current vs) ! 1)"] by simp
  then show ?thesis
    using run(1) w vs'(1) by blast
qed

end
