(* ===== verification/Spec2Isabelle.thy ===== *)
theory Spec2Isabelle
  imports Write_Batch Version_Recovery
begin

text \<open>
  A verification of Doux, a key-value store derived from LevelDB that keeps large values in separate
  value tables. Every definition that models code has the name of the function or type it translates,
  with the class in front of it where names clash.

  \<^bold>\<open>How the program works.\<close> A write is a batch of updates (\<^verbatim>\<open>db/write_batch.cc\<close>). The batch is appended to
  the write-ahead log (\<^verbatim>\<open>db/log_writer.cc\<close>) and then inserted into the memtable (\<^verbatim>\<open>db/memtable.cc\<close>), a
  skip list (\<^verbatim>\<open>db/skiplist.h\<close>) whose nodes are allocated in an arena (\<^verbatim>\<open>util/arena.cc\<close>). Keys are internal
  keys: a user key with a sequence number and a type (\<^verbatim>\<open>include/leveldb/comparator.h\<close>,
  \<^verbatim>\<open>db/dbformat.cc\<close>). A full memtable becomes a table, a file of sorted blocks (\<^verbatim>\<open>table/block_builder.cc\<close>,
  \<^verbatim>\<open>table/block.h\<close>) with a filter block (\<^verbatim>\<open>table/filter_block.cc\<close>, \<^verbatim>\<open>util/bloom.cc\<close>), an index block and a
  footer (\<^verbatim>\<open>table/table_builder.cc\<close>, \<^verbatim>\<open>table/format.cc\<close>, \<^verbatim>\<open>table/table.cc\<close>). Which files make
  up the database is recorded as version edits (\<^verbatim>\<open>db/version_edit.cc\<close>) in a manifest, a log of the same
  format, from which the database is recovered; the version so recorded finds the files a lookup reads
  (\<^verbatim>\<open>db/version_set.cc\<close>). The blocks of value tables move between files; the dependency graph
  (\<^verbatim>\<open>impl/dependency.h\<close>) remembers where to. All numbers and strings on disk are encoded by \<^verbatim>\<open>util/coding.cc\<close>.

  \<^bold>\<open>The theories.\<close>

    \<^item> \<^verbatim>\<open>Prelude\<close>: the types of bytes and machine words, facts about words, decimal numbers and ordered maps.

    \<^item> \<^verbatim>\<open>Coding\<close>: fixed-width numbers, varints and length-prefixed strings, with their round trips; parsers
    stay inside their input.

    \<^item> \<^verbatim>\<open>Slices\<close>: comparison of byte strings, statuses, and the interface \<open>comparator\<close>.

    \<^item> \<^verbatim>\<open>Internal_Keys\<close>: packing and parsing of internal keys, the three comparators as interpretations of
    \<open>comparator\<close>, separators and successors, and what a lookup key sees of the versions of a user key.

    \<^item> \<^verbatim>\<open>Random_Arena\<close>: the random number generator and the arena. The ranges it hands out never overlap.

    \<^item> \<^verbatim>\<open>Skiplist\<close>: nodes in a store addressed by index. Searches are partial functions; on every list the
    operations build they return, and insertion refines insertion into a sorted list.

    \<^item> \<^verbatim>\<open>Memtable\<close>: entries as byte strings. \<open>MemTable_Get\<close> answers with the newest entry its snapshot sees.

    \<^item> \<^verbatim>\<open>Write_Batch\<close>: batches, their replay, and the composition with the memtable: after inserting a batch
    every key reads as its last update for new readers, and as before for readers of older snapshots.

    \<^item> \<^verbatim>\<open>Crc32c\<close>: the table-driven checksum equals the bit-serial one.

    \<^item> \<^verbatim>\<open>Mem_Env\<close>: the in-memory file system with reference counts, and the interfaces \<open>writable_file\<close>,
    \<open>sequential_file\<close> and \<open>random_access_file\<close> of \<^verbatim>\<open>include/leveldb/env.h\<close>.

    \<^item> \<^verbatim>\<open>Log_Format\<close>: log writer and reader over these interfaces and any checksum; a log cut at any byte
    reads back as the records that were complete.

    \<^item> \<^verbatim>\<open>Filter_Blocks\<close>: hash, Bloom filter, filter blocks for any \<open>filter_policy\<close>; no key is lost.

    \<^item> \<^verbatim>\<open>Block_Format\<close>: blocks, all moves of their iterator, round trip and search.

    \<^item> \<^verbatim>\<open>Table_Format\<close>, \<^verbatim>\<open>Table_Builder\<close>, \<^verbatim>\<open>Table_Reader\<close>: table files over the interfaces of files, checksum and
    compression. The builder's invariant gives the bytes of the finished file as a function of its
    blocks; the reader opens such a file and finds its blocks.

    \<^item> \<^verbatim>\<open>Table_Properties\<close>: lookups in a table file answer like the list of entries it was built from.

    \<^item> \<^verbatim>\<open>File_Names\<close>: numbers in text and the names of the files of a database.

    \<^item> \<^verbatim>\<open>Dependency_Graph\<close>: the graph of moved blocks with its file, and the union-find structure over files.

    \<^item> \<^verbatim>\<open>Version_Edit\<close>: version edits, their encoding and decoding.

    \<^item> \<^verbatim>\<open>Table_Cache\<close>, \<^verbatim>\<open>Version_Files\<close>, \<^verbatim>\<open>Version_Lookup\<close>: open tables, the files of a version by level, their
    overlap with key ranges, and lookups. A lookup finds the newest entry a snapshot sees among all
    entries of all files.

    \<^item> \<^verbatim>\<open>Version_Builder\<close>, \<^verbatim>\<open>Version_Set\<close>, \<^verbatim>\<open>Version_Recovery\<close>: edits applied to a version, the set of versions with
    its numbers and its manifest, and recovery. Logging an edit succeeds when the environment does, and
    recovery from a manifest cut at any byte gives the version of the edits that were complete.

  \<^bold>\<open>Conventions.\<close> A buffer, a slice and a string of bytes are lists of 8-bit words. Integers that the code
  stores or computes with wrap-around are words of their width; sizes and offsets inside a buffer are
  natural numbers. State is passed explicitly; a pointer is an index into a store. A loop that may not
  end is a \<^theory_text>\<open>partial_function\<close> into options, where \<^const>\<open>None\<close> is not returning, and that it returns is
  part of the theorems; no fuel is used. A failing assertion, an abort or the use of a dangling pointer
  is \<^const>\<open>None\<close> as well where the code can reach it. The user's comparator and filter policy, the files
  and the checksum routine are arguments of the definitions; what is relied on is a locale, and every
  locale is interpreted on the program's own implementations.

  \<^bold>\<open>Not modelled.\<close> Threads, mutexes and background scheduling; the POSIX and Windows environments and the
  C interface, which wrap the operating system; benchmarks, tests and the third-party option parser;
  statistics, timers and debug printing to the console.
\<close>

end
